(* ===== verification/Vimix_Prelude.thy ===== *)
theory Vimix_Prelude
  imports Main "HOL-Library.Word" "HOL-Library.Monad_Syntax"
begin

text \<open>
  Shared vocabulary of the VIMIX kernel development: the C integer types at the
  widths of the 64-bit RISC-V build, the error numbers of
  \<^verbatim>\<open>kernel/include/kernel/errno.h\<close>, byte-addressed memory, page
  arithmetic, and the generic lemmas on lists, options and words that the
  component theories share.

  Conventions used by every theory:
  \<^item> \<^verbatim>\<open>size_t\<close> and pointers are \<open>64 word\<close> where the code relies on
    wrap-around and \<open>nat\<close> where it counts or indexes;
  \<^item> a \<^verbatim>\<open>syserr_t\<close> is an \<open>int\<close>: negative values are \<open>- errno\<close>;
  \<^item> a result of type \<open>'a option\<close> is \<open>None\<close> exactly when the C code would
    call \<^verbatim>\<open>panic()\<close> or touch memory outside of the object it was given;
  \<^item> a circular \<^verbatim>\<open>struct list_head\<close> list is the HOL list of its
    elements, from \<^verbatim>\<open>head->next\<close> to \<^verbatim>\<open>head->prev\<close>.
\<close>

unbundle bit_operations_syntax

section \<open>C types\<close>

type_synonym u8 = "8 word"
type_synonym u32 = "32 word"
type_synonym u64 = "64 word"
type_synonym byte = "8 word"
type_synonym syserr_t = int

text \<open>Byte addressed memory; addresses do not wrap inside one C object.\<close>

type_synonym mem = "nat \<Rightarrow> byte"

section \<open>Error numbers\<close>

abbreviation (input) EPERM :: int where "EPERM \<equiv> 1"
abbreviation (input) ENOENT :: int where "ENOENT \<equiv> 2"
abbreviation (input) ESRCH :: int where "ESRCH \<equiv> 3"
abbreviation (input) EBADF :: int where "EBADF \<equiv> 9"
abbreviation (input) ECHILD :: int where "ECHILD \<equiv> 10"
abbreviation (input) ENOMEM :: int where "ENOMEM \<equiv> 12"
abbreviation (input) EACCES :: int where "EACCES \<equiv> 13"
abbreviation (input) EFAULT :: int where "EFAULT \<equiv> 14"
abbreviation (input) EEXIST :: int where "EEXIST \<equiv> 17"
abbreviation (input) ENODEV :: int where "ENODEV \<equiv> 19"
abbreviation (input) ENOTDIR :: int where "ENOTDIR \<equiv> 20"
abbreviation (input) EISDIR :: int where "EISDIR \<equiv> 21"
abbreviation (input) EINVAL :: int where "EINVAL \<equiv> 22"
abbreviation (input) EMFILE :: int where "EMFILE \<equiv> 24"
abbreviation (input) EFBIG :: int where "EFBIG \<equiv> 27"
abbreviation (input) ENOSPC :: int where "ENOSPC \<equiv> 28"
abbreviation (input) ESPIPE :: int where "ESPIPE \<equiv> 29"
abbreviation (input) ENOTEMPTY :: int where "ENOTEMPTY \<equiv> 39"
abbreviation (input) EOTHER :: int where "EOTHER \<equiv> 65520"

section \<open>Lemma collections\<close>

named_theorems vimix_defs \<open>definitions of constants that simp may always unfold\<close>

section \<open>Generic lemmas\<close>

lemma bind_Some_iff [simp]:
  "(Option.bind m f = Some y) \<longleftrightarrow> (\<exists>x. m = Some x \<and> f x = Some y)"
  by (cases m) auto

lemma takeWhile_split_zero:
  "0 \<in> set xs \<Longrightarrow> xs = takeWhile (\<lambda>c. c \<noteq> 0) xs @ 0 # tl (dropWhile (\<lambda>c. c \<noteq> 0) xs)"
  for xs :: "'a::zero list"
  by (induction xs) auto

lemma find_append: "List.find P (xs @ ys) = (case List.find P xs of None \<Rightarrow> List.find P ys | r \<Rightarrow> r)"
  by (induction xs) auto

lemma find_map: "List.find P (map f xs) = map_option f (List.find (P \<circ> f) xs)"
  by (induction xs) auto

lemma find_upt_shift:
  "List.find P [n..<m + n] = map_option (\<lambda>b. b + n) (List.find (\<lambda>b. P (b + n)) [0..<m])"
  by (simp add: map_add_upt [symmetric] find_map comp_def)

lemma find_upt_split:
  "i \<le> k \<Longrightarrow> k \<le> n \<Longrightarrow>
     List.find P [i..<n] = (case List.find P [i..<k] of None \<Rightarrow> List.find P [k..<n] | r \<Rightarrow> r)"
  by (metis find_append le_add_diff_inverse upt_add_eq_append)

lemma find_cong_set: "(\<And>x. x \<in> set xs \<Longrightarrow> P x = Q x) \<Longrightarrow> List.find P xs = List.find Q xs"
  by (induction xs) auto

end
