(* ===== verification/Kstring.thy ===== *)
theory Kstring
  imports Vimix_Prelude
begin

text \<open>
  \<^verbatim>\<open>kernel/lib/string.c\<close>: the kernel's C string and memory functions
  (the user space libc compiles the same file).

  A \<^verbatim>\<open>char *\<close> that is only read or written forwards is the list of
  bytes from the pointer to the end of the object it points into: reading or
  writing through the empty list is an access outside of the object and yields
  \<open>None\<close>. A returned pointer is the remaining suffix, \<^verbatim>\<open>NULL\<close> is the inner
  \<open>None\<close>. Functions whose operands may overlap or whose alignment matters
  (\<^verbatim>\<open>memset\<close>, \<^verbatim>\<open>memmove\<close>) work on a flat byte addressed
  memory. \<^verbatim>\<open>char\<close> is unsigned on RISC-V.
\<close>

section \<open>Memory functions\<close>

text \<open>A little endian 64-bit store.\<close>

definition store64 :: "mem \<Rightarrow> nat \<Rightarrow> u64 \<Rightarrow> mem" where
  "store64 m a v = (\<lambda>x. if a \<le> x \<and> x < a + 8 then ucast (drop_bit (8 * (x - a)) v) else m x)"

fun store_bytes :: "mem \<Rightarrow> nat \<Rightarrow> byte \<Rightarrow> nat \<Rightarrow> mem" where
  "store_bytes m pos c 0 = m"
| "store_bytes m pos c (Suc k) = store_bytes (m(pos := c)) (Suc pos) c k"

fun memset_head :: "mem \<Rightarrow> nat \<Rightarrow> byte \<Rightarrow> nat \<Rightarrow> mem \<times> nat \<times> nat" where
  "memset_head m pos c n =
     (if pos mod 8 \<noteq> 0 \<and> n > 0 then memset_head (m(pos := c)) (pos + 1) c (n - 1)
      else (m, pos, n))"

fun memset_value :: "nat \<Rightarrow> byte \<Rightarrow> u64 \<Rightarrow> u64" where
  "memset_value 0 c v = v"
| "memset_value (Suc k) c v = memset_value k c (push_bit 8 v OR ucast c)"

fun memset_words :: "mem \<Rightarrow> nat \<Rightarrow> u64 \<Rightarrow> nat \<Rightarrow> mem" where
  "memset_words m a v 0 = m"
| "memset_words m a v (Suc k) = memset_words (store64 m a v) (a + 8) v k"

definition memset :: "mem \<Rightarrow> nat \<Rightarrow> byte \<Rightarrow> nat \<Rightarrow> mem" where
  "memset m dst c n =
     (case memset_head m dst c n of (m1, pos, n1) \<Rightarrow>
        let n_word = n1 div 8;
            remaining_bytes = n1 mod 8;
            v = memset_value 8 c 0;
            m2 = memset_words m1 pos v n_word
        in store_bytes m2 (pos + n_word * 8) c remaining_bytes)"

fun memcmp :: "byte list \<Rightarrow> byte list \<Rightarrow> nat \<Rightarrow> int option" where
  "memcmp s1 s2 0 = Some 0"
| "memcmp (a # s1) (b # s2) (Suc n) =
     (if a \<noteq> b then Some (uint a - uint b) else memcmp s1 s2 n)"
| "memcmp _ _ (Suc n) = None"

fun move_up :: "mem \<Rightarrow> nat \<Rightarrow> nat \<Rightarrow> nat \<Rightarrow> mem" where
  "move_up m d s 0 = m"
| "move_up m d s (Suc n) = move_up (m(d := m s)) (Suc d) (Suc s) n"

text \<open>The backward loop is entered with both pointers moved to the end.\<close>

fun move_down :: "mem \<Rightarrow> nat \<Rightarrow> nat \<Rightarrow> nat \<Rightarrow> mem" where
  "move_down m d s 0 = m"
| "move_down m d s (Suc n) = move_down (m(d - 1 := m (s - 1))) (d - 1) (s - 1) n"

definition memmove :: "mem \<Rightarrow> nat \<Rightarrow> nat \<Rightarrow> nat \<Rightarrow> mem" where
  "memmove m dst src n =
     (if src > dst then move_up m dst src n else move_down m (dst + n) (src + n) n)"

definition memcpy :: "mem \<Rightarrow> nat \<Rightarrow> nat \<Rightarrow> nat \<Rightarrow> mem" where
  "memcpy m dst src n = memmove m dst src n"

fun memchr :: "byte list \<Rightarrow> byte \<Rightarrow> nat \<Rightarrow> byte list option option" where
  "memchr s c 0 = Some None"
| "memchr [] c (Suc n) = None"
| "memchr (x # s) c (Suc n) = (if x = c then Some (Some (x # s)) else memchr s c n)"

section \<open>String functions\<close>

fun strchr :: "byte list \<Rightarrow> byte \<Rightarrow> byte list option option" where
  "strchr [] c = None"
| "strchr (x # s) c =
     (if x = 0 then Some None else if x = c then Some (Some (x # s)) else strchr s c)"

fun strcmp :: "byte list \<Rightarrow> byte list \<Rightarrow> int option" where
  "strcmp (a # s1) (b # s2) =
     (if a \<noteq> 0 \<and> a = b then strcmp s1 s2 else Some (uint a - uint b))"
| "strcmp _ _ = None"

fun strcpy :: "byte list \<Rightarrow> byte list \<Rightarrow> byte list option" where
  "strcpy (d # dst) (x # src) =
     (if x \<noteq> 0 then map_option ((#) x) (strcpy dst src) else Some (x # dst))"
| "strcpy _ _ = None"

fun strncmp :: "byte list \<Rightarrow> byte list \<Rightarrow> nat \<Rightarrow> int option" where
  "strncmp s1 s2 0 = Some 0"
| "strncmp (a # s1) (b # s2) (Suc n) =
     (if a \<noteq> 0 \<and> a = b then strncmp s1 s2 n else Some (uint a - uint b))"
| "strncmp _ _ (Suc n) = None"

fun zero_fill :: "byte list \<Rightarrow> nat \<Rightarrow> byte list option" where
  "zero_fill dst 0 = Some dst"
| "zero_fill (d # dst) (Suc n) = map_option ((#) 0) (zero_fill dst n)"
| "zero_fill [] (Suc n) = None"

fun strncpy :: "byte list \<Rightarrow> byte list \<Rightarrow> nat \<Rightarrow> byte list option" where
  "strncpy dst src 0 = Some dst"
| "strncpy (d # dst) (x # src) (Suc n) =
     map_option ((#) x) (if x = 0 then zero_fill dst n else strncpy dst src n)"
| "strncpy _ _ (Suc n) = None"

definition safestrcpy :: "byte list \<Rightarrow> byte list \<Rightarrow> nat \<Rightarrow> byte list option" where
  "safestrcpy dst src n =
     (case strncpy dst src n of
        None \<Rightarrow> None
      | Some r \<Rightarrow> if n > 0 then Some (r[n - 1 := 0]) else Some r)"

fun strlen :: "byte list \<Rightarrow> nat option" where
  "strlen [] = None"
| "strlen (c # s) = (if c \<noteq> 0 then map_option Suc (strlen s) else Some 0)"

fun strnlen :: "byte list \<Rightarrow> nat \<Rightarrow> nat option" where
  "strnlen s 0 = Some 0"
| "strnlen [] (Suc m) = None"
| "strnlen (c # s) (Suc m) = (if c \<noteq> 0 then map_option Suc (strnlen s m) else Some 0)"

fun strrchr_from :: "byte list \<Rightarrow> byte \<Rightarrow> nat \<Rightarrow> byte list option" where
  "strrchr_from s c i =
     (if s ! i = c then Some (drop i s)
      else case i of 0 \<Rightarrow> None | Suc j \<Rightarrow> strrchr_from s c j)"

definition strrchr :: "byte list \<Rightarrow> byte \<Rightarrow> byte list option option" where
  "strrchr s c =
     (case strlen s of None \<Rightarrow> None | Some len \<Rightarrow> Some (strrchr_from s c len))"

definition is_whitespace :: "byte \<Rightarrow> bool" where
  "is_whitespace c \<longleftrightarrow> 9 \<le> c \<and> c \<le> 13 \<or> c = 32"

text \<open>The inner loop of \<^verbatim>\<open>strspn\<close>: is \<open>c\<close> one of the characters of \<open>accept\<close>?\<close>

fun strspn_accepts :: "byte \<Rightarrow> byte list \<Rightarrow> bool option" where
  "strspn_accepts c [] = None"
| "strspn_accepts c (a # as) =
     (if a = 0 then Some False else if c = a then Some True else strspn_accepts c as)"

fun strspn_from :: "byte list \<Rightarrow> byte list \<Rightarrow> nat option" where
  "strspn_from [] accept = None"
| "strspn_from (p # s) accept =
     (if p = 0 then Some 0
      else case strspn_accepts p accept of
             None \<Rightarrow> None
           | Some False \<Rightarrow> Some 0
           | Some True \<Rightarrow> map_option Suc (strspn_from s accept))"

text \<open>A \<^verbatim>\<open>NULL\<close> argument is \<open>None\<close>.\<close>

definition strspn :: "byte list option \<Rightarrow> byte list option \<Rightarrow> nat option" where
  "strspn s accept =
     (case (s, accept) of (Some p, Some a) \<Rightarrow> strspn_from p a | _ \<Rightarrow> Some 0)"

section \<open>Number parsing\<close>

fun skip_whitespace :: "byte list \<Rightarrow> byte list option" where
  "skip_whitespace [] = None"
| "skip_whitespace (c # s) = (if is_whitespace c then skip_whitespace s else Some (c # s))"

fun parse_sign :: "byte list \<Rightarrow> (bool \<times> byte list) option" where
  "parse_sign [] = None"
| "parse_sign (c # s) =
     (if c = 45 then Some (True, s) else if c = 43 then Some (False, s)
      else Some (False, c # s))"

text \<open>
  The digit loop accumulates in a signed type of \<open>w\<close> bits; leaving its range
  is undefined in C and is \<open>None\<close> here.
\<close>

definition fits_signed :: "nat \<Rightarrow> int \<Rightarrow> bool" where
  "fits_signed w n \<longleftrightarrow> - (2 ^ (w - 1)) \<le> n \<and> n < 2 ^ (w - 1)"

fun parse_digits :: "nat \<Rightarrow> byte \<Rightarrow> int \<Rightarrow> int \<Rightarrow> byte list \<Rightarrow> (int \<times> byte list) option" where
  "parse_digits w hi base n [] = None"
| "parse_digits w hi base n (c # s) =
     (if 48 \<le> c \<and> c \<le> hi
      then if fits_signed w (n * base) \<and> fits_signed w (n * base + uint c)
           then parse_digits w hi base (n * base + uint c - 48) s
           else None
      else Some (n, c # s))"

definition strtoll :: "byte list \<Rightarrow> int \<Rightarrow> (int \<times> byte list option) option" where
  "strtoll nptr base =
     (let highest_number = word_of_int (48 + base - 1) in
      if base < 2 \<or> base > 10 then Some (0, None)
      else do {
        p1 \<leftarrow> skip_whitespace nptr;
        (neg, p2) \<leftarrow> parse_sign p1;
        (n, p3) \<leftarrow> parse_digits 64 highest_number base 0 p2;
        Some (if neg then n * (-1) else n, Some p3)
      })"

definition strtol :: "byte list \<Rightarrow> int \<Rightarrow> (int \<times> byte list option) option" where
  "strtol nptr base = strtoll nptr base"

definition strtoul :: "byte list \<Rightarrow> int \<Rightarrow> (u64 \<times> byte list option) option" where
  "strtoul nptr base = map_option (\<lambda>(n, e). (word_of_int n, e)) (strtoll nptr base)"

definition strtoull :: "byte list \<Rightarrow> int \<Rightarrow> (u64 \<times> byte list option) option" where
  "strtoull nptr base = map_option (\<lambda>(n, e). (word_of_int n, e)) (strtoll nptr base)"

definition atoi :: "byte list \<Rightarrow> int option" where
  "atoi s = do {
     (neg, p) \<leftarrow> parse_sign s;
     (n, q) \<leftarrow> parse_digits 32 57 10 0 p;
     Some (if neg then n * (-1) else n)
   }"

section \<open>Substring search\<close>

text \<open>
  The inner loop of \<^verbatim>\<open>strstr\<close> compares \<^verbatim>\<open>*hay == *pin\<close> and does not
  stop at the terminator; its result is the character \<^verbatim>\<open>*pin\<close> it stopped at.
\<close>

fun strstr_match :: "byte list \<Rightarrow> byte list \<Rightarrow> byte option" where
  "strstr_match (h # hay) (p # pin) = (if h = p then strstr_match hay pin else Some p)"
| "strstr_match _ _ = None"

fun strstr_from :: "byte list \<Rightarrow> byte list \<Rightarrow> byte list option option" where
  "strstr_from [] needle = None"
| "strstr_from (h # hay) needle =
     (if h = 0 then Some None
      else case strstr_match (h # hay) needle of
             None \<Rightarrow> None
           | Some p \<Rightarrow> if p \<noteq> 0 then strstr_from hay needle else Some (Some (h # hay)))"

definition strstr :: "byte list option \<Rightarrow> byte list option \<Rightarrow> byte list option option" where
  "strstr haystack needle =
     (case (haystack, needle) of (Some h, Some n) \<Rightarrow> strstr_from h n | _ \<Rightarrow> Some None)"


section \<open>The optimised memory functions against their reference\<close>

lemma store_bytes_eq: "store_bytes m pos c k a = (if pos \<le> a \<and> a < pos + k then c else m a)"
  by (induction k arbitrary: m pos) auto

declare memset_head.simps [simp del]

lemma memset_head_eq:
  assumes "memset_head m pos c n = (m', pos', n')"
  shows "pos \<le> pos' \<and> pos' + n' = pos + n \<and> (pos' mod 8 = 0 \<or> n' = 0) \<and>
         m' = (\<lambda>a. if pos \<le> a \<and> a < pos' then c else m a)"
  using assms
proof (induction m pos c n rule: memset_head.induct)
  case (1 m pos c n)
  show ?case
  proof (cases "pos mod 8 \<noteq> 0 \<and> n > 0")
    case True
    with "1.prems" have "memset_head (m(pos := c)) (pos + 1) c (n - 1) = (m', pos', n')"
      by (simp add: memset_head.simps [of m pos c n])
    from "1.IH" [OF True this] True show ?thesis by (auto simp: fun_eq_iff)
  next
    case False
    with "1.prems" show ?thesis
      by (auto simp: memset_head.simps [of m pos c n] fun_eq_iff)
  qed
qed

lemma memset_value_bit:
  "bit (memset_value k c v) i =
     (i < 64 \<and> (if i < 8 * k then bit c (i mod 8) else bit v (i - 8 * k)))"
proof (induction k c v arbitrary: i rule: memset_value.induct)
  case (1 c v)
  then show ?case by (auto dest: bit_imp_le_length)
next
  case (2 k c v)
  consider "i < 8 * k" | "8 * k \<le> i" "i < 8 * Suc k" | "8 * Suc k \<le> i" by linarith
  then show ?case
  proof cases
    case 1
    then show ?thesis by (simp add: "2.IH")
  next
    case 2
    define j where "j = i - 8 * k"
    from 2 have "i = 8 * k + j" "j < 8" by (simp_all add: j_def)
    then show ?thesis by (auto simp: "2.IH" bit_or_iff bit_push_bit_iff bit_ucast_iff)
  next
    case 3
    then have "8 \<le> i - 8 * k" "i - 8 * k - 8 = i - 8 * Suc k" by arith+
    then have "bit (push_bit 8 v OR ucast c) (i - 8 * k) = (i - 8 * k < 64 \<and> bit v (i - 8 * Suc k))"
      using bit_imp_le_length [of c "i - 8 * k"]
      by (auto simp: bit_or_iff bit_push_bit_iff bit_ucast_iff)
    with 3 show ?thesis by (auto simp: "2.IH")
  qed
qed

lemma memset_value_byte: "k < 8 \<Longrightarrow> (ucast (drop_bit (8 * k) (memset_value 8 c 0)) :: byte) = c"
  by (rule bit_word_eqI) (auto simp: bit_ucast_iff bit_drop_bit_eq memset_value_bit)

lemma memset_words_eq:
  assumes "\<And>k. k < 8 \<Longrightarrow> (ucast (drop_bit (8 * k) v) :: byte) = c"
  shows "memset_words m a v k x = (if a \<le> x \<and> x < a + 8 * k then c else m x)"
  using assms
  by (induction k arbitrary: m a) (auto simp: store64_def)

lemma memset_correct_lemma:
  "memset m dst c n = (\<lambda>a. if dst \<le> a \<and> a < dst + n then c else m a)"
proof -
  obtain m1 pos n1 where h: "memset_head m dst c n = (m1, pos, n1)"
    by (cases "memset_head m dst c n")
  note hd = memset_head_eq [OF h]
  have w: "memset_words m1 pos (memset_value 8 c 0) k x
           = (if pos \<le> x \<and> x < pos + 8 * k then c else m1 x)" for k x
    by (rule memset_words_eq) (rule memset_value_byte)
  have n1: "n1 = 8 * (n1 div 8) + n1 mod 8" by simp
  show ?thesis
    using hd n1 by (auto simp: memset_def h w store_bytes_eq Let_def fun_eq_iff mult.commute)
qed

lemma move_up_eq:
  "d < s \<Longrightarrow> move_up m d s n a = (if d \<le> a \<and> a < d + n then m (s + (a - d)) else m a)"
proof (induction n arbitrary: m d s)
  case 0
  then show ?case by auto
next
  case (Suc n)
  have "Suc d \<le> a \<Longrightarrow> Suc s + (a - Suc d) = s + (a - d)" by simp
  with Suc show ?case by auto
qed

lemma move_down_eq:
  "s \<le> d \<Longrightarrow> move_down m (d + n) (s + n) n a =
     (if d \<le> a \<and> a < d + n then m (s + (a - d)) else m a)"
proof (induction n arbitrary: m)
  case 0
  then show ?case by auto
next
  case (Suc n)
  then show ?case by (auto simp: less_Suc_eq)
qed

section \<open>C strings\<close>

text \<open>The characters of a C string: everything before the terminator.\<close>

definition cstr :: "byte list \<Rightarrow> byte list" where
  "cstr s = takeWhile (\<lambda>c. c \<noteq> 0) s"

lemma cstr_simps [simp]:
  "cstr [] = []"
  "cstr (c # s) = (if c = 0 then [] else c # cstr s)"
  by (simp_all add: cstr_def)

lemma strlen_cstr: "0 \<in> set s \<Longrightarrow> strlen s = Some (length (cstr s))"
  by (induction s) auto

lemma strnlen_cstr: "0 \<in> set s \<or> m \<le> length s \<Longrightarrow> strnlen s m = Some (min m (length (cstr s)))"
  by (induction s m rule: strnlen.induct) auto


lemma strcmp_terminated:
  "0 \<in> set s1 \<Longrightarrow> 0 \<in> set s2 \<Longrightarrow>
     \<exists>r. strcmp s1 s2 = Some r \<and> (r = 0 \<longleftrightarrow> cstr s1 = cstr s2)"
  by (induction s1 s2 rule: strcmp.induct)
     (auto split: if_splits simp: unsigned_eq_0_iff simp flip: word_uint_eq_iff)

lemma zero_fill_eq:
  "n \<le> length dst \<Longrightarrow> zero_fill dst n = Some (replicate n 0 @ drop n dst)"
  by (induction dst n rule: zero_fill.induct) auto

text \<open>What \<^verbatim>\<open>strncpy\<close> leaves in the first \<open>n\<close> bytes: the string cut to \<open>n\<close> bytes, padded with zeros.\<close>

lemma strncpy_eq:
  assumes "0 \<in> set src \<or> n \<le> length src" and "n \<le> length dst"
  shows "strncpy dst src n =
     Some (take n (cstr src) @ replicate (n - length (cstr src)) 0 @ drop n dst)"
  using assms
  by (induction dst src n rule: strncpy.induct) (auto simp: zero_fill_eq)

lemma cstr_no_zero: "0 \<notin> set (cstr s)"
  by (induction s) auto

lemma cstr_append: "0 \<notin> set xs \<Longrightarrow> cstr (xs @ ys) = xs @ cstr ys"
  by (induction xs) auto

lemma cstr_replicate_0: "0 < k \<Longrightarrow> cstr (replicate k 0 @ ys) = []"
  by (cases k) auto

lemma safestrcpy_lemma:
  assumes src: "0 \<in> set src" and n: "0 < n" "n \<le> length dst"
  shows "\<exists>r. safestrcpy dst src n = Some r \<and> length r = length dst \<and>
             cstr r = take (n - 1) (cstr src) \<and> drop n r = drop n dst"
proof -
  let ?l = "length (cstr src)"
  let ?r = "take n (cstr src) @ replicate (n - ?l) 0 @ drop n dst"
  have r: "strncpy dst src n = Some ?r" using src n by (simp add: strncpy_eq)
  have len: "length ?r = length dst" using n by simp
  have nz: "0 \<notin> set (take k (cstr src))" for k
    using cstr_no_zero by (metis in_set_takeD)
  have cut: "?r[n - 1 := 0] = take (n - 1) (cstr src) @ replicate (n - min (n - 1) ?l) 0 @ drop n dst"
  proof (cases "n \<le> ?l")
    case True
    then have "take n (cstr src) = take (n - 1) (cstr src) @ [cstr src ! (n - 1)]"
      using n by (metis Suc_diff_1 Suc_le_lessD take_Suc_conv_app_nth)
    moreover have "n - min (n - 1) ?l = 1" using True n by arith
    ultimately show ?thesis using True n by (simp add: list_update_append)
  next
    case False
    then have "take n (cstr src) = cstr src" "take (n - 1) (cstr src) = cstr src"
      by (simp_all)
    moreover have "(replicate (n - ?l) 0)[n - 1 - ?l := 0] = replicate (n - ?l) (0::byte)"
      by (metis list_update_id list_update_beyond nth_replicate length_replicate linorder_not_less)
    moreover have "min (n - 1) ?l = ?l" using False by simp
    ultimately show ?thesis using False n by (auto simp: list_update_append)
  qed
  have "cstr (?r[n - 1 := 0]) = take (n - 1) (cstr src)"
    unfolding cut using n nz by (simp add: cstr_append cstr_replicate_0)
  moreover have "drop n (?r[n - 1 := 0]) = drop n dst"
    using n by (simp add: drop_update_cancel)
  ultimately show ?thesis
    using n len by (auto simp: safestrcpy_def r)
qed

text \<open>
  \<^verbatim>\<open>strstr\<close>: a non-null result is a suffix that starts with the needle, and
  a null result means that no suffix does.
\<close>

lemma strstr_match_prefix:
  assumes "strstr_match hay pin = Some 0"
  shows "\<exists>rest. hay = cstr pin @ rest"
  using assms
proof (induction hay pin rule: strstr_match.induct)
  case (1 h hay p pin)
  show ?case
  proof (cases "h = p")
    case True
    with 1 obtain rest where "hay = cstr pin @ rest" by auto
    with True show ?thesis by (cases "p = 0") auto
  next
    case False
    with "1.prems" show ?thesis by simp
  qed
qed auto

lemma strstr_sound_lemma:
  "strstr_from hay needle = Some (Some p) \<Longrightarrow>
     \<exists>pre rest. hay = pre @ p \<and> p = cstr needle @ rest \<and> 0 \<notin> set pre"
proof (induction hay)
  case Nil
  then show ?case by simp
next
  case (Cons h hay)
  from Cons.prems have h: "h \<noteq> 0" by (auto split: if_splits)
  from Cons.prems h obtain q where q: "strstr_match (h # hay) needle = Some q"
    by (cases "strstr_match (h # hay) needle") auto
  show ?case
  proof (cases "q = 0")
    case True
    with Cons.prems h q have "p = h # hay" by simp
    moreover from q True obtain rest where "h # hay = cstr needle @ rest"
      using strstr_match_prefix by blast
    ultimately show ?thesis by auto
  next
    case False
    with Cons.prems h q have "strstr_from hay needle = Some (Some p)" by simp
    with Cons.IH obtain pre rest where "hay = pre @ p" "p = cstr needle @ rest" "0 \<notin> set pre"
      by blast
    with h have "h # hay = (h # pre) @ p \<and> p = cstr needle @ rest \<and> 0 \<notin> set (h # pre)"
      by simp
    then show ?thesis by blast
  qed
qed

lemma strstr_match_same: "strstr_match (xs @ [0]) (xs @ [0]) = None"
  by (induction xs) auto

section \<open>Properties\<close>

text \<open>
  C9: \<^verbatim>\<open>memset\<close>, which fills unaligned head bytes, then whole aligned
  64-bit words, then the tail, is the byte-wise fill of exactly the \<open>n\<close> bytes at
  \<open>dst\<close>, for every alignment and length.
\<close>

theorem memset_is_fill:
  "memset m dst c n = (\<lambda>a. if dst \<le> a \<and> a < dst + n then c else m a)"
  by (rule memset_correct_lemma)

text \<open>
  C10: \<^verbatim>\<open>memmove\<close> copies the \<open>n\<close> source bytes as they were before the
  call, for every overlap of the two ranges, and changes nothing else;
  \<^verbatim>\<open>memcpy\<close> inherits this because it is \<^verbatim>\<open>memmove\<close>.
\<close>

theorem memmove_copies_overlapping:
  "memmove m dst src n = (\<lambda>a. if dst \<le> a \<and> a < dst + n then m (src + (a - dst)) else m a)
   \<and> memcpy m dst src n = memmove m dst src n"
proof
  show "memmove m dst src n =
          (\<lambda>a. if dst \<le> a \<and> a < dst + n then m (src + (a - dst)) else m a)"
    by (rule ext) (auto simp: memmove_def move_up_eq move_down_eq)
qed (simp add: memcpy_def)

text \<open>
  \<^verbatim>\<open>safestrcpy\<close> of a terminated source into an object of at least
  \<open>n > 0\<close> bytes stays inside of both objects, keeps the bytes after the first
  \<open>n\<close>, and leaves a terminated string that is the source cut to \<open>n - 1\<close> characters.
\<close>

theorem safestrcpy_terminates_string:
  assumes "0 \<in> set src" and "0 < n" and "n \<le> length dst"
  shows "\<exists>r. safestrcpy dst src n = Some r \<and> length r = length dst \<and>
             cstr r = take (n - 1) (cstr src) \<and> drop n r = drop n dst"
  by (rule safestrcpy_lemma [OF assms])

theorem safestrcpy_terminates_string_witness:
  "\<exists>r. safestrcpy [9, 9, 9, 9] [65, 66, 67, 0] 3 = Some r \<and> length r = length [9, 9, 9, 9 :: byte] \<and>
        cstr r = [65, 66] \<and> drop 3 r = [9]"
  using safestrcpy_terminates_string [of "[65, 66, 67, 0]" 3 "[9, 9, 9, 9]"] by simp

text \<open>
  C11: \<^verbatim>\<open>strstr\<close> is sound, a returned pointer starts with the needle and lies
  before the end of the haystack string, but it is not memory safe: the match loop
  does not test for the terminator, so searching a string for itself (for any
  non-empty string at the end of its object) reads past both objects.
\<close>

theorem strstr_sound_and_overrun:
  "(\<forall>hay needle p. strstr (Some hay) (Some needle) = Some (Some p) \<longrightarrow>
      (\<exists>pre rest. hay = pre @ p \<and> p = cstr needle @ rest \<and> 0 \<notin> set pre))
   \<and> (\<forall>s. s \<noteq> [] \<and> 0 \<notin> set s \<longrightarrow> strstr (Some (s @ [0])) (Some (s @ [0])) = None)"
proof (intro conjI allI impI)
  fix hay needle p
  assume "strstr (Some hay) (Some needle) = Some (Some p)"
  then show "\<exists>pre rest. hay = pre @ p \<and> p = cstr needle @ rest \<and> 0 \<notin> set pre"
    by (intro strstr_sound_lemma) (simp add: strstr_def)
next
  fix s :: "byte list"
  assume s: "s \<noteq> [] \<and> 0 \<notin> set s"
  then obtain h t where "s = h # t" "h \<noteq> 0" by (cases s) auto
  with strstr_match_same [of s] show "strstr (Some (s @ [0])) (Some (s @ [0])) = None" by (simp add: strstr_def)
qed

theorem strstr_sound_and_overrun_witness:
  "strstr (Some [97, 98, 99, 0]) (Some [98, 0]) = Some (Some [98, 99, 0]) \<and>
   (\<exists>pre rest. [97, 98, 99, 0::byte] = pre @ [98, 99, 0] \<and> [98, 99, 0] = cstr [98, 0] @ rest \<and> 0 \<notin> set pre)
   \<and> strstr (Some [98, 0]) (Some [98, 0]) = None"
proof (intro conjI)
  show found: "strstr (Some [97, 98, 99, 0]) (Some [98, 0]) = Some (Some [98, 99, 0])" by (simp add: strstr_def)
  show "\<exists>pre rest. [97, 98, 99, 0::byte] = pre @ [98, 99, 0] \<and> [98, 99, 0] = cstr [98, 0] @ rest
          \<and> 0 \<notin> set pre"
    by (rule strstr_sound_and_overrun [THEN conjunct1, rule_format, OF found])
  have "strstr (Some ([98] @ [0])) (Some ([98] @ [0])) = None"
    by (rule strstr_sound_and_overrun [THEN conjunct2, rule_format]) simp
  then show "strstr (Some [98, 0]) (Some [98, 0]) = None" by simp
qed

end
