(* ===== verification/Bitmap.thy ===== *)
theory Bitmap
  imports Vimix_Prelude
begin

text \<open>
  \<^verbatim>\<open>kernel/lib/bitmap.c\<close> and \<^verbatim>\<open>kernel/lib/bitmap.h\<close>: a bitmap as an
  array of 64-bit words, and its client in \<^verbatim>\<open>kernel/kernel/proc.c\<close> and
  \<^verbatim>\<open>process.c\<close>, the allocator of kernel stack addresses.

  The interface that clients rely on is the locale \<open>bit_store\<close> (single bits) and its
  extension \<open>bit_finder\<close> (search for a clear bit); the properties of an allocator
  that searches for a clear bit and sets it are proved once, inside of the locale.
\<close>

unbundle bit_operations_syntax

section \<open>The interface\<close>

locale bit_store =
  fixes test :: "nat \<Rightarrow> 's \<Rightarrow> bool"
    and setb :: "nat \<Rightarrow> 's \<Rightarrow> 's"
    and clearb :: "nat \<Rightarrow> 's \<Rightarrow> 's"
    and cap :: "'s \<Rightarrow> nat"
  assumes test_setb: "i < cap s \<Longrightarrow> j < cap s \<Longrightarrow> test j (setb i s) = (j = i \<or> test j s)"
    and test_clearb: "i < cap s \<Longrightarrow> j < cap s \<Longrightarrow> test j (clearb i s) = (j \<noteq> i \<and> test j s)"
    and cap_setb: "cap (setb i s) = cap s"
    and cap_clearb: "cap (clearb i s) = cap s"
begin

definition used :: "'s \<Rightarrow> nat set" where
  "used s = {i. i < cap s \<and> test i s}"

lemma used_setb: "i < cap s \<Longrightarrow> used (setb i s) = insert i (used s)"
  by (auto simp: used_def test_setb cap_setb)

lemma used_clearb: "i < cap s \<Longrightarrow> used (clearb i s) = used s - {i}"
  by (auto simp: used_def test_clearb cap_clearb)

lemma finite_used: "finite (used s)"
  by (simp add: used_def)

lemma clear_after_set: "i < cap s \<Longrightarrow> i \<notin> used s \<Longrightarrow> used (clearb i (setb i s)) = used s"
  by (simp add: used_clearb used_setb cap_setb)

end

locale bit_finder = bit_store test setb clearb cap
  for test :: "nat \<Rightarrow> 's \<Rightarrow> bool"
    and setb :: "nat \<Rightarrow> 's \<Rightarrow> 's"
    and clearb :: "nat \<Rightarrow> 's \<Rightarrow> 's"
    and cap :: "'s \<Rightarrow> nat" +
  fixes find_zero :: "'s \<Rightarrow> nat \<Rightarrow> nat option"
  assumes find_zero_Some: "n \<le> cap s \<Longrightarrow> find_zero s n = Some i \<Longrightarrow> i < n \<and> \<not> test i s"
    and find_zero_None: "n \<le> cap s \<Longrightarrow> find_zero s n = None \<Longrightarrow> \<forall>i<n. test i s"
begin

definition alloc :: "'s \<Rightarrow> nat \<Rightarrow> (nat \<times> 's) option" where
  "alloc s n = map_option (\<lambda>i. (i, setb i s)) (find_zero s n)"

lemma alloc_fresh:
  "n \<le> cap s \<Longrightarrow> alloc s n = Some (i, s') \<Longrightarrow>
     i < n \<and> i \<notin> used s \<and> used s' = insert i (used s) \<and> cap s' = cap s"
  using find_zero_Some [of n s i] by (auto simp: alloc_def test_setb cap_setb used_def)

lemma alloc_full: "n \<le> cap s \<Longrightarrow> alloc s n = None \<longleftrightarrow> {..<n} \<subseteq> used s"
  using find_zero_Some [of n s] find_zero_None [of n s]
  by (cases "find_zero s n") (auto simp: alloc_def used_def)

lemma alloc_free_roundtrip:
  "n \<le> cap s \<Longrightarrow> alloc s n = Some (i, s') \<Longrightarrow> used (clearb i s') = used s"
  using alloc_fresh [of n s i s'] by (auto simp: used_clearb)

end

section \<open>Single bits\<close>

type_synonym bitmap_t = "u64 list"

definition BIT_MASK :: "nat \<Rightarrow> u64" where
  "BIT_MASK nr = push_bit (nr mod 64) 1"

definition BIT_WORD :: "nat \<Rightarrow> nat" where
  "BIT_WORD nr = nr div 64"

definition set_bit_at :: "nat \<Rightarrow> bitmap_t \<Rightarrow> bitmap_t" where
  "set_bit_at nr bm = bm[BIT_WORD nr := bm ! BIT_WORD nr OR BIT_MASK nr]"

definition clear_bit_at :: "nat \<Rightarrow> bitmap_t \<Rightarrow> bitmap_t" where
  "clear_bit_at nr bm = bm[BIT_WORD nr := bm ! BIT_WORD nr AND NOT (BIT_MASK nr)]"

definition change_bit_at :: "nat \<Rightarrow> bitmap_t \<Rightarrow> bitmap_t" where
  "change_bit_at nr bm = bm[BIT_WORD nr := bm ! BIT_WORD nr XOR BIT_MASK nr]"

definition test_bit_at :: "nat \<Rightarrow> bitmap_t \<Rightarrow> bool" where
  "test_bit_at nr bm \<longleftrightarrow> bm ! BIT_WORD nr AND BIT_MASK nr \<noteq> 0"

text \<open>
  \<open>kmalloc_ok\<close> says whether the slab allocator can serve the request; more than one
  page makes \<^verbatim>\<open>kmalloc\<close> panic. The memory is zeroed.
\<close>

definition BITS_TO_SIZET :: "u64 \<Rightarrow> u64" where
  "BITS_TO_SIZET n = (n + 64 - 1) div 64"

definition bitmap_alloc :: "bool \<Rightarrow> u32 \<Rightarrow> bitmap_t option option" where
  "bitmap_alloc kmalloc_ok nbits =
     (let words = unat (BITS_TO_SIZET (ucast nbits)) in
      if words * 8 > 4096 then None
      else Some (if kmalloc_ok then Some (replicate words 0) else None))"

section \<open>The search\<close>

text \<open>
  \<^verbatim>\<open>find_first_bit_of_value\<close>: the inner loop tests the low bits of one word, the
  outer loop skips words that cannot contain the value. \<open>nbits\<close> is decremented with
  wrap-around after the last, partial word, as in the code. Reading a word outside of the
  array is \<open>None\<close>.
\<close>

function scan_word :: "u64 \<Rightarrow> bool \<Rightarrow> nat \<Rightarrow> nat \<Rightarrow> nat option" where
  "scan_word w v b n =
     (if b < n then if test_bit_at b [w] = v then Some b else scan_word w v (b + 1) n
      else None)"
  by pat_completeness auto
termination
  by (relation "measure (\<lambda>(w, v, b, n). n - b)") auto

declare scan_word.simps [simp del]

function find_from :: "bitmap_t \<Rightarrow> bool \<Rightarrow> nat \<Rightarrow> nat \<Rightarrow> u64 \<Rightarrow> int option" where
  "find_from bm v i nwords nbits =
     (if i < nwords then
        if i < length bm then
          let word = bm ! i;
              none_found_mask = (if v then 0 else NOT 0)
          in if word = none_found_mask then find_from bm v (i + 1) nwords (nbits - 64)
             else case scan_word word v 0 (unat (min 64 nbits)) of
                    Some b \<Rightarrow> Some (int (b + 64 * i))
                  | None \<Rightarrow> find_from bm v (i + 1) nwords (nbits - 64)
        else None
      else Some (-1))"
  by pat_completeness auto
termination
  by (relation "measure (\<lambda>(bm, v, i, nwords, nbits). nwords - i)") auto

declare find_from.simps [simp del]

definition find_first_bit_of_value :: "bitmap_t \<Rightarrow> u64 \<Rightarrow> bool \<Rightarrow> int option" where
  "find_first_bit_of_value bm nbits v = find_from bm v 0 (unat (BITS_TO_SIZET nbits)) nbits"

definition find_first_zero_bit :: "bitmap_t \<Rightarrow> u64 \<Rightarrow> int option" where
  "find_first_zero_bit bm nbits = find_first_bit_of_value bm nbits False"

definition find_first_bit :: "bitmap_t \<Rightarrow> u64 \<Rightarrow> int option" where
  "find_first_bit bm nbits = find_first_bit_of_value bm nbits True"

section \<open>Kernel stack addresses\<close>

text \<open>
  \<^verbatim>\<open>kernel/mm/memlayout.h\<close> and the allocator in \<^verbatim>\<open>proc.c\<close>/\<^verbatim>\<open>process.c\<close>;
  one page of stack and one unmapped guard page per process, \<^verbatim>\<open>MAX_PROCESSES\<close> = 1024.
\<close>

definition MAX_PROCESSES :: nat where
  "MAX_PROCESSES = 1024"

definition KSTACK_VA_END :: u64 where
  "KSTACK_VA_END = 0xFFFFFFFFFFFFF000"

definition KSTACK_VA_FROM_INDEX :: "u64 \<Rightarrow> u64" where
  "KSTACK_VA_FROM_INDEX idx = KSTACK_VA_END - (idx + 1) * (4096 + 4096)"

definition KSTACK_INDEX_FROM_VA :: "u64 \<Rightarrow> u64" where
  "KSTACK_INDEX_FROM_VA va = (KSTACK_VA_END - va) div (4096 + 4096) - 1"

text \<open>\<open>None\<close> is an out of bounds access, the address 0 is the failure return.\<close>

definition proc_get_free_kernel_stack_va :: "bitmap_t \<Rightarrow> (u64 \<times> bitmap_t) option" where
  "proc_get_free_kernel_stack_va in_use =
     (case find_first_zero_bit in_use (of_nat MAX_PROCESSES) of
        None \<Rightarrow> None
      | Some idx \<Rightarrow>
          if idx < 0 then Some (0, in_use)
          else Some (KSTACK_VA_FROM_INDEX (word_of_int idx), set_bit_at (nat idx) in_use))"

definition proc_free_kernel_stack :: "bitmap_t \<Rightarrow> u64 \<Rightarrow> bitmap_t" where
  "proc_free_kernel_stack in_use stack_va =
     clear_bit_at (unat (KSTACK_INDEX_FROM_VA stack_va)) in_use"

section \<open>Single bits: laws\<close>

lemma bit_BIT_MASK: "bit (BIT_MASK nr) k \<longleftrightarrow> k = nr mod 64"
  by (auto simp: BIT_MASK_def bit_simps)

lemma and_BIT_MASK: "w AND BIT_MASK nr \<noteq> 0 \<longleftrightarrow> bit w (nr mod 64)"
proof
  assume "w AND BIT_MASK nr \<noteq> 0"
  then obtain k where "bit (w AND BIT_MASK nr) k" using bit_word_eqI [of "w AND BIT_MASK nr" 0] by auto
  then show "bit w (nr mod 64)" by (auto simp: bit_and_iff bit_BIT_MASK)
next
  assume "bit w (nr mod 64)"
  then have "bit (w AND BIT_MASK nr) (nr mod 64)" by (simp add: bit_and_iff bit_BIT_MASK)
  then show "w AND BIT_MASK nr \<noteq> 0" by auto
qed

lemma test_bit_at_iff: "test_bit_at nr bm \<longleftrightarrow> bit (bm ! (nr div 64)) (nr mod 64)"
  by (simp add: test_bit_at_def and_BIT_MASK BIT_WORD_def)

lemma word_index_eq: "i div 64 = j div 64 \<Longrightarrow> i mod 64 = j mod 64 \<Longrightarrow> i = j" for i j :: nat
  by (metis div_mult_mod_eq)

lemma index_in_words: "i < 64 * length bm \<Longrightarrow> i div 64 < length bm"
  by (simp add: div_less_iff_less_mult mult.commute)

lemma bit_set_word: "bit (w OR BIT_MASK i) k \<longleftrightarrow> k = i mod 64 \<or> bit w k"
  by (auto simp: bit_or_iff bit_BIT_MASK)

lemma bit_clear_word: "k < 64 \<Longrightarrow> bit (w AND NOT (BIT_MASK i)) k \<longleftrightarrow> k \<noteq> i mod 64 \<and> bit w k"
  by (auto simp: bit_and_iff bit_not_iff bit_BIT_MASK)

lemma length_set_bit_at [simp]: "length (set_bit_at i bm) = length bm"
  by (simp add: set_bit_at_def)

lemma length_clear_bit_at [simp]: "length (clear_bit_at i bm) = length bm"
  by (simp add: clear_bit_at_def)

lemma test_set_bit_at:
  "i < 64 * length bm \<Longrightarrow> j < 64 * length bm \<Longrightarrow>
     test_bit_at j (set_bit_at i bm) = (j = i \<or> test_bit_at j bm)"
  by (auto simp: test_bit_at_iff set_bit_at_def BIT_WORD_def bit_set_word nth_list_update
      index_in_words dest: word_index_eq)

lemma test_clear_bit_at:
  "i < 64 * length bm \<Longrightarrow> j < 64 * length bm \<Longrightarrow>
     test_bit_at j (clear_bit_at i bm) = (j \<noteq> i \<and> test_bit_at j bm)"
  by (auto simp: test_bit_at_iff clear_bit_at_def BIT_WORD_def bit_clear_word nth_list_update
      index_in_words dest: word_index_eq)

section \<open>The search is the first index with the value\<close>

lemma scan_word_find: "n \<le> 64 \<Longrightarrow> scan_word w v b n = List.find (\<lambda>k. bit w k = v) [b..<n]"
proof (induction w v b n rule: scan_word.induct)
  case (1 w v b n)
  show ?case
    using 1 by (subst scan_word.simps) (auto simp: test_bit_at_iff upt_rec [of b n])
qed

lemma scan_word_skipped:
  fixes w :: u64
  shows "w = (if v then 0 else NOT 0) \<Longrightarrow> n \<le> 64 \<Longrightarrow> List.find (\<lambda>k. bit w k = v) [0..<n] = None"
  by (auto simp: find_None_iff)

lemma find_word:
  "List.find (\<lambda>k. test_bit_at k bm = v) [64 * i..<m + 64 * i] =
     map_option (\<lambda>b. b + 64 * i) (List.find (\<lambda>b. bit (bm ! i) b = v) [0..<m])" if "m \<le> 64"
  unfolding find_upt_shift
  by (rule arg_cong, rule find_cong_set) (use that in \<open>auto simp: test_bit_at_iff\<close>)

definition search_result :: "nat option \<Rightarrow> int" where
  "search_result r = (case r of None \<Rightarrow> -1 | Some k \<Rightarrow> int k)"

lemma search_result_simps [simp]:
  "search_result None = -1" "search_result (Some k) = int k"
  by (simp_all add: search_result_def)

lemma find_from_correct:
  assumes "N \<le> 64 * length bm" "N + 64 < 2 ^ 64" "nwords = (N + 63) div 64"
  shows "i \<le> nwords \<Longrightarrow> nbits = of_nat N - of_nat (64 * i) \<Longrightarrow>
     find_from bm v i nwords nbits =
       Some (search_result (List.find (\<lambda>k. test_bit_at k bm = v) [64 * i..<N]))"
proof (induction "nwords - i" arbitrary: i nbits)
  case 0
  then have "N \<le> 64 * i" using assms(3) by auto
  with 0 show ?case by (subst find_from.simps) auto
next
  case (Suc d)
  let ?P = "\<lambda>k. test_bit_at k bm = v"
  let ?m = "min 64 (N - 64 * i)"
  have i: "i < nwords" "64 * i < N" "i < length bm" using Suc.hyps(2) assms by auto
  have nb: "nbits = of_nat (N - 64 * i)" using Suc.prems i by (simp add: of_nat_diff)
  have unb: "unat nbits = N - 64 * i" using nb assms(2) by (simp add: unat_of_nat)
  have m: "unat (min 64 nbits) = ?m" using unb by (auto simp: min_def word_le_nat_alt)
  have rec: "find_from bm v (i + 1) nwords (nbits - 64) =
      Some (search_result (List.find ?P [64 * (i + 1)..<N]))"
    using Suc.hyps(2) i Suc.prems(2)
    by (intro Suc.hyps(1)) (auto simp: algebra_simps)
  have split: "List.find ?P [64 * i..<N] =
      (case List.find ?P [64 * i..<?m + 64 * i] of
         None \<Rightarrow> List.find ?P [64 * (i + 1)..<N] | r \<Rightarrow> r)"
  proof (cases "64 * (i + 1) \<le> N")
    case True
    then have "?m + 64 * i = 64 * (i + 1)" by auto
    then show ?thesis using find_upt_split [OF _ True, of "64 * i" ?P] by simp
  next
    case False
    then have "?m + 64 * i = N" using i by auto
    then show ?thesis using False by (auto split: option.splits)
  qed
  define f where "f = List.find (\<lambda>b. bit (bm ! i) b = v) [0..<?m]"
  have skipped: "f = None" if "bm ! i = (if v then 0 else NOT 0)"
    unfolding f_def by (rule scan_word_skipped [OF that]) simp
  have scan: "scan_word (bm ! i) v 0 ?m = f"
    unfolding f_def by (rule scan_word_find) simp
  have "List.find ?P [64 * i..<N] = (case map_option (\<lambda>b. b + 64 * i) f of
      None \<Rightarrow> List.find ?P [64 * (i + 1)..<N] | r \<Rightarrow> r)"
    unfolding split find_word [OF min.cobounded1] f_def ..
  moreover have "find_from bm v i nwords nbits =
      (case f of Some b \<Rightarrow> Some (int (b + 64 * i))
       | None \<Rightarrow> Some (search_result (List.find ?P [64 * (i + 1)..<N])))"
    unfolding find_from.simps [of bm v i] Let_def m scan rec
    using i skipped by (simp del: find_from.simps)
  ultimately show ?case by (simp split: option.split)
qed

lemma BITS_TO_SIZET_unat: "unat n + 64 < 2 ^ 64 \<Longrightarrow> unat (BITS_TO_SIZET n) = (unat n + 63) div 64"
proof -
  assume *: "unat n + 64 < 2 ^ 64"
  have "n + 64 - 1 = n + 63" by simp
  moreover have "unat (n + 63) = unat n + 63" using * by (subst unat_add_lem [THEN iffD1]) auto
  ultimately show ?thesis by (simp only: BITS_TO_SIZET_def unat_div) simp
qed

lemma find_first_bit_of_value_find:
  assumes "unat nbits \<le> 64 * length bm" "unat nbits + 64 < 2 ^ 64"
  shows "find_first_bit_of_value bm nbits v =
     Some (search_result (List.find (\<lambda>k. test_bit_at k bm = v) [0..<unat nbits]))"
  unfolding find_first_bit_of_value_def
  using find_from_correct [of "unat nbits" bm _ 0 nbits v] assms
  by (simp add: BITS_TO_SIZET_unat)

text \<open>The search as an allocator's interface: the index, or \<open>None\<close> for the result -1.\<close>

definition free_index :: "bitmap_t \<Rightarrow> nat \<Rightarrow> nat option" where
  "free_index bm n = (case find_first_zero_bit bm (of_nat n) of
     None \<Rightarrow> None | Some r \<Rightarrow> if r < 0 then None else Some (nat r))"

lemma find_first_zero_bit_find:
  assumes "n \<le> 64 * length bm" "n < 2 ^ 63"
  shows "find_first_zero_bit bm (of_nat n) =
     Some (search_result (List.find (\<lambda>k. \<not> test_bit_at k bm) [0..<n]))"
  using find_first_bit_of_value_find [of "of_nat n" bm False] assms
  by (simp add: find_first_zero_bit_def unat_of_nat)

lemma free_index_find:
  "n \<le> 64 * length bm \<Longrightarrow> n < 2 ^ 63 \<Longrightarrow>
     free_index bm n = List.find (\<lambda>k. \<not> test_bit_at k bm) [0..<n]"
  by (auto simp: free_index_def find_first_zero_bit_find search_result_def split: option.splits)

text \<open>
  The number of bits that the interface offers is limited to what the \<^verbatim>\<open>ssize_t\<close> result of
  the search can express.
\<close>

interpretation kbits: bit_finder test_bit_at set_bit_at clear_bit_at
    "\<lambda>bm. min (64 * length bm) (2 ^ 63 - 1)" free_index
  by unfold_locales
     (auto simp: test_set_bit_at test_clear_bit_at length_set_bit_at length_clear_bit_at
        free_index_find find_None_iff find_Some_iff)

lemma set_clear_bit_at:
  assumes "i < 64 * length bm" "\<not> test_bit_at i bm"
  shows "clear_bit_at i (set_bit_at i bm) = bm"
proof -
  have "(bm ! (i div 64) OR BIT_MASK i) AND NOT (BIT_MASK i) = bm ! (i div 64)"
    by (rule bit_word_eqI)
       (use assms(2) in \<open>auto simp: bit_and_iff bit_or_iff bit_not_iff bit_BIT_MASK test_bit_at_iff\<close>)
  then show ?thesis
    using index_in_words [OF assms(1)]
    by (simp add: set_bit_at_def clear_bit_at_def BIT_WORD_def)
qed

section \<open>Kernel stacks\<close>

lemma MAX_PROCESSES_less: "k < MAX_PROCESSES \<Longrightarrow> k < 1024"
  by (simp add: MAX_PROCESSES_def)

lemma MAX_PROCESSES_le: "MAX_PROCESSES < 2 ^ 63"
  by (simp add: MAX_PROCESSES_def)

lemma uint_kstack: "k < MAX_PROCESSES \<Longrightarrow>
  uint (KSTACK_VA_FROM_INDEX (of_nat k)) = 0xFFFFFFFFFFFFF000 - (int k + 1) * 8192"
proof -
  assume k: "k < MAX_PROCESSES"
  have "KSTACK_VA_FROM_INDEX (of_nat k) = word_of_int (0xFFFFFFFFFFFFF000 - (int k + 1) * 8192)"
    by (simp add: KSTACK_VA_FROM_INDEX_def KSTACK_VA_END_def)
  also have "uint \<dots> = 0xFFFFFFFFFFFFF000 - (int k + 1) * 8192"
    using MAX_PROCESSES_less [OF k] by (subst uint_word_of_int) simp
  finally show ?thesis .
qed

lemma kstack_index_va:
  "k < MAX_PROCESSES \<Longrightarrow> KSTACK_INDEX_FROM_VA (KSTACK_VA_FROM_INDEX (of_nat k)) = of_nat k"
proof -
  assume "k < MAX_PROCESSES"
  then have k: "k < 1024" by (rule MAX_PROCESSES_less)
  have "KSTACK_VA_END - KSTACK_VA_FROM_INDEX (of_nat k) = of_nat ((k + 1) * 8192)"
    by (simp add: KSTACK_VA_FROM_INDEX_def algebra_simps)
  moreover have "(of_nat ((k + 1) * 8192) :: u64) div 8192 = of_nat (k + 1)"
    using k by (simp add: word_arith_nat_div unat_of_nat del: of_nat_mult of_nat_add)
  ultimately show ?thesis by (simp add: KSTACK_INDEX_FROM_VA_def)
qed

text \<open>The addresses a bitmap hands out.\<close>

definition kstacks :: "bitmap_t \<Rightarrow> u64 set" where
  "kstacks bm = (\<lambda>k. KSTACK_VA_FROM_INDEX (of_nat k)) ` {k. k < MAX_PROCESSES \<and> test_bit_at k bm}"

lemma kstack_eq_iff:
  assumes "k < MAX_PROCESSES" "l < MAX_PROCESSES"
  shows "KSTACK_VA_FROM_INDEX (of_nat k) = KSTACK_VA_FROM_INDEX (of_nat l) \<longleftrightarrow> k = l"
  using assms by (auto dest!: arg_cong [where f = uint] simp: uint_kstack)

lemma kstack_inj: "inj_on (\<lambda>k. KSTACK_VA_FROM_INDEX (of_nat k)) {k. k < MAX_PROCESSES}"
  by (rule inj_onI) (simp add: kstack_eq_iff)

lemma get_free_kernel_stack_cases:
  assumes "MAX_PROCESSES \<le> 64 * length bm"
  obtains (full) "proc_get_free_kernel_stack_va bm = Some (0, bm)" "\<forall>k<MAX_PROCESSES. test_bit_at k bm"
  | (fresh) k where "k < MAX_PROCESSES" "\<not> test_bit_at k bm"
      "proc_get_free_kernel_stack_va bm = Some (KSTACK_VA_FROM_INDEX (of_nat k), set_bit_at k bm)"
proof (cases "List.find (\<lambda>k. \<not> test_bit_at k bm) [0..<MAX_PROCESSES]")
  case None
  then have "\<forall>k<MAX_PROCESSES. test_bit_at k bm" by (simp add: find_None_iff)
  with None show ?thesis
    using full find_first_zero_bit_find [of MAX_PROCESSES bm] assms MAX_PROCESSES_le
    by (simp add: proc_get_free_kernel_stack_va_def)
next
  case (Some k)
  then have "k < MAX_PROCESSES" "\<not> test_bit_at k bm" by (auto simp: find_Some_iff)
  with Some show ?thesis
    using fresh [of k] find_first_zero_bit_find [of MAX_PROCESSES bm] assms MAX_PROCESSES_le
    by (simp add: proc_get_free_kernel_stack_va_def)
qed

lemma kstacks_set: "MAX_PROCESSES \<le> 64 * length bm \<Longrightarrow> k < MAX_PROCESSES \<Longrightarrow>
  kstacks (set_bit_at k bm) = insert (KSTACK_VA_FROM_INDEX (of_nat k)) (kstacks bm)"
  by (auto simp: kstacks_def test_set_bit_at)

lemma kstacks_clear: "MAX_PROCESSES \<le> 64 * length bm \<Longrightarrow> k < MAX_PROCESSES \<Longrightarrow>
  kstacks (clear_bit_at k bm) = kstacks bm - {KSTACK_VA_FROM_INDEX (of_nat k)}"
  by (auto simp: kstacks_def test_clear_bit_at kstack_eq_iff)

lemma unat_of_nat_max: "k < MAX_PROCESSES \<Longrightarrow> unat (of_nat k :: u64) = k"
  by (simp add: unat_of_nat MAX_PROCESSES_def)

lemma free_kernel_stack_index:
  "k < MAX_PROCESSES \<Longrightarrow> proc_free_kernel_stack bm (KSTACK_VA_FROM_INDEX (of_nat k)) = clear_bit_at k bm"
  by (simp add: proc_free_kernel_stack_def kstack_index_va unat_of_nat_max)

text \<open>
  The runs of the allocator: it starts with the cleared bitmap of \<^verbatim>\<open>proc_init\<close>; a
  process gets a stack address or, when it exits, gives the address it holds back. The set
  holds the addresses of the live processes.
\<close>

inductive kstack_run :: "bitmap_t \<Rightarrow> u64 set \<Rightarrow> bool" where
  kstack_init: "bitmap_alloc True (of_nat MAX_PROCESSES) = Some (Some bm) \<Longrightarrow> kstack_run bm {}"
| kstack_get: "kstack_run bm live \<Longrightarrow> proc_get_free_kernel_stack_va bm = Some (va, bm') \<Longrightarrow>
    kstack_run bm' (if va = 0 then live else insert va live)"
| kstack_free: "kstack_run bm live \<Longrightarrow> va \<in> live \<Longrightarrow>
    kstack_run (proc_free_kernel_stack bm va) (live - {va})"

lemma kstack_not_null: "k < MAX_PROCESSES \<Longrightarrow> KSTACK_VA_FROM_INDEX (of_nat k) \<noteq> 0"
  using uint_kstack [of k] MAX_PROCESSES_less [of k] by auto

lemma kstack_run_inv: "kstack_run bm live \<Longrightarrow> MAX_PROCESSES \<le> 64 * length bm \<and> live = kstacks bm"
proof (induction rule: kstack_run.induct)
  case (kstack_init bm)
  then have "bm = replicate 16 0" by (simp add: bitmap_alloc_def BITS_TO_SIZET_def MAX_PROCESSES_def)
  moreover from this have "\<not> test_bit_at k bm" if "k < MAX_PROCESSES" for k
    using MAX_PROCESSES_less [OF that] by (simp add: test_bit_at_iff index_in_words)
  ultimately show ?case by (auto simp: kstacks_def MAX_PROCESSES_def)
next
  case (kstack_get bm live va bm')
  then have len: "MAX_PROCESSES \<le> 64 * length bm" and live: "live = kstacks bm" by auto
  show ?case
    using len by (cases rule: get_free_kernel_stack_cases)
      (use kstack_get.hyps len live in \<open>auto simp: kstacks_set kstack_not_null\<close>)
next
  case (kstack_free bm live va)
  then obtain k where "k < MAX_PROCESSES" "va = KSTACK_VA_FROM_INDEX (of_nat k)"
    by (auto simp: kstacks_def)
  with kstack_free show ?case
    by (simp add: free_kernel_stack_index kstacks_clear)
qed

lemma kstacks_apart:
  assumes "va \<in> kstacks bm" "va' \<in> kstacks bm" "va \<noteq> va'"
  shows "\<bar>uint va - uint va'\<bar> \<ge> 8192"
  using assms kstack_eq_iff by (auto simp: kstacks_def uint_kstack)

lemma kstacks_full: "card (kstacks bm) = MAX_PROCESSES \<longleftrightarrow> (\<forall>k<MAX_PROCESSES. test_bit_at k bm)"
proof -
  let ?T = "{k. k < MAX_PROCESSES \<and> test_bit_at k bm}"
  have "card (kstacks bm) = card ?T"
    unfolding kstacks_def by (rule card_image) (rule inj_on_subset [OF kstack_inj], auto)
  moreover have "card ?T = card {k. k < MAX_PROCESSES} \<longleftrightarrow> ?T = {k. k < MAX_PROCESSES}"
    by (rule iffI, rule card_subset_eq, rule finite_Collect_less_nat, blast, assumption, erule arg_cong)
  moreover have "?T = {k. k < MAX_PROCESSES} \<longleftrightarrow> (\<forall>k<MAX_PROCESSES. test_bit_at k bm)" by blast
  ultimately show ?thesis by simp
qed

section \<open>Properties\<close>

text \<open>
  C12: \<^verbatim>\<open>find_first_bit_of_value\<close> on a bitmap that holds \<open>nbits\<close> bits never reads
  outside of the array and returns the smallest index below \<open>nbits\<close> whose bit has the
  searched value, or -1 exactly when there is none (the partial last word included).
\<close>

theorem find_first_bit_of_value_first:
  assumes "unat nbits \<le> 64 * length bm" "unat nbits + 64 < 2 ^ 64"
  shows "\<exists>r. find_first_bit_of_value bm nbits v = Some r \<and>
     (if r = -1 then \<forall>k<unat nbits. test_bit_at k bm \<noteq> v
      else 0 \<le> r \<and> nat r < unat nbits \<and> test_bit_at (nat r) bm = v \<and>
           (\<forall>k<nat r. test_bit_at k bm \<noteq> v))"
proof (cases "List.find (\<lambda>k. test_bit_at k bm = v) [0..<unat nbits]")
  case None
  then have "\<forall>k<unat nbits. test_bit_at k bm \<noteq> v" by (simp add: find_None_iff)
  then show ?thesis using find_first_bit_of_value_find [OF assms, of v] None by simp
next
  case (Some k)
  then have "k < unat nbits \<and> test_bit_at k bm = v \<and> (\<forall>j<k. test_bit_at j bm \<noteq> v)"
    by (auto simp: find_Some_iff)
  then show ?thesis using find_first_bit_of_value_find [OF assms, of v] Some by simp
qed

theorem find_first_bit_of_value_first_witness:
  "\<exists>r. find_first_bit_of_value [NOT 0, 7] 70 False = Some r \<and>
     (if r = -1 then \<forall>k<unat (70 :: u64). test_bit_at k [NOT 0, 7] \<noteq> False
      else 0 \<le> r \<and> nat r < unat (70 :: u64) \<and> test_bit_at (nat r) [NOT 0, 7] = False \<and>
           (\<forall>k<nat r. test_bit_at k [NOT 0, 7] \<noteq> False))"
  by (rule find_first_bit_of_value_first) simp_all

text \<open>
  C13: In every run of the kernel stack allocator, from the cleared bitmap and with stacks
  taken and given back in any order, the next request returns 0 exactly when all
  \<^verbatim>\<open>MAX_PROCESSES\<close> stacks are live; otherwise it returns an address that is not live, at
  least a stack page and a guard page away from every live stack, and giving it back restores
  the bitmap.
\<close>

theorem kernel_stacks_disjoint:
  assumes "kstack_run bm live"
  shows "\<exists>va bm'. proc_get_free_kernel_stack_va bm = Some (va, bm') \<and>
     (va = 0 \<longleftrightarrow> card live = MAX_PROCESSES) \<and>
     (va \<noteq> 0 \<longrightarrow> va \<notin> live \<and> proc_free_kernel_stack bm' va = bm \<and>
        (\<forall>va'\<in>live. \<bar>uint va - uint va'\<bar> \<ge> 8192))"
proof -
  have len: "MAX_PROCESSES \<le> 64 * length bm" and live: "live = kstacks bm"
    using kstack_run_inv [OF assms] by auto
  from len show ?thesis
  proof (cases rule: get_free_kernel_stack_cases)
    case full
    then show ?thesis by (simp add: live kstacks_full)
  next
    case (fresh k)
    let ?va = "KSTACK_VA_FROM_INDEX (of_nat k)"
    have new: "?va \<notin> kstacks bm" using fresh by (auto simp: kstacks_def kstack_eq_iff)
    have "\<bar>uint ?va - uint va'\<bar> \<ge> 8192" if "va' \<in> live" for va'
      using kstacks_apart [of ?va "set_bit_at k bm" va'] that new
      by (auto simp: live kstacks_set len fresh)
    moreover have "proc_free_kernel_stack (set_bit_at k bm) ?va = bm"
      using fresh len by (simp add: free_kernel_stack_index set_clear_bit_at)
    moreover have "card live \<noteq> MAX_PROCESSES" using fresh by (auto simp: live kstacks_full)
    ultimately show ?thesis using fresh new by (auto simp: live kstack_not_null)
  qed
qed

lemma kstack_run_start: "kstack_run (replicate 16 0) {}"
  by (rule kstack_init) (simp add: bitmap_alloc_def BITS_TO_SIZET_def MAX_PROCESSES_def)

theorem kernel_stacks_disjoint_witness:
  "\<exists>va bm'. proc_get_free_kernel_stack_va (replicate 16 0) = Some (va, bm') \<and>
     (va = 0 \<longleftrightarrow> card ({} :: u64 set) = MAX_PROCESSES) \<and>
     (va \<noteq> 0 \<longrightarrow> va \<notin> {} \<and> proc_free_kernel_stack bm' va = replicate 16 0 \<and>
        (\<forall>va'\<in>({} :: u64 set). \<bar>uint va - uint va'\<bar> \<ge> 8192))"
  by (rule kernel_stacks_disjoint) (rule kstack_run_start)

end
