(* ===== verification/Permission.thy ===== *)
theory Permission
  imports Vimix_Prelude
begin

text \<open>
  Access control: \<^verbatim>\<open>kernel/kernel/permission.c\<close> with the constants of
  \<^verbatim>\<open>stat.h\<close>, \<^verbatim>\<open>fcntl.h\<close> and \<^verbatim>\<open>permission.h\<close>, the credentials of
  \<^verbatim>\<open>process.h\<close>, the system calls of \<^verbatim>\<open>sys_cred.c\<close> that change them, the
  supplementary groups of \<^verbatim>\<open>sys_process.c\<close>, the set-user-id step of
  \<^verbatim>\<open>do_execv\<close>, and the guards of \<^verbatim>\<open>sys_file_meta.c\<close>.

  User and group ids are \<^verbatim>\<open>int32_t\<close> values that are only copied and compared; they are
  \<open>int\<close> here. A \<^verbatim>\<open>struct group_info\<close> is never changed once it is
  installed, so sharing it after a fork is not visible and the record holds its contents.
\<close>

section \<open>Constants\<close>

type_synonym mode_t = u32
type_synonym perm_mask_t = u32

definition S_IFMT :: mode_t where "S_IFMT = 0xF000"
definition S_IFREG :: mode_t where "S_IFREG = 0x8000"
definition S_IFBLK :: mode_t where "S_IFBLK = 0x6000"
definition S_IFDIR :: mode_t where "S_IFDIR = 0x4000"
definition S_IFCHR :: mode_t where "S_IFCHR = 0x2000"
definition S_IFIFO :: mode_t where "S_IFIFO = 0x1000"
definition S_ISUID :: mode_t where "S_ISUID = 0x800"
definition S_ISGID :: mode_t where "S_ISGID = 0x400"
definition S_ISVTX :: mode_t where "S_ISVTX = 0x200"
definition S_IRUSR :: mode_t where "S_IRUSR = 0x100"
definition S_IWUSR :: mode_t where "S_IWUSR = 0x80"
definition S_IXUSR :: mode_t where "S_IXUSR = 0x40"
definition S_IRGRP :: mode_t where "S_IRGRP = 0x20"
definition S_IWGRP :: mode_t where "S_IWGRP = 0x10"
definition S_IXGRP :: mode_t where "S_IXGRP = 0x8"
definition S_IROTH :: mode_t where "S_IROTH = 0x4"
definition S_IWOTH :: mode_t where "S_IWOTH = 0x2"
definition S_IXOTH :: mode_t where "S_IXOTH = 0x1"

definition S_ISREG :: "mode_t \<Rightarrow> bool" where "S_ISREG m \<longleftrightarrow> m AND S_IFMT = S_IFREG"
definition S_ISDIR :: "mode_t \<Rightarrow> bool" where "S_ISDIR m \<longleftrightarrow> m AND S_IFMT = S_IFDIR"
definition S_ISCHR :: "mode_t \<Rightarrow> bool" where "S_ISCHR m \<longleftrightarrow> m AND S_IFMT = S_IFCHR"
definition S_ISBLK :: "mode_t \<Rightarrow> bool" where "S_ISBLK m \<longleftrightarrow> m AND S_IFMT = S_IFBLK"
definition S_ISFIFO :: "mode_t \<Rightarrow> bool" where "S_ISFIFO m \<longleftrightarrow> m AND S_IFMT = S_IFIFO"

definition INODE_HAS_TYPE :: "mode_t \<Rightarrow> bool" where
  "INODE_HAS_TYPE i \<longleftrightarrow> S_ISREG i \<or> S_ISDIR i \<or> S_ISCHR i \<or> S_ISBLK i \<or> S_ISFIFO i"

definition O_RDONLY :: u32 where "O_RDONLY = 0x000"
definition O_WRONLY :: u32 where "O_WRONLY = 0x001"
definition O_RDWR :: u32 where "O_RDWR = 0x002"
definition O_CREAT :: u32 where "O_CREAT = 0x200"
definition O_TRUNC :: u32 where "O_TRUNC = 0x400"
definition O_APPEND :: u32 where "O_APPEND = 0x800"
definition O_EXEC :: u32 where "O_EXEC = 0x1000"

definition MAY_EXEC :: perm_mask_t where "MAY_EXEC = 0x1"
definition MAY_WRITE :: perm_mask_t where "MAY_WRITE = 0x2"
definition MAY_READ :: perm_mask_t where "MAY_READ = 0x4"
definition MAY_APPEND :: perm_mask_t where "MAY_APPEND = 0x8"
definition MAY_UNLINK :: perm_mask_t where "MAY_UNLINK = 0x80"

lemmas mode_defs =
  S_IFMT_def S_IFREG_def S_IFBLK_def S_IFDIR_def S_IFCHR_def S_IFIFO_def
  S_ISUID_def S_ISGID_def S_ISVTX_def S_IRUSR_def S_IWUSR_def S_IXUSR_def
  S_IRGRP_def S_IWGRP_def S_IXGRP_def S_IROTH_def S_IWOTH_def S_IXOTH_def

lemmas flag_defs =
  O_RDONLY_def O_WRONLY_def O_RDWR_def O_CREAT_def O_TRUNC_def O_APPEND_def O_EXEC_def
  MAY_EXEC_def MAY_WRITE_def MAY_READ_def MAY_APPEND_def MAY_UNLINK_def

section \<open>Credentials and inode attributes\<close>

record group_info =
  ngroups :: nat
  gids :: "int list"

record cred =
  c_uid :: int
  c_euid :: int
  c_suid :: int
  c_gid :: int
  c_egid :: int
  c_sgid :: int
  c_groups :: group_info

record inode_attr =
  i_mode :: mode_t
  i_uid :: int
  i_gid :: int

definition IS_SUPERUSER :: "cred \<Rightarrow> bool" where
  "IS_SUPERUSER c \<longleftrightarrow> c_euid c = 0"

definition IS_NOT_SUPERUSER :: "cred \<Rightarrow> bool" where
  "IS_NOT_SUPERUSER c \<longleftrightarrow> c_euid c \<noteq> 0"

section \<open>permission.c\<close>

definition perm_mask_from_open_flags :: "u32 \<Rightarrow> perm_mask_t" where
  "perm_mask_from_open_flags flags =
     (let pmask = 0;
          pmask = (if flags = O_RDONLY then pmask OR MAY_READ else pmask);
          pmask = (if flags AND O_WRONLY \<noteq> 0 then pmask OR MAY_WRITE else pmask);
          pmask = (if flags AND O_CREAT \<noteq> 0 then pmask OR MAY_WRITE else pmask);
          pmask = (if flags AND O_RDWR \<noteq> 0 then pmask OR (MAY_READ OR MAY_WRITE) else pmask);
          pmask = (if flags AND O_APPEND \<noteq> 0 then pmask OR MAY_APPEND else pmask);
          pmask = (if flags AND O_EXEC \<noteq> 0 then pmask OR MAY_EXEC else pmask)
      in pmask)"

text \<open>The argument is the \<^verbatim>\<open>flags\<close> field of the open file; the process is not used.\<close>

definition check_file_permission :: "u32 \<Rightarrow> perm_mask_t \<Rightarrow> syserr_t" where
  "check_file_permission f_flags pmask =
     (let needs_write_access = pmask AND MAY_WRITE \<noteq> 0 \<or> pmask AND MAY_APPEND \<noteq> 0;
          needs_read_access = pmask AND MAY_READ \<noteq> 0
      in if f_flags = O_RDONLY \<and> needs_write_access then - EBADF
         else if f_flags = O_WRONLY \<and> needs_read_access then - EBADF
         else 0)"

text \<open>The loop over the supplementary groups, from index \<open>i\<close>.\<close>

function in_groups_from :: "group_info \<Rightarrow> int \<Rightarrow> nat \<Rightarrow> bool" where
  "in_groups_from gi gid i =
     (if i < ngroups gi then if gids gi ! i = gid then True else in_groups_from gi gid (i + 1)
      else False)"
  by pat_completeness auto
termination
  by (relation "measure (\<lambda>(gi, gid, i). ngroups gi - i)") auto

declare in_groups_from.simps [simp del]

definition in_group :: "cred \<Rightarrow> int \<Rightarrow> bool" where
  "in_group c gid = (if gid = c_egid c then True else in_groups_from (c_groups c) gid 0)"

definition permission_check_read :: "cred \<Rightarrow> mode_t \<Rightarrow> int \<Rightarrow> int \<Rightarrow> bool" where
  "permission_check_read c mode uid gid =
     (if c_euid c = 0 then True
      else if c_euid c = uid then mode AND S_IRUSR \<noteq> 0
      else if in_group c gid then mode AND S_IRGRP \<noteq> 0
      else mode AND S_IROTH \<noteq> 0)"

definition permission_check_write :: "cred \<Rightarrow> mode_t \<Rightarrow> int \<Rightarrow> int \<Rightarrow> bool" where
  "permission_check_write c mode uid gid =
     (if c_euid c = 0 then True
      else if c_euid c = uid then mode AND S_IWUSR \<noteq> 0
      else if in_group c gid then mode AND S_IWGRP \<noteq> 0
      else mode AND S_IWOTH \<noteq> 0)"

definition permission_check_execute :: "cred \<Rightarrow> mode_t \<Rightarrow> int \<Rightarrow> int \<Rightarrow> bool" where
  "permission_check_execute c mode uid gid =
     (if c_euid c = uid then mode AND S_IXUSR \<noteq> 0
      else if in_group c gid then mode AND S_IXGRP \<noteq> 0
      else mode AND S_IXOTH \<noteq> 0)"

text \<open>The macro \<^verbatim>\<open>ASSERT_IS_FILE_OWNER\<close> returns from the function that uses it.\<close>

definition is_file_owner :: "cred \<Rightarrow> inode_attr \<Rightarrow> bool" where
  "is_file_owner c ip \<longleftrightarrow> \<not> (IS_NOT_SUPERUSER c \<and> c_euid c \<noteq> i_uid ip)"

definition check_inode_permission :: "cred \<Rightarrow> inode_attr \<Rightarrow> perm_mask_t \<Rightarrow> syserr_t" where
  "check_inode_permission c ip mask0 =
     (let mode = i_mode ip; uid = i_uid ip; gid = i_gid ip in
      if mask0 AND MAY_UNLINK \<noteq> 0 \<and> mode AND S_ISVTX \<noteq> 0
      then if is_file_owner c ip then 0 else - EPERM
      else
        let pmask = (if mask0 AND MAY_UNLINK \<noteq> 0 then mask0 OR MAY_WRITE else mask0) in
        if pmask AND MAY_READ \<noteq> 0 \<and> \<not> permission_check_read c mode uid gid then - EACCES
        else if (pmask AND MAY_WRITE \<noteq> 0 \<or> pmask AND MAY_APPEND \<noteq> 0) \<and>
                \<not> permission_check_write c mode uid gid then - EACCES
        else if pmask AND MAY_EXEC \<noteq> 0 \<and> \<not> permission_check_execute c mode uid gid
             then - EACCES
        else 0)"

text \<open>A dentry by its inode; \<open>None\<close> is an invalid dentry, which has no inode.\<close>

definition check_dentry_permission :: "cred \<Rightarrow> inode_attr option \<Rightarrow> perm_mask_t \<Rightarrow> syserr_t" where
  "check_dentry_permission c dp mask0 =
     (case dp of
        None \<Rightarrow> - ENOENT
      | Some ip \<Rightarrow>
          let mode = i_mode ip; uid = i_uid ip; gid = i_gid ip in
          if mask0 AND MAY_UNLINK \<noteq> 0 \<and> mode AND S_ISVTX \<noteq> 0
          then if is_file_owner c ip then 0 else - EPERM
          else
            let pmask = (if mask0 AND MAY_UNLINK \<noteq> 0 then mask0 OR MAY_WRITE else mask0) in
            if pmask AND MAY_READ \<noteq> 0 \<and> \<not> permission_check_read c mode uid gid then - EACCES
            else if (pmask AND MAY_WRITE \<noteq> 0 \<or> pmask AND MAY_APPEND \<noteq> 0) \<and>
                    \<not> permission_check_write c mode uid gid then - EACCES
            else if pmask AND MAY_EXEC \<noteq> 0 \<and> \<not> permission_check_execute c mode uid gid
                 then - EACCES
            else 0)"

section \<open>Credential system calls\<close>

text \<open>
  The argument registers of the trap frame are a function of the argument number;
  \<^verbatim>\<open>argint\<close> truncates to 32 bits.
\<close>

definition argint :: "(nat \<Rightarrow> u64) \<Rightarrow> nat \<Rightarrow> int" where
  "argint regs n = sint (ucast (regs n) :: u32)"

definition do_setuid :: "int \<Rightarrow> cred \<Rightarrow> syserr_t \<times> cred" where
  "do_setuid uid c =
     (if IS_SUPERUSER c then (0, c\<lparr>c_uid := uid, c_euid := uid, c_suid := uid\<rparr>)
      else if uid \<noteq> c_uid c \<and> uid \<noteq> c_euid c \<and> uid \<noteq> c_suid c then (- EPERM, c)
      else (0, c\<lparr>c_euid := uid\<rparr>))"

definition do_setgid :: "int \<Rightarrow> cred \<Rightarrow> syserr_t \<times> cred" where
  "do_setgid gid c =
     (if IS_SUPERUSER c then (0, c\<lparr>c_gid := gid, c_egid := gid, c_sgid := gid\<rparr>)
      else if gid \<noteq> c_gid c \<and> gid \<noteq> c_egid c \<and> gid \<noteq> c_sgid c then (- EPERM, c)
      else (0, c\<lparr>c_egid := gid\<rparr>))"

definition do_setresuid :: "int \<Rightarrow> int \<Rightarrow> int \<Rightarrow> cred \<Rightarrow> syserr_t \<times> cred" where
  "do_setresuid ruid euid suid c =
     (if IS_NOT_SUPERUSER c \<and>
         ((ruid \<noteq> -1 \<and> ruid \<noteq> c_uid c \<and> ruid \<noteq> c_euid c \<and> ruid \<noteq> c_suid c) \<or>
          (euid \<noteq> -1 \<and> euid \<noteq> c_uid c \<and> euid \<noteq> c_euid c \<and> euid \<noteq> c_suid c) \<or>
          (suid \<noteq> -1 \<and> suid \<noteq> c_uid c \<and> suid \<noteq> c_euid c \<and> suid \<noteq> c_suid c))
      then (- EPERM, c)
      else (let c1 = (if ruid \<noteq> -1 then c\<lparr>c_uid := ruid\<rparr> else c);
                c2 = (if euid \<noteq> -1 then c1\<lparr>c_euid := euid\<rparr> else c1);
                c3 = (if suid \<noteq> -1 then c2\<lparr>c_suid := suid\<rparr> else c2)
            in (0, c3)))"

definition do_setresgid :: "int \<Rightarrow> int \<Rightarrow> int \<Rightarrow> cred \<Rightarrow> syserr_t \<times> cred" where
  "do_setresgid rgid egid sgid c =
     (if IS_NOT_SUPERUSER c \<and>
         ((rgid \<noteq> -1 \<and> rgid \<noteq> c_gid c \<and> rgid \<noteq> c_egid c \<and> rgid \<noteq> c_sgid c) \<or>
          (egid \<noteq> -1 \<and> egid \<noteq> c_gid c \<and> egid \<noteq> c_egid c \<and> egid \<noteq> c_sgid c) \<or>
          (sgid \<noteq> -1 \<and> sgid \<noteq> c_gid c \<and> sgid \<noteq> c_egid c \<and> sgid \<noteq> c_sgid c))
      then (- EPERM, c)
      else (let c1 = (if rgid \<noteq> -1 then c\<lparr>c_gid := rgid\<rparr> else c);
                c2 = (if egid \<noteq> -1 then c1\<lparr>c_egid := egid\<rparr> else c1);
                c3 = (if sgid \<noteq> -1 then c2\<lparr>c_sgid := sgid\<rparr> else c2)
            in (0, c3)))"

definition sys_setuid :: "(nat \<Rightarrow> u64) \<Rightarrow> cred \<Rightarrow> syserr_t \<times> cred" where
  "sys_setuid regs c = do_setuid (argint regs 0) c"

definition sys_setgid :: "(nat \<Rightarrow> u64) \<Rightarrow> cred \<Rightarrow> syserr_t \<times> cred" where
  "sys_setgid regs c = do_setgid (argint regs 0) c"

definition sys_setresuid :: "(nat \<Rightarrow> u64) \<Rightarrow> cred \<Rightarrow> syserr_t \<times> cred" where
  "sys_setresuid regs c = do_setresuid (argint regs 0) (argint regs 1) (argint regs 2) c"

definition sys_setresgid :: "(nat \<Rightarrow> u64) \<Rightarrow> cred \<Rightarrow> syserr_t \<times> cred" where
  "sys_setresgid regs c = do_setresgid (argint regs 0) (argint regs 1) (argint regs 2) c"

text \<open>
  \<^verbatim>\<open>groups_alloc\<close>: two allocations, whose success is given; \<^verbatim>\<open>kmalloc\<close> panics
  for more than a page. \<^verbatim>\<open>size\<close> is converted to \<^verbatim>\<open>size_t\<close>, so that a
  negative one is a huge request. \<open>copied\<close> is the result of \<^verbatim>\<open>uvm_copy_in\<close>:
  the ids at the user address, or \<open>None\<close> when they cannot be read.
\<close>

definition NGROUPS_MAX :: int where "NGROUPS_MAX = 16"

definition groups_alloc :: "bool \<Rightarrow> bool \<Rightarrow> u64 \<Rightarrow> group_info option option" where
  "groups_alloc gi_ok gid_ok n =
     (if \<not> gi_ok then Some None
      else if n * 4 > 4096 then None
      else if \<not> gid_ok then Some None
      else Some (Some \<lparr>ngroups = unat n, gids = replicate (unat n) 0\<rparr>))"

definition do_getgroups :: "int \<Rightarrow> cred \<Rightarrow> (int list \<Rightarrow> bool) \<Rightarrow> syserr_t" where
  "do_getgroups sz c copy_out_ok =
     (if sz = 0 then int (ngroups (c_groups c))
      else if (word_of_int sz :: u64) < of_nat (ngroups (c_groups c)) then - EINVAL
      else if sz > NGROUPS_MAX then - EINVAL
      else if copy_out_ok (take (ngroups (c_groups c)) (gids (c_groups c)))
      then int (ngroups (c_groups c)) else - EFAULT)"

definition do_setgroups ::
  "bool \<Rightarrow> bool \<Rightarrow> (nat \<Rightarrow> int list option) \<Rightarrow> int \<Rightarrow> cred \<Rightarrow> (syserr_t \<times> cred) option" where
  "do_setgroups gi_ok gid_ok copied sz c =
     (if IS_NOT_SUPERUSER c then Some (- EPERM, c)
      else if sz = 0 then Some (int (ngroups (c_groups c)), c)
      else if sz > NGROUPS_MAX then Some (- EINVAL, c)
      else case groups_alloc gi_ok gid_ok (word_of_int sz) of
             None \<Rightarrow> None
           | Some None \<Rightarrow> Some (- ENOMEM, c)
           | Some (Some new_groups) \<Rightarrow>
               (case copied (nat sz) of
                  None \<Rightarrow> Some (- EFAULT, c)
                | Some ids \<Rightarrow> Some (0, c\<lparr>c_groups := new_groups\<lparr>gids := ids\<rparr>\<rparr>)))"

text \<open>The last step of \<^verbatim>\<open>do_execv\<close>, after everything that can fail.\<close>

definition exec_set_ids :: "inode_attr \<Rightarrow> cred \<Rightarrow> cred" where
  "exec_set_ids ip c =
     (let set_uid = S_ISUID AND i_mode ip \<noteq> 0;
          set_gid = S_ISGID AND i_mode ip \<noteq> 0;
          c1 = (if set_uid then c\<lparr>c_euid := i_uid ip, c_suid := i_uid ip\<rparr> else c)
      in if set_gid then c1\<lparr>c_egid := i_gid ip, c_sgid := i_gid ip\<rparr> else c1)"

section \<open>File metadata\<close>

text \<open>
  \<open>vfs\<close> is the operation of the file system, reached through the inode's table of
  function pointers.
\<close>

definition do_chmod :: "(mode_t \<Rightarrow> inode_attr \<Rightarrow> syserr_t \<times> inode_attr) \<Rightarrow>
    cred \<Rightarrow> mode_t \<Rightarrow> inode_attr \<Rightarrow> syserr_t \<times> inode_attr" where
  "do_chmod vfs c mode ip =
     (if \<not> is_file_owner c ip then (- EPERM, ip) else vfs (mode AND NOT S_IFMT) ip)"

definition do_chown :: "(int \<Rightarrow> int \<Rightarrow> inode_attr \<Rightarrow> syserr_t \<times> inode_attr) \<Rightarrow>
    cred \<Rightarrow> int \<Rightarrow> int \<Rightarrow> inode_attr \<Rightarrow> syserr_t \<times> inode_attr" where
  "do_chown vfs c uid gid ip =
     (if IS_NOT_SUPERUSER c then (- EPERM, ip) else vfs uid gid ip)"

definition sys_umask :: "(nat \<Rightarrow> u64) \<Rightarrow> mode_t \<Rightarrow> syserr_t \<times> mode_t" where
  "sys_umask regs umask = (uint umask, word_of_int (argint regs 0) AND 0x1FF)"

definition check_and_adjust_mode :: "mode_t \<Rightarrow> mode_t \<Rightarrow> bool \<times> mode_t" where
  "check_and_adjust_mode mode default_type =
     (let types = (if S_ISREG mode then 1 else 0) + (if S_ISDIR mode then 1 else 0)
                + (if S_ISCHR mode then 1 else 0) + (if S_ISBLK mode then 1 else 0)
                + (if S_ISFIFO mode then 1 else 0 :: nat)
      in if types > 1 then (False, mode)
         else (True, if mode AND S_IFMT = 0 then mode OR default_type else mode))"

section \<open>Reference semantics of the mode bits\<close>

lemma and_power_iff:
  fixes m :: u32
  shows "m AND 1 = 0 \<longleftrightarrow> \<not> bit m 0" "m AND 2 = 0 \<longleftrightarrow> \<not> bit m 1" "m AND 4 = 0 \<longleftrightarrow> \<not> bit m 2"
    "m AND 8 = 0 \<longleftrightarrow> \<not> bit m 3" "m AND 16 = 0 \<longleftrightarrow> \<not> bit m 4" "m AND 32 = 0 \<longleftrightarrow> \<not> bit m 5"
    "m AND 64 = 0 \<longleftrightarrow> \<not> bit m 6" "m AND 128 = 0 \<longleftrightarrow> \<not> bit m 7" "m AND 256 = 0 \<longleftrightarrow> \<not> bit m 8"
    "m AND 512 = 0 \<longleftrightarrow> \<not> bit m 9" "m AND 1024 = 0 \<longleftrightarrow> \<not> bit m 10"
    "m AND 2048 = 0 \<longleftrightarrow> \<not> bit m 11" "m AND 4096 = 0 \<longleftrightarrow> \<not> bit m 12"
  using and_exp_eq_0_iff_not_bit [of m 0] and_exp_eq_0_iff_not_bit [of m 1]
    and_exp_eq_0_iff_not_bit [of m 2] and_exp_eq_0_iff_not_bit [of m 3]
    and_exp_eq_0_iff_not_bit [of m 4] and_exp_eq_0_iff_not_bit [of m 5]
    and_exp_eq_0_iff_not_bit [of m 6] and_exp_eq_0_iff_not_bit [of m 7]
    and_exp_eq_0_iff_not_bit [of m 8] and_exp_eq_0_iff_not_bit [of m 9]
    and_exp_eq_0_iff_not_bit [of m 10] and_exp_eq_0_iff_not_bit [of m 11]
    and_exp_eq_0_iff_not_bit [of m 12]
  by simp_all

lemma in_groups_from_iff:
  "in_groups_from gi gid i \<longleftrightarrow> (\<exists>k. i \<le> k \<and> k < ngroups gi \<and> gids gi ! k = gid)"
proof (induction gi gid i rule: in_groups_from.induct)
  case (1 gi gid i)
  show ?case
  proof (cases "i < ngroups gi \<and> gids gi ! i \<noteq> gid")
    case True
    then have "in_groups_from gi gid i \<longleftrightarrow> in_groups_from gi gid (i + 1)"
      by (subst in_groups_from.simps) simp
    moreover have "i \<le> k \<longleftrightarrow> i + 1 \<le> k" if "gids gi ! k = gid" for k
      using True that by (cases "k = i") auto
    ultimately show ?thesis using True "1.IH" by auto
  next
    case False
    then show ?thesis by (subst in_groups_from.simps) auto
  qed
qed

text \<open>
  The permission triple (read 4, write 2, execute 1) that the mode grants to a process: the
  owner's, the group's or the others' bits, with reading and writing added for the superuser.
\<close>

definition member :: "cred \<Rightarrow> int \<Rightarrow> bool" where
  "member c gid \<longleftrightarrow> gid = c_egid c \<or> (\<exists>k<ngroups (c_groups c). gids (c_groups c) ! k = gid)"

definition granted :: "cred \<Rightarrow> inode_attr \<Rightarrow> u32" where
  "granted c ip =
     drop_bit (if c_euid c = i_uid ip then 6 else if member c (i_gid ip) then 3 else 0) (i_mode ip)
     OR (if c_euid c = 0 then 6 else 0)"

definition requested :: "perm_mask_t \<Rightarrow> u32" where
  "requested m = (m AND 7) OR (if m AND (MAY_APPEND OR MAY_UNLINK) \<noteq> 0 then 2 else 0)"

lemma in_group_member: "in_group c gid \<longleftrightarrow> member c gid"
  by (simp add: in_group_def member_def in_groups_from_iff)

lemma bit_7: "bit (7 :: u32) n \<longleftrightarrow> n < 3"
  using bit_mask_iff [where ?'a = "32 word", of 3 n] by (auto simp: mask_numeral)

lemma bit_2: "bit (2 :: u32) n \<longleftrightarrow> n = 1"
  using bit_exp_iff [where ?'a = "32 word", of 1 n] by auto

lemma bit_6: "bit (6 :: u32) n \<longleftrightarrow> n = 1 \<or> n = 2"
proof -
  have "(6 :: u32) = push_bit 1 (mask 2)" by (simp add: mask_numeral)
  then have "bit (6 :: u32) n \<longleftrightarrow> bit (push_bit 1 (mask 2) :: u32) n" by simp
  also have "\<dots> \<longleftrightarrow> n = 1 \<or> n = 2" unfolding bit_push_bit_iff bit_mask_iff by auto
  finally show ?thesis .
qed

lemma requested_bits:
  "bit (requested m) n \<longleftrightarrow>
     (n < 3 \<and> bit m n) \<or> (n = 1 \<and> (bit m 3 \<or> bit m 7))"
proof -
  have "m AND (MAY_APPEND OR MAY_UNLINK) = (m AND 8) OR (m AND 128)"
    by (simp add: flag_defs bit.conj_disj_distrib flip: bit.conj_disj_distrib)
  then have "m AND (MAY_APPEND OR MAY_UNLINK) \<noteq> 0 \<longleftrightarrow> bit m 3 \<or> bit m 7"
    by (auto simp: or_eq_0_iff and_power_iff)
  then show ?thesis
    unfolding requested_def bit_or_iff bit_and_iff bit_7 if_distrib [of "\<lambda>w. bit w n"] bit_2
    by auto
qed

lemma and_not_eq_0_iff:
  fixes a b :: u32
  shows "a AND NOT b = 0 \<longleftrightarrow> (\<forall>n. bit a n \<longrightarrow> bit b n)"
proof -
  have "n < 32" if "bit a n" for n using bit_imp_le_length [OF that] by simp
  then show ?thesis by (auto simp: bit_eq_iff [of "a AND NOT b"] bit_and_iff bit_not_iff)
qed

lemma requested_granted_iff:
  "requested m AND NOT g = 0 \<longleftrightarrow>
     (bit m 0 \<longrightarrow> bit g 0) \<and> (bit m 1 \<or> bit m 3 \<or> bit m 7 \<longrightarrow> bit g 1) \<and> (bit m 2 \<longrightarrow> bit g 2)"
  unfolding and_not_eq_0_iff requested_bits
  by (auto simp: less_Suc_eq numeral_3_eq_3 numeral_2_eq_2)

lemma check_dentry_is_check_inode:
  "check_dentry_permission c (Some ip) m = check_inode_permission c ip m"
  by (simp add: check_dentry_permission_def check_inode_permission_def)

lemma permission_check_bits:
  "permission_check_read c (i_mode ip) (i_uid ip) (i_gid ip) \<longleftrightarrow> bit (granted c ip) 2"
  "permission_check_write c (i_mode ip) (i_uid ip) (i_gid ip) \<longleftrightarrow> bit (granted c ip) 1"
  "permission_check_execute c (i_mode ip) (i_uid ip) (i_gid ip) \<longleftrightarrow> bit (granted c ip) 0"
  by (auto simp: permission_check_read_def permission_check_write_def permission_check_execute_def
      granted_def mode_defs and_power_iff bit_or_iff bit_drop_bit_eq bit_6 in_group_member
      numeral_2_eq_2)

lemma check_inode_permission_eq:
  "check_inode_permission c ip m =
     (if m AND MAY_UNLINK \<noteq> 0 \<and> i_mode ip AND S_ISVTX \<noteq> 0
      then if c_euid c = 0 \<or> c_euid c = i_uid ip then 0 else - EPERM
      else if requested m AND NOT (granted c ip) = 0 then 0 else - EACCES)"
  unfolding check_inode_permission_def Let_def permission_check_bits requested_granted_iff
  by (auto simp: is_file_owner_def IS_NOT_SUPERUSER_def flag_defs and_power_iff bit_or_iff bit_2
      split: if_splits)

section \<open>Runs of credential changing calls\<close>

definition user_ids :: "cred \<Rightarrow> int set" where
  "user_ids c = {c_uid c, c_euid c, c_suid c}"

definition group_ids :: "cred \<Rightarrow> int set" where
  "group_ids c = {c_gid c, c_egid c, c_sgid c}"

text \<open>
  What a process can do to its credentials: the system calls, in any order and with any
  arguments, and executing one of the files in \<open>F\<close>.
\<close>

inductive cred_run :: "inode_attr set \<Rightarrow> cred \<Rightarrow> cred \<Rightarrow> bool" for F where
  run_refl: "cred_run F c c"
| run_setuid: "cred_run F c c' \<Longrightarrow> cred_run F c (snd (sys_setuid regs c'))"
| run_setgid: "cred_run F c c' \<Longrightarrow> cred_run F c (snd (sys_setgid regs c'))"
| run_setresuid: "cred_run F c c' \<Longrightarrow> cred_run F c (snd (sys_setresuid regs c'))"
| run_setresgid: "cred_run F c c' \<Longrightarrow> cred_run F c (snd (sys_setresgid regs c'))"
| run_setgroups: "cred_run F c c' \<Longrightarrow>
    do_setgroups gi_ok gid_ok copied n c' = Some (r, c'') \<Longrightarrow> cred_run F c c''"
| run_exec: "cred_run F c c' \<Longrightarrow> ip \<in> F \<Longrightarrow> cred_run F c (exec_set_ids ip c')"

definition set_uids :: "inode_attr set \<Rightarrow> int set" where
  "set_uids F = i_uid ` {ip \<in> F. i_mode ip AND S_ISUID \<noteq> 0}"

definition set_gids :: "inode_attr set \<Rightarrow> int set" where
  "set_gids F = i_gid ` {ip \<in> F. i_mode ip AND S_ISGID \<noteq> 0}"

lemmas cred_call_defs =
  sys_setuid_def sys_setgid_def sys_setresuid_def sys_setresgid_def do_setuid_def do_setgid_def
  do_setresuid_def do_setresgid_def IS_SUPERUSER_def IS_NOT_SUPERUSER_def

lemma set_calls_user_ids:
  assumes "0 \<notin> user_ids c"
  shows "user_ids (snd (sys_setuid regs c)) \<subseteq> user_ids c"
    "user_ids (snd (sys_setresuid regs c)) \<subseteq> user_ids c"
    "user_ids (snd (sys_setgid regs c)) = user_ids c"
    "user_ids (snd (sys_setresgid regs c)) = user_ids c"
  using assms by (auto simp: cred_call_defs user_ids_def Let_def)

lemma set_calls_group_ids:
  assumes "0 \<notin> user_ids c"
  shows "group_ids (snd (sys_setuid regs c)) = group_ids c"
    "group_ids (snd (sys_setresuid regs c)) = group_ids c"
    "group_ids (snd (sys_setgid regs c)) \<subseteq> group_ids c"
    "group_ids (snd (sys_setresgid regs c)) \<subseteq> group_ids c"
  using assms by (auto simp: cred_call_defs user_ids_def group_ids_def Let_def)

lemma set_calls_groups:
  "c_groups (snd (sys_setuid regs c)) = c_groups c"
  "c_groups (snd (sys_setresuid regs c)) = c_groups c"
  "c_groups (snd (sys_setgid regs c)) = c_groups c"
  "c_groups (snd (sys_setresgid regs c)) = c_groups c"
  by (auto simp: cred_call_defs Let_def)

lemma setgroups_unprivileged:
  "0 \<notin> user_ids c \<Longrightarrow> do_setgroups gi_ok gid_ok copied n c = Some (r, c') \<Longrightarrow> c' = c"
  by (auto simp: do_setgroups_def IS_NOT_SUPERUSER_def user_ids_def)

lemma exec_ids:
  "ip \<in> F \<Longrightarrow> user_ids (exec_set_ids ip c) \<subseteq> user_ids c \<union> set_uids F"
  "ip \<in> F \<Longrightarrow> group_ids (exec_set_ids ip c) \<subseteq> group_ids c \<union> set_gids F"
  "c_groups (exec_set_ids ip c) = c_groups c"
  by (auto simp: exec_set_ids_def user_ids_def group_ids_def set_uids_def set_gids_def Let_def
      and.commute)

lemma cred_run_inv:
  assumes "cred_run F c c'" "0 \<notin> user_ids c \<union> set_uids F"
  shows "user_ids c' \<subseteq> user_ids c \<union> set_uids F \<and> group_ids c' \<subseteq> group_ids c \<union> set_gids F \<and>
         c_groups c' = c_groups c"
  using assms
proof (induction rule: cred_run.induct)
  case (run_setgroups c c' gi_ok gid_ok copied n r c'')
  then have "0 \<notin> user_ids c'" by blast
  with setgroups_unprivileged run_setgroups show ?case by metis
next
  case (run_exec c c' ip)
  then show ?case using exec_ids(1,2) [of ip F c'] exec_ids(3) [of ip c'] by auto
next
  case (run_setuid c c' regs)
  then have "0 \<notin> user_ids c'" by blast
  then show ?case
    using run_setuid set_calls_user_ids [of c' regs] set_calls_group_ids [of c' regs]
    by (auto simp: set_calls_groups)
next
  case (run_setgid c c' regs)
  then have "0 \<notin> user_ids c'" by blast
  then show ?case
    using run_setgid set_calls_user_ids [of c' regs] set_calls_group_ids [of c' regs]
    by (auto simp: set_calls_groups)
next
  case (run_setresuid c c' regs)
  then have "0 \<notin> user_ids c'" by blast
  then show ?case
    using run_setresuid set_calls_user_ids [of c' regs] set_calls_group_ids [of c' regs]
    by (auto simp: set_calls_groups)
next
  case (run_setresgid c c' regs)
  then have "0 \<notin> user_ids c'" by blast
  then show ?case
    using run_setresgid set_calls_user_ids [of c' regs] set_calls_group_ids [of c' regs]
    by (auto simp: set_calls_groups)
qed auto

section \<open>Open flags and the rights of a descriptor\<close>

lemma bit_if_or: "bit (if b then x OR y else x) n \<longleftrightarrow> bit x n \<or> b \<and> bit y n" for x :: u32
  by (simp add: bit_or_iff)

lemma bit_masks:
  "bit MAY_EXEC n \<longleftrightarrow> n = 0" "bit MAY_WRITE n \<longleftrightarrow> n = 1" "bit MAY_READ n \<longleftrightarrow> n = 2"
  "bit MAY_APPEND n \<longleftrightarrow> n = 3"
  using bit_exp_iff [where ?'a = "32 word", of 0 n] bit_exp_iff [where ?'a = "32 word", of 1 n]
    bit_exp_iff [where ?'a = "32 word", of 2 n] bit_exp_iff [where ?'a = "32 word", of 3 n]
  by (auto simp: flag_defs)

lemma open_flag_bits:
  "flags AND O_WRONLY \<noteq> 0 \<longleftrightarrow> bit flags 0" "flags AND O_RDWR \<noteq> 0 \<longleftrightarrow> bit flags 1"
  "flags AND O_CREAT \<noteq> 0 \<longleftrightarrow> bit flags 9" "flags AND O_APPEND \<noteq> 0 \<longleftrightarrow> bit flags 11"
  "flags AND O_EXEC \<noteq> 0 \<longleftrightarrow> bit flags 12"
  by (simp_all add: flag_defs and_power_iff)

lemma perm_mask_bits:
  "bit (perm_mask_from_open_flags flags) n \<longleftrightarrow>
     n = 2 \<and> flags = O_RDONLY \<or> n = 1 \<and> (bit flags 0 \<or> bit flags 9) \<or> (n = 2 \<or> n = 1) \<and> bit flags 1 \<or>
     n = 3 \<and> bit flags 11 \<or> n = 0 \<and> bit flags 12"
  unfolding perm_mask_from_open_flags_def Let_def bit_if_or open_flag_bits bit_or_iff bit_masks bit_0_eq
  by (simp add: bot_fun_def) blast

lemma check_dentry_bits:
  assumes "\<not> bit m 7"
  shows "check_dentry_permission c (Some ip) m = 0 \<longleftrightarrow>
    (bit m 0 \<longrightarrow> bit (granted c ip) 0) \<and> (bit m 1 \<or> bit m 3 \<longrightarrow> bit (granted c ip) 1) \<and>
    (bit m 2 \<longrightarrow> bit (granted c ip) 2)"
proof -
  have "m AND MAY_UNLINK = 0" using assms by (simp add: MAY_UNLINK_def and_power_iff)
  then show ?thesis
    unfolding check_dentry_is_check_inode check_inode_permission_eq requested_granted_iff
    using assms by simp
qed

lemma check_dentry_read_write:
  "check_dentry_permission c (Some ip) MAY_READ = 0 \<longleftrightarrow> bit (granted c ip) 2"
  "check_dentry_permission c (Some ip) MAY_WRITE = 0 \<longleftrightarrow> bit (granted c ip) 1"
  by (simp_all add: check_dentry_bits bit_masks)

lemma check_dentry_open:
  "check_dentry_permission c (Some ip) (perm_mask_from_open_flags flags) = 0 \<longleftrightarrow>
    (bit flags 12 \<longrightarrow> bit (granted c ip) 0) \<and>
    (bit flags 0 \<or> bit flags 1 \<or> bit flags 9 \<or> bit flags 11 \<longrightarrow> bit (granted c ip) 1) \<and>
    (flags = O_RDONLY \<or> bit flags 1 \<longrightarrow> bit (granted c ip) 2)"
  by (subst check_dentry_bits) (auto simp: perm_mask_bits)

lemma check_file_read_write:
  "check_file_permission flags MAY_READ = 0 \<longleftrightarrow> flags \<noteq> O_WRONLY"
  "check_file_permission flags MAY_WRITE = 0 \<longleftrightarrow> flags \<noteq> O_RDONLY"
  by (simp_all add: check_file_permission_def flag_defs Let_def)

text \<open>A process that is neither the owner nor in the group of the file, and any triple for it.\<close>

definition user_cred :: cred where
  "user_cred = \<lparr>c_uid = 1000, c_euid = 1000, c_suid = 1001, c_gid = 100, c_egid = 100,
     c_sgid = 100, c_groups = \<lparr>ngroups = 1, gids = [7]\<rparr>\<rparr>"

definition owner_file :: "mode_t \<Rightarrow> inode_attr" where
  "owner_file m = \<lparr>i_mode = S_IFREG OR m, i_uid = 5, i_gid = 5\<rparr>"

lemma granted_owner_file: "granted user_cred (owner_file m) = S_IFREG OR m"
  by (simp add: granted_def owner_file_def user_cred_def member_def)

lemmas open_rights = check_dentry_open check_dentry_read_write check_file_read_write open_flag_bits

lemma open_read_sound_iff:
  "(\<forall>c ip. check_dentry_permission c (Some ip) (perm_mask_from_open_flags flags) = 0 \<and>
      check_file_permission flags MAY_READ = 0 \<longrightarrow> check_dentry_permission c (Some ip) MAY_READ = 0)
    \<longleftrightarrow> flags = O_RDONLY \<or> flags = O_WRONLY \<or> flags AND O_RDWR \<noteq> 0"
proof -
  have "bit (granted user_cred (owner_file 3)) 0" "bit (granted user_cred (owner_file 3)) 1"
    "\<not> bit (granted user_cred (owner_file 3)) 2"
    by (simp_all add: granted_owner_file S_IFREG_def)
  then show ?thesis unfolding open_rights by blast
qed

lemma open_write_sound_iff:
  "(\<forall>c ip. check_dentry_permission c (Some ip) (perm_mask_from_open_flags flags) = 0 \<and>
      check_file_permission flags MAY_WRITE = 0 \<longrightarrow> check_dentry_permission c (Some ip) MAY_WRITE = 0)
    \<longleftrightarrow> flags = O_RDONLY \<or> flags AND O_WRONLY \<noteq> 0 \<or> flags AND O_RDWR \<noteq> 0 \<or>
        flags AND O_CREAT \<noteq> 0 \<or> flags AND O_APPEND \<noteq> 0"
proof -
  have "bit (granted user_cred (owner_file 5)) 0" "\<not> bit (granted user_cred (owner_file 5)) 1"
    "bit (granted user_cred (owner_file 5)) 2"
    by (simp_all add: granted_owner_file S_IFREG_def)
  then show ?thesis unfolding open_rights by blast
qed

section \<open>Properties\<close>

text \<open>
  C14: \<^verbatim>\<open>check_inode_permission\<close> and \<^verbatim>\<open>check_dentry_permission\<close> decide the same:
  without the sticky rule for unlinking they grant a request exactly when every requested bit
  is in the triple of the class the process belongs to (owner before group before others, a
  group being the effective or a supplementary one), with reading and writing always granted
  to the superuser and execution never; appending and unlinking count as writing. Unlinking
  in a sticky directory is granted exactly to its owner and the superuser.
\<close>

theorem permission_checks_are_class_check:
  "check_dentry_permission c (Some ip) m = check_inode_permission c ip m \<and>
   check_inode_permission c ip m =
     (if m AND MAY_UNLINK \<noteq> 0 \<and> i_mode ip AND S_ISVTX \<noteq> 0
      then if c_euid c = 0 \<or> c_euid c = i_uid ip then 0 else - EPERM
      else if requested m AND NOT (granted c ip) = 0 then 0 else - EACCES)"
  by (simp add: check_dentry_is_check_inode check_inode_permission_eq)

text \<open>
  C7: A process without a superuser id, executing only files that are not set-user-id files of
  the superuser (no \<^verbatim>\<open>su\<close>), stays so: after any sequence of credential calls with any
  arguments and of program executions, its user (group) ids are among those it started with and
  the owners (groups) of the set-user-id (set-group-id) files it executed, and its supplementary
  groups are unchanged.
\<close>

theorem unprivileged_ids_confined:
  assumes "cred_run F c c'" "0 \<notin> user_ids c \<union> set_uids F"
  shows "user_ids c' \<subseteq> user_ids c \<union> set_uids F \<and> group_ids c' \<subseteq> group_ids c \<union> set_gids F \<and>
         c_groups c' = c_groups c"
  using assms by (rule cred_run_inv)

text \<open>
  A set-user-id file of user 1002 is executed; its owner becomes the saved id, so that the
  process may change between the ids 1000 and 1002 afterwards.
\<close>

definition set_id_file :: inode_attr where
  "set_id_file = \<lparr>i_mode = S_IFREG OR S_ISUID OR S_IXOTH, i_uid = 1002, i_gid = 50\<rparr>"

definition after_exec :: cred where
  "after_exec = snd (sys_setresuid (\<lambda>n. [1002, 1000, 1002] ! n) (exec_set_ids set_id_file user_cred))"

theorem unprivileged_ids_confined_witness:
  "user_ids after_exec = {1000, 1002} \<and>
   user_ids after_exec \<subseteq> user_ids user_cred \<union> set_uids {set_id_file, owner_file S_IXOTH} \<and>
   group_ids after_exec \<subseteq> group_ids user_cred \<union> set_gids {set_id_file, owner_file S_IXOTH} \<and>
   c_groups after_exec = c_groups user_cred"
proof -
  let ?F = "{set_id_file, owner_file S_IXOTH}"
  have "cred_run ?F user_cred after_exec"
    unfolding after_exec_def by (rule run_setresuid, rule run_exec [OF run_refl]) simp
  moreover have "0 \<notin> user_ids user_cred \<union> set_uids ?F"
    by (auto simp: user_ids_def set_uids_def user_cred_def set_id_file_def owner_file_def)
  moreover have "user_ids after_exec = {1000, 1002}"
    by (auto simp: after_exec_def sys_setresuid_def do_setresuid_def IS_NOT_SUPERUSER_def argint_def
        exec_set_ids_def set_id_file_def user_cred_def user_ids_def mode_defs Let_def)
  ultimately show ?thesis using unprivileged_ids_confined [of ?F user_cred after_exec] by blast
qed

text \<open>
  C15: Which open flags are safe, for every 32-bit flag word. Suppose \<^verbatim>\<open>open\<close> passed the
  permission check of the inode with the mask made from the flags, and the descriptor then lets
  a read through. That every such process really has read permission holds exactly if the flags
  are \<^verbatim>\<open>O_RDONLY\<close> or \<^verbatim>\<open>O_WRONLY\<close> with no other bit, or contain
  \<^verbatim>\<open>O_RDWR\<close>. For writing it holds exactly if the flags are \<^verbatim>\<open>O_RDONLY\<close> or contain
  \<^verbatim>\<open>O_WRONLY\<close>, \<^verbatim>\<open>O_RDWR\<close>, \<^verbatim>\<open>O_CREAT\<close> or
  \<^verbatim>\<open>O_APPEND\<close>. For all other flags some process reads (writes) a file it has no right
  to: with \<^verbatim>\<open>O_WRONLY | O_CREAT\<close> it reads, with \<^verbatim>\<open>O_TRUNC\<close> alone it reads and writes.
\<close>

theorem open_rights_cover_use:
  "((\<forall>c ip. check_dentry_permission c (Some ip) (perm_mask_from_open_flags flags) = 0 \<and>
        check_file_permission flags MAY_READ = 0 \<longrightarrow> check_dentry_permission c (Some ip) MAY_READ = 0)
      \<longleftrightarrow> flags = O_RDONLY \<or> flags = O_WRONLY \<or> flags AND O_RDWR \<noteq> 0) \<and>
   ((\<forall>c ip. check_dentry_permission c (Some ip) (perm_mask_from_open_flags flags) = 0 \<and>
        check_file_permission flags MAY_WRITE = 0 \<longrightarrow> check_dentry_permission c (Some ip) MAY_WRITE = 0)
      \<longleftrightarrow> flags = O_RDONLY \<or> flags AND O_WRONLY \<noteq> 0 \<or> flags AND O_RDWR \<noteq> 0 \<or>
          flags AND O_CREAT \<noteq> 0 \<or> flags AND O_APPEND \<noteq> 0)"
  using open_read_sound_iff [of flags] open_write_sound_iff [of flags] by blast

theorem open_rights_cover_use_witness:
  "(\<exists>c ip. check_dentry_permission c (Some ip) (perm_mask_from_open_flags (O_WRONLY OR O_CREAT)) = 0 \<and>
     check_file_permission (O_WRONLY OR O_CREAT) MAY_READ = 0 \<and> check_dentry_permission c (Some ip) MAY_READ \<noteq> 0) \<and>
   (\<exists>c ip. check_dentry_permission c (Some ip) (perm_mask_from_open_flags O_TRUNC) = 0 \<and>
     check_file_permission O_TRUNC MAY_WRITE = 0 \<and> check_dentry_permission c (Some ip) MAY_WRITE \<noteq> 0)"
proof -
  have "\<not> (O_WRONLY OR O_CREAT = O_RDONLY \<or> O_WRONLY OR O_CREAT = O_WRONLY \<or>
      (O_WRONLY OR O_CREAT) AND O_RDWR \<noteq> 0)"
    by (simp add: flag_defs)
  moreover have "\<not> (O_TRUNC = O_RDONLY \<or> O_TRUNC AND O_WRONLY \<noteq> 0 \<or> O_TRUNC AND O_RDWR \<noteq> 0 \<or>
      O_TRUNC AND O_CREAT \<noteq> 0 \<or> O_TRUNC AND O_APPEND \<noteq> 0)"
    by (simp add: flag_defs)
  ultimately show ?thesis
    using open_rights_cover_use [of "O_WRONLY OR O_CREAT"] open_rights_cover_use [of O_TRUNC] by blast
qed

end
