(* ===== verification/Cbuffer.thy ===== *)
theory Cbuffer
  imports Vimix_Prelude
begin

text \<open>
  \<^verbatim>\<open>kernel/lib/cbuffer.c\<close>: the circular buffer of the kernel log, which overwrites the
  oldest bytes when it is full; and the interface \<open>bounded_queue\<close> that this buffer and
  the pipe of \<^verbatim>\<open>ipc/pipe.c\<close> implement: single bytes are put in at one end and taken
  out at the other, and the contents are the bytes in between.
\<close>

section \<open>The interface of a bounded byte queue\<close>

locale bounded_queue =
  fixes inv :: "'s \<Rightarrow> bool"
    and contents :: "'s \<Rightarrow> byte list"
    and space :: "'s \<Rightarrow> nat"
    and put :: "byte \<Rightarrow> 's \<Rightarrow> 's"
    and get :: "'s \<Rightarrow> byte \<times> 's"
  assumes put_contents: "inv s \<Longrightarrow> length (contents s) < space s \<Longrightarrow> contents (put b s) = contents s @ [b]"
    and put_inv: "inv s \<Longrightarrow> length (contents s) < space s \<Longrightarrow> inv (put b s)"
    and put_space: "space (put b s) = space s"
    and get_contents: "inv s \<Longrightarrow> contents s \<noteq> [] \<Longrightarrow>
          fst (get s) = hd (contents s) \<and> contents (snd (get s)) = tl (contents s)"
    and get_inv: "inv s \<Longrightarrow> contents s \<noteq> [] \<Longrightarrow> inv (snd (get s))"
    and get_space: "space (snd (get s)) = space s"
begin

text \<open>Many single puts and gets.\<close>

primrec puts :: "byte list \<Rightarrow> 's \<Rightarrow> 's" where
  "puts [] s = s"
| "puts (b # bs) s = puts bs (put b s)"

primrec gets :: "nat \<Rightarrow> 's \<Rightarrow> byte list \<times> 's" where
  "gets 0 s = ([], s)"
| "gets (Suc n) s = (let (b, s1) = get s; (bs, s2) = gets n s1 in (b # bs, s2))"

lemma puts_contents:
  "inv s \<Longrightarrow> length (contents s) + length bs \<le> space s \<Longrightarrow>
     inv (puts bs s) \<and> contents (puts bs s) = contents s @ bs \<and> space (puts bs s) = space s"
  by (induction bs arbitrary: s) (auto simp: put_contents put_inv put_space)

lemma gets_contents:
  "inv s \<Longrightarrow> n \<le> length (contents s) \<Longrightarrow>
     inv (snd (gets n s)) \<and> fst (gets n s) = take n (contents s) \<and>
     contents (snd (gets n s)) = drop n (contents s) \<and> space (snd (gets n s)) = space s"
proof (induction n arbitrary: s)
  case (Suc n)
  then have ne: "contents s \<noteq> []" by auto
  obtain b s1 where g: "get s = (b, s1)" by (cases "get s")
  have s1: "inv s1" "b = hd (contents s)" "contents s1 = tl (contents s)" "space s1 = space s"
    using get_contents [OF Suc.prems(1) ne] get_inv [OF Suc.prems(1) ne] get_space [of s] g by auto
  from Suc.IH [of s1] Suc.prems s1 ne show ?case
    by (cases "contents s") (auto simp: g split: prod.splits)
qed simp

lemma puts_gets:
  "inv s \<Longrightarrow> length (contents s) + length bs \<le> space s \<Longrightarrow> n = length (contents s) + length bs \<Longrightarrow>
     fst (gets n (puts bs s)) = contents s @ bs"
  using puts_contents [of s bs] gets_contents [of "puts bs s" n] by simp

end

section \<open>The circular buffer\<close>

record Circular_Buffer =
  buffer :: "byte list"
  head :: nat
  tail :: nat
  capacity :: nat

definition cbuffer_init :: "byte list \<Rightarrow> nat \<Rightarrow> Circular_Buffer" where
  "cbuffer_init buf cap = \<lparr>buffer = buf, head = 0, tail = 0, capacity = cap\<rparr>"

text \<open>One iteration of the loop of \<^verbatim>\<open>cbuffer_write\<close>.\<close>

definition cbuffer_put :: "byte \<Rightarrow> Circular_Buffer \<Rightarrow> Circular_Buffer" where
  "cbuffer_put b cb =
     (let next_head = (head cb + 1) mod capacity cb;
          cb1 = (if next_head = tail cb then cb\<lparr>tail := (tail cb + 1) mod capacity cb\<rparr> else cb)
      in cb1\<lparr>buffer := (buffer cb1)[head cb1 := b], head := next_head\<rparr>)"

fun cbuffer_write :: "Circular_Buffer \<Rightarrow> byte list \<Rightarrow> nat \<times> Circular_Buffer" where
  "cbuffer_write cb [] = (0, cb)"
| "cbuffer_write cb (b # data) =
     (let (bytes_written, cb') = cbuffer_write (cbuffer_put b cb) data
      in (Suc bytes_written, cb'))"

text \<open>One iteration of the loop of \<^verbatim>\<open>cbuffer_read\<close>, when the buffer is not empty.\<close>

definition cbuffer_get :: "Circular_Buffer \<Rightarrow> byte \<times> Circular_Buffer" where
  "cbuffer_get cb = (buffer cb ! tail cb, cb\<lparr>tail := (tail cb + 1) mod capacity cb\<rparr>)"

fun cbuffer_read :: "Circular_Buffer \<Rightarrow> nat \<Rightarrow> byte list \<times> Circular_Buffer" where
  "cbuffer_read cb 0 = ([], cb)"
| "cbuffer_read cb (Suc n) =
     (if tail cb = head cb then ([], cb)
      else let (b, cb1) = cbuffer_get cb; (bs, cb2) = cbuffer_read cb1 n in (b # bs, cb2))"

definition cbuffer_available_data :: "Circular_Buffer \<Rightarrow> nat" where
  "cbuffer_available_data cb =
     (if head cb \<ge> tail cb then head cb - tail cb else capacity cb - (tail cb - head cb))"

definition cbuffer_available_space :: "Circular_Buffer \<Rightarrow> nat" where
  "cbuffer_available_space cb = capacity cb - cbuffer_available_data cb - 1"

section \<open>Contents\<close>

definition cb_inv :: "Circular_Buffer \<Rightarrow> bool" where
  "cb_inv cb \<longleftrightarrow> head cb < capacity cb \<and> tail cb < capacity cb \<and> length (buffer cb) = capacity cb"

definition cb_contents :: "Circular_Buffer \<Rightarrow> byte list" where
  "cb_contents cb =
     map (\<lambda>k. buffer cb ! ((tail cb + k) mod capacity cb)) [0..<cbuffer_available_data cb]"

lemma length_cb_contents [simp]: "length (cb_contents cb) = cbuffer_available_data cb"
  by (simp add: cb_contents_def)

lemma cb_contents_Nil_iff [simp]: "cb_contents cb = [] \<longleftrightarrow> cbuffer_available_data cb = 0"
  by (simp add: cb_contents_def)

lemma available_data_less: "cb_inv cb \<Longrightarrow> cbuffer_available_data cb < capacity cb"
  by (auto simp: cb_inv_def cbuffer_available_data_def)

lemma head_offset:
  assumes "cb_inv cb"
  shows "head cb = (tail cb + cbuffer_available_data cb) mod capacity cb"
proof (cases "head cb \<ge> tail cb")
  case False
  then have "tail cb + (capacity cb - (tail cb - head cb)) = head cb + capacity cb"
    using assms by (auto simp: cb_inv_def)
  then show ?thesis using False assms by (simp add: cb_inv_def cbuffer_available_data_def)
qed (use assms in \<open>simp add: cb_inv_def cbuffer_available_data_def\<close>)

lemma Suc_mod_cases: "i < c \<Longrightarrow> Suc i mod c = (if Suc i = c then 0 else Suc i)" for c :: nat
  by auto

lemma ring_index_inj:
  fixes c :: nat
  assumes "j < c" "k < c" "(t + j) mod c = (t + k) mod c"
  shows "j = k"
proof -
  have "\<not> i < l" if "l < c" "(t + i) mod c = (t + l) mod c" for i l
    using that mod_eq_dvd_iff_nat [of "t + i" "t + l" c] dvd_imp_le [of c "l - i"] by auto
  with assms show ?thesis by (metis linorder_neqE_nat)
qed

lemma cbuffer_get_contents:
  assumes "cb_inv cb" "cbuffer_available_data cb \<noteq> 0"
  shows "fst (cbuffer_get cb) = hd (cb_contents cb)"
    "cb_contents (snd (cbuffer_get cb)) = tl (cb_contents cb)"
    "cb_inv (snd (cbuffer_get cb))"
    "cbuffer_available_data (snd (cbuffer_get cb)) = cbuffer_available_data cb - 1"
proof -
  let ?n = "cbuffer_available_data cb" and ?c = "capacity cb"
  have t: "tail cb < ?c" using assms by (simp add: cb_inv_def)
  show "fst (cbuffer_get cb) = hd (cb_contents cb)"
    using assms t by (simp add: cbuffer_get_def cb_contents_def hd_map)
  show inv: "cb_inv (snd (cbuffer_get cb))"
    using assms by (auto simp: cbuffer_get_def cb_inv_def intro: mod_less_divisor)
  show av: "cbuffer_available_data (snd (cbuffer_get cb)) = ?n - 1"
    using assms by (auto simp: cbuffer_get_def cbuffer_available_data_def cb_inv_def Suc_mod_cases)
  have "(Suc (tail cb) mod ?c + k) mod ?c = (tail cb + Suc k) mod ?c" for k
    by (simp add: mod_add_left_eq)
  then show "cb_contents (snd (cbuffer_get cb)) = tl (cb_contents cb)"
    using av by (intro nth_equalityI)
      (auto simp: nth_tl, auto simp: cb_contents_def cbuffer_get_def)
qed

lemma cbuffer_put_drop:
  assumes "cb_inv cb" "capacity cb \<ge> 2"
  shows "cb_inv (cbuffer_put b cb)"
    "cb_contents (cbuffer_put b cb) =
       (if cbuffer_available_data cb + 1 < capacity cb then cb_contents cb @ [b]
        else tl (cb_contents cb) @ [b])"
    "capacity (cbuffer_put b cb) = capacity cb"
proof -
  let ?n = "cbuffer_available_data cb" and ?c = "capacity cb" and ?cb = "cbuffer_put b cb"
  have t: "tail cb < ?c" "head cb < ?c" "length (buffer cb) = ?c"
    using assms by (simp_all add: cb_inv_def)
  have n: "?n < ?c" using available_data_less assms by blast
  show "cb_inv ?cb"
    using t by (auto simp: cbuffer_put_def cb_inv_def Let_def intro: mod_less_divisor)
  show "capacity ?cb = ?c" by (simp add: cbuffer_put_def Let_def)
  have full: "(head cb + 1) mod ?c = tail cb \<longleftrightarrow> ?n + 1 = ?c"
    using t assms(2) by (auto simp: cbuffer_available_data_def Suc_mod_cases)
  have h: "head cb = (tail cb + ?n) mod ?c" by (rule head_offset [OF assms(1)])
  have old: "(buffer cb)[head cb := b] ! ((tail cb + k) mod ?c) =
      (if k = ?n then b else buffer cb ! ((tail cb + k) mod ?c))" if "k < ?c" for k
    using ring_index_inj [OF that n, of "tail cb"] h t by (auto simp: nth_list_update)
  show "cb_contents ?cb = (if ?n + 1 < ?c then cb_contents cb @ [b] else tl (cb_contents cb) @ [b])"
  proof (cases "?n + 1 = ?c")
    case False
    then have av: "cbuffer_available_data ?cb = ?n + 1"
      using t full n
      by (auto simp: cbuffer_put_def Let_def cbuffer_available_data_def Suc_mod_cases split: if_splits)
    have cb: "buffer ?cb = (buffer cb)[head cb := b]" "tail ?cb = tail cb" "capacity ?cb = ?c"
      using False full by (simp_all add: cbuffer_put_def)
    have "cb_contents ?cb ! k = (cb_contents cb @ [b]) ! k" if "k < ?n + 1" for k
      using that old [of k] n False by (auto simp: cb_contents_def av cb nth_append less_Suc_eq)
    then show ?thesis using False n by (intro nth_equalityI) (auto simp: av)
  next
    case True
    then have av: "cbuffer_available_data ?cb = ?n"
      using t full n assms(2)
      by (auto simp: cbuffer_put_def Let_def cbuffer_available_data_def Suc_mod_cases split: if_splits)
    have cb: "buffer ?cb = (buffer cb)[head cb := b]" "tail ?cb = (tail cb + 1) mod ?c"
        "capacity ?cb = ?c"
      using True full by (simp_all add: cbuffer_put_def Let_def)
    have sh: "(Suc (tail cb) mod ?c + k) mod ?c = (tail cb + Suc k) mod ?c" for k
      by (simp add: mod_add_left_eq)
    have "cb_contents ?cb ! k = (tl (cb_contents cb) @ [b]) ! k" if "k < ?n" for k
      using that True old [of "Suc k"]
      by (auto simp: cb_contents_def av cb sh nth_append nth_tl)
    then show ?thesis
      using True assms(2) by (intro nth_equalityI) (auto simp: av)
  qed
qed

interpretation cbq: bounded_queue "\<lambda>cb. cb_inv cb \<and> capacity cb \<ge> 2" cb_contents
    "\<lambda>cb. capacity cb - 1" cbuffer_put cbuffer_get
proof unfold_locales
  show "cb_contents (cbuffer_put b cb) = cb_contents cb @ [b]"
    if "cb_inv cb \<and> 2 \<le> capacity cb" "length (cb_contents cb) < capacity cb - 1" for cb b
    using that cbuffer_put_drop(2) [of cb b] by auto
  show "fst (cbuffer_get cb) = hd (cb_contents cb) \<and>
        cb_contents (snd (cbuffer_get cb)) = tl (cb_contents cb)"
    if "cb_inv cb \<and> 2 \<le> capacity cb" "cb_contents cb \<noteq> []" for cb
    using that cbuffer_get_contents [of cb] by auto
  show "cb_inv (snd (cbuffer_get cb)) \<and> 2 \<le> capacity (snd (cbuffer_get cb))"
    if "cb_inv cb \<and> 2 \<le> capacity cb" "cb_contents cb \<noteq> []" for cb
    using that cbuffer_get_contents [of cb] by (auto simp: cbuffer_get_def)
qed (auto simp: cbuffer_put_drop, auto simp: cbuffer_get_def cbuffer_put_def Let_def)

lemma cbuffer_empty_iff: "cb_inv cb \<Longrightarrow> tail cb = head cb \<longleftrightarrow> cbuffer_available_data cb = 0"
  by (auto simp: cb_inv_def cbuffer_available_data_def)

lemma cbuffer_read_gets:
  "cb_inv cb \<Longrightarrow> capacity cb \<ge> 2 \<Longrightarrow>
     cbuffer_read cb n = cbq.gets (min n (cbuffer_available_data cb)) cb"
proof (induction n arbitrary: cb)
  case (Suc n)
  show ?case
  proof (cases "cbuffer_available_data cb")
    case 0
    then show ?thesis using Suc.prems by (simp add: cbuffer_empty_iff)
  next
    case (Suc m)
    obtain b cb1 where g: "cbuffer_get cb = (b, cb1)" by (cases "cbuffer_get cb")
    have cb1: "cb_inv cb1" "capacity cb1 \<ge> 2" "cbuffer_available_data cb1 = m"
      using cbuffer_get_contents(3,4) [of cb] Suc.prems Suc g by (auto simp: cbuffer_get_def)
    then show ?thesis
      using Suc.IH [of cb1] Suc Suc.prems by (simp add: g cbuffer_empty_iff)
  qed
qed simp

text \<open>The last \<open>n\<close> elements of a list.\<close>

definition lastn :: "nat \<Rightarrow> 'a list \<Rightarrow> 'a list" where
  "lastn n xs = drop (length xs - n) xs"

lemma lastn_id: "length xs \<le> n \<Longrightarrow> lastn n xs = xs"
  by (simp add: lastn_def)

lemma lastn_lastn_append: "lastn n (lastn n xs @ ys) = lastn n (xs @ ys)"
  by (cases "length xs \<le> n") (auto simp: lastn_def add.commute)

lemma cbuffer_put_lastn:
  assumes "cb_inv cb" "capacity cb \<ge> 2"
  shows "cb_contents (cbuffer_put b cb) = lastn (capacity cb - 1) (cb_contents cb @ [b])"
proof (cases "cbuffer_available_data cb + 1 < capacity cb")
  case True
  then show ?thesis using cbuffer_put_drop(2) [OF assms] by (simp add: lastn_id)
next
  case False
  then have n: "cbuffer_available_data cb = capacity cb - 1" "cbuffer_available_data cb \<noteq> 0"
    using available_data_less [OF assms(1)] assms(2) by auto
  then have "lastn (capacity cb - 1) (cb_contents cb @ [b]) = tl (cb_contents cb) @ [b]"
    using assms(2) by (simp add: lastn_def drop_Suc Suc_diff_le)
  then show ?thesis using cbuffer_put_drop(2) [OF assms] False by simp
qed

lemma cbuffer_write_lastn:
  "cb_inv cb \<Longrightarrow> capacity cb \<ge> 2 \<Longrightarrow>
     fst (cbuffer_write cb bs) = length bs \<and> cb_inv (snd (cbuffer_write cb bs)) \<and>
     capacity (snd (cbuffer_write cb bs)) = capacity cb \<and>
     cb_contents (snd (cbuffer_write cb bs)) = lastn (capacity cb - 1) (cb_contents cb @ bs)"
proof (induction bs arbitrary: cb)
  case Nil
  then show ?case using available_data_less [of cb] by (auto simp: lastn_id)
next
  case (Cons b bs)
  let ?p = "cbuffer_put b cb"
  have p: "cb_inv ?p" "capacity ?p = capacity cb"
    "cb_contents ?p = lastn (capacity cb - 1) (cb_contents cb @ [b])"
    using Cons.prems by (simp_all add: cbuffer_put_drop(1,3) cbuffer_put_lastn)
  then show ?case
    using Cons.IH [of ?p] Cons.prems lastn_lastn_append [of "capacity cb - 1" "cb_contents cb @ [b]" bs]
    by (cases "cbuffer_write ?p bs") simp
qed

section \<open>Properties\<close>

text \<open>
  C16: The circular buffer of capacity \<open>c\<close> is a queue of the last \<open>c - 1\<close> bytes: after
  writing, it holds the newest \<open>c - 1\<close> bytes of its old contents followed by the data
  (all of the data counted as written); reading then delivers the oldest ones in order and
  leaves the rest.
\<close>

theorem cbuffer_keeps_newest:
  assumes "cb_inv cb" "capacity cb \<ge> 2"
  shows "fst (cbuffer_write cb data) = length data \<and>
    cb_contents (snd (cbuffer_write cb data)) = lastn (capacity cb - 1) (cb_contents cb @ data) \<and>
    (\<exists>out cb'. cbuffer_read (snd (cbuffer_write cb data)) n = (out, cb') \<and>
       out @ cb_contents cb' = lastn (capacity cb - 1) (cb_contents cb @ data) \<and>
       (length out = n \<or> cb_contents cb' = [] \<and> length out < n))"
proof -
  let ?w = "snd (cbuffer_write cb data)"
  have w: "cb_inv ?w" "capacity ?w \<ge> 2" using cbuffer_write_lastn [OF assms, of data] assms by auto
  define k where "k = min n (cbuffer_available_data ?w)"
  obtain out cb' where g: "cbq.gets k ?w = (out, cb')" by (cases "cbq.gets k ?w")
  then have "out = take k (cb_contents ?w)" "cb_contents cb' = drop k (cb_contents ?w)"
    using cbq.gets_contents [of ?w k] w by (simp_all add: k_def)
  moreover from this have "length out = n \<or> cb_contents cb' = [] \<and> length out < n"
    by (auto simp: k_def min_def simp del: cb_contents_Nil_iff)
  moreover have "cbuffer_read ?w n = (out, cb')"
    using cbuffer_read_gets [OF w, of n] g by (simp add: k_def)
  ultimately show ?thesis
    using cbuffer_write_lastn [OF assms, of data] by auto
qed

definition cb_example :: Circular_Buffer where
  "cb_example = cbuffer_init [0, 0, 0] 3"

theorem cbuffer_keeps_newest_witness:
  "fst (cbuffer_write cb_example [1, 2, 3]) = length [1, 2, 3 :: byte] \<and>
    cb_contents (snd (cbuffer_write cb_example [1, 2, 3])) =
      lastn (capacity cb_example - 1) (cb_contents cb_example @ [1, 2, 3]) \<and>
    (\<exists>out cb'. cbuffer_read (snd (cbuffer_write cb_example [1, 2, 3])) 1 = (out, cb') \<and>
       out @ cb_contents cb' = lastn (capacity cb_example - 1) (cb_contents cb_example @ [1, 2, 3]) \<and>
       (length out = 1 \<or> cb_contents cb' = [] \<and> length out < 1))"
  by (rule cbuffer_keeps_newest) (simp_all add: cb_example_def cbuffer_init_def cb_inv_def)

end
