(* ===== verification/Pipe.thy ===== *)
theory Pipe
  imports Cbuffer Permission "HOL-Library.Sublist"
begin

text \<open>
  \<^verbatim>\<open>kernel/ipc/pipe.c\<close>. The byte counters are 64-bit words and wrap around, as in
  the code. The pipe's lock is held from the start of a call, or from its wake-up, to the
  point where it sleeps or returns; such a stretch is one step here: \<open>pipe_write_loop\<close>
  and \<open>pipe_read\<close> run it and say whether the process sleeps, and with which progress, or
  what the call returns. \<^verbatim>\<open>sleep\<close> and \<^verbatim>\<open>wakeup\<close> act on the sets of processes that
  sleep on the two channels \<^verbatim>\<open>&pipe->nread\<close> (readers) and \<^verbatim>\<open>&pipe->nwrite\<close> (writers).

  \<open>killed\<close> and \<open>user\<close> are what the code sees of the outside in one stretch: the kill flag
  of the process and the byte that \<^verbatim>\<open>uvm_copy_in\<close> reads at an offset of the user buffer
  (\<open>None\<close> when it fails); \<open>user_ok\<close> says whether \<^verbatim>\<open>uvm_copy_out\<close> of a byte succeeds.
\<close>

section \<open>The code\<close>

definition PIPE_SIZE :: nat where
  "PIPE_SIZE = 512"

record pipe =
  p_data :: "byte list"
  nread :: u64
  nwrite :: u64
  read_open :: bool
  write_open :: bool
  readers :: "nat set"
  writers :: "nat set"

definition pipe_is_empty :: "pipe \<Rightarrow> bool" where
  "pipe_is_empty p \<longleftrightarrow> nread p = nwrite p"

definition pipe_is_full :: "pipe \<Rightarrow> bool" where
  "pipe_is_full p \<longleftrightarrow> nwrite p = nread p + of_nat PIPE_SIZE"

text \<open>Storing and fetching one byte, inside of the loops.\<close>

definition pipe_put :: "byte \<Rightarrow> pipe \<Rightarrow> pipe" where
  "pipe_put ch p =
     p\<lparr>p_data := (p_data p)[unat (nwrite p) mod PIPE_SIZE := ch], nwrite := nwrite p + 1\<rparr>"

definition pipe_get :: "pipe \<Rightarrow> byte \<times> pipe" where
  "pipe_get p = (p_data p ! (unat (nread p) mod PIPE_SIZE), p\<lparr>nread := nread p + 1\<rparr>)"

datatype outcome = Sleeps nat | Returns int

function pipe_write_loop ::
  "nat \<Rightarrow> (nat \<Rightarrow> bool) \<Rightarrow> (nat \<Rightarrow> byte option) \<Rightarrow> nat \<Rightarrow> nat \<Rightarrow> pipe \<Rightarrow> outcome \<times> pipe" where
  "pipe_write_loop pid killed user n i p =
     (if i < n then
        if read_open p = False \<or> killed i then (Returns (-1), p)
        else if pipe_is_full p
        then (Sleeps i, p\<lparr>readers := {}, writers := insert pid (writers p)\<rparr>)
        else case user i of
               None \<Rightarrow> (Returns (int i), p\<lparr>readers := {}\<rparr>)
             | Some ch \<Rightarrow> pipe_write_loop pid killed user n (i + 1) (pipe_put ch p)
      else (Returns (int i), p\<lparr>readers := {}\<rparr>))"
  by pat_completeness auto
termination
  by (relation "measure (\<lambda>(pid, killed, user, n, i, p). n - i)") auto

declare pipe_write_loop.simps [simp del]

definition pipe_write ::
  "nat \<Rightarrow> (nat \<Rightarrow> bool) \<Rightarrow> (nat \<Rightarrow> byte option) \<Rightarrow> nat \<Rightarrow> pipe \<Rightarrow> outcome \<times> pipe" where
  "pipe_write pid killed user n p = pipe_write_loop pid killed user n 0 p"

text \<open>The loop that fetches bytes; the result has the bytes that reached the user buffer.\<close>

function pipe_read_loop ::
  "(nat \<Rightarrow> bool) \<Rightarrow> nat \<Rightarrow> nat \<Rightarrow> byte list \<Rightarrow> pipe \<Rightarrow> int \<times> byte list \<times> pipe" where
  "pipe_read_loop user_ok n i out p =
     (if i < n then
        if pipe_is_empty p then (int i, out, p)
        else case pipe_get p of (ch, p1) \<Rightarrow>
               if \<not> user_ok i then (int i, out, p1)
               else pipe_read_loop user_ok n (i + 1) (out @ [ch]) p1
      else (int i, out, p))"
  by pat_completeness auto
termination
  by (relation "measure (\<lambda>(user_ok, n, i, out, p). n - i)") auto

declare pipe_read_loop.simps [simp del]

definition pipe_read ::
  "nat \<Rightarrow> bool \<Rightarrow> (nat \<Rightarrow> bool) \<Rightarrow> nat \<Rightarrow> pipe \<Rightarrow> outcome \<times> byte list \<times> pipe" where
  "pipe_read pid killed user_ok n p =
     (if pipe_is_empty p \<and> write_open p then
        if killed then (Returns (-1), [], p)
        else (Sleeps 0, [], p\<lparr>readers := insert pid (readers p)\<rparr>)
      else case pipe_read_loop user_ok n 0 [] p of
             (i, out, p1) \<Rightarrow> (Returns i, out, p1\<lparr>writers := {}\<rparr>))"

text \<open>The second component tells that the memory of the pipe is freed.\<close>

definition pipe_close :: "bool \<Rightarrow> pipe \<Rightarrow> pipe \<times> bool" where
  "pipe_close close_writing_end p =
     (let p1 = (if close_writing_end then p\<lparr>write_open := False, readers := {}\<rparr>
                else p\<lparr>read_open := False, writers := {}\<rparr>)
      in (p1, \<not> read_open p1 \<and> \<not> write_open p1))"

text \<open>
  \<^verbatim>\<open>pipe_alloc\<close>: whether the two \<^verbatim>\<open>file_alloc\<close> calls and the page allocation
  succeed is given. A file that was only allocated has no dentry and is not a FIFO, so
  \<^verbatim>\<open>file_close\<close> follows its null pointer: \<open>None\<close>.
\<close>

record pipe_file =
  pf_mode :: mode_t
  pf_flags :: u32

definition pipe_alloc :: "bool \<Rightarrow> bool \<Rightarrow> bool \<Rightarrow>
    (syserr_t \<times> (pipe_file \<times> pipe_file \<times> pipe) option) option" where
  "pipe_alloc f0_ok f1_ok page_ok =
     (if \<not> f0_ok \<or> \<not> f1_ok then if f0_ok \<or> f1_ok then None else Some (- EMFILE, None)
      else if \<not> page_ok then None
      else Some (0, Some
        (\<lparr>pf_mode = S_IFIFO OR S_IRUSR, pf_flags = O_RDONLY\<rparr>,
         \<lparr>pf_mode = S_IFIFO OR S_IWUSR, pf_flags = O_WRONLY\<rparr>,
         \<lparr>p_data = replicate PIPE_SIZE 0, nread = 0, nwrite = 0, read_open = True,
          write_open = True, readers = {}, writers = {}\<rparr>)))"

section \<open>The pipe as a queue\<close>

definition pipe_count :: "pipe \<Rightarrow> nat" where
  "pipe_count p = unat (nwrite p - nread p)"

definition pipe_inv :: "pipe \<Rightarrow> bool" where
  "pipe_inv p \<longleftrightarrow> length (p_data p) = PIPE_SIZE \<and> pipe_count p \<le> PIPE_SIZE"

definition pipe_contents :: "pipe \<Rightarrow> byte list" where
  "pipe_contents p =
     map (\<lambda>k. p_data p ! ((unat (nread p) + k) mod PIPE_SIZE)) [0..<pipe_count p]"

lemma length_pipe_contents [simp]: "length (pipe_contents p) = pipe_count p"
  by (simp add: pipe_contents_def)

lemma unat_add_mod_size: "unat (a + b) mod PIPE_SIZE = (unat a + unat b) mod PIPE_SIZE" for a b :: u64
proof -
  have "PIPE_SIZE dvd 2 ^ LENGTH(64)" by (simp add: PIPE_SIZE_def)
  then show ?thesis by (simp only: unat_word_ariths mod_mod_cancel)
qed

lemma unat_add_1: "unat a < 512 \<Longrightarrow> unat (a + 1) = unat a + 1" for a :: u64
  by (subst unat_add_lem [THEN iffD1]) simp_all

lemma unat_sub_1: "a \<noteq> 0 \<Longrightarrow> unat (a - 1) = unat a - 1" for a :: u64
  by (rule unat_minus_one)

lemma pipe_is_empty_iff: "pipe_is_empty p \<longleftrightarrow> pipe_count p = 0"
proof -
  have "pipe_count p = 0 \<longleftrightarrow> nwrite p - nread p = 0" by (simp add: pipe_count_def unat_eq_zero)
  then show ?thesis by (auto simp: pipe_is_empty_def)
qed

lemma pipe_is_full_iff: "pipe_is_full p \<longleftrightarrow> pipe_count p = PIPE_SIZE"
proof -
  have "nwrite p = nread p + 512 \<longleftrightarrow> nwrite p - nread p = 512"
    by (auto simp: algebra_simps)
  also have "\<dots> \<longleftrightarrow> unat (nwrite p - nread p) = unat (512 :: u64)" by (rule word_unat_eq_iff)
  finally show ?thesis by (simp add: pipe_is_full_def pipe_count_def PIPE_SIZE_def)
qed

lemma nwrite_index: "unat (nwrite p) mod PIPE_SIZE = (unat (nread p) + pipe_count p) mod PIPE_SIZE"
  using unat_add_mod_size [of "nread p" "nwrite p - nread p"] by (simp add: pipe_count_def)

lemma pipe_put_count:
  "pipe_count p < PIPE_SIZE \<Longrightarrow> pipe_count (pipe_put ch p) = Suc (pipe_count p)"
  using unat_add_1 [of "nwrite p - nread p"]
  by (simp add: pipe_count_def pipe_put_def PIPE_SIZE_def algebra_simps)

lemma pipe_get_count: "pipe_count p \<noteq> 0 \<Longrightarrow> pipe_count (snd (pipe_get p)) = pipe_count p - 1"
proof -
  assume "pipe_count p \<noteq> 0"
  then have "nwrite p - nread p \<noteq> 0" by (auto simp: pipe_count_def)
  from unat_sub_1 [OF this] show ?thesis by (simp add: pipe_count_def pipe_get_def algebra_simps)
qed

lemma pipe_put_contents:
  assumes "pipe_inv p" "pipe_count p < PIPE_SIZE"
  shows "pipe_contents (pipe_put ch p) = pipe_contents p @ [ch]"
proof -
  let ?t = "unat (nread p)"
  have old: "(p_data p)[unat (nwrite p) mod PIPE_SIZE := ch] ! ((?t + k) mod PIPE_SIZE) =
      (if k = pipe_count p then ch else p_data p ! ((?t + k) mod PIPE_SIZE))" if "k < PIPE_SIZE" for k
    using ring_index_inj [OF that assms(2), of ?t] nwrite_index [of p] assms
    by (auto simp: nth_list_update pipe_inv_def PIPE_SIZE_def)
  have put: "nread (pipe_put ch p) = nread p"
    "p_data (pipe_put ch p) = (p_data p)[unat (nwrite p) mod PIPE_SIZE := ch]"
    by (simp_all add: pipe_put_def)
  have "pipe_contents (pipe_put ch p) ! k = (pipe_contents p @ [ch]) ! k" if "k < Suc (pipe_count p)" for k
    using that old [of k] assms(2)
    by (auto simp: pipe_contents_def pipe_put_count put nth_append less_Suc_eq simp del: upt_Suc)
  then show ?thesis using assms(2) by (intro nth_equalityI) (auto simp: pipe_put_count)
qed

lemma pipe_get_contents:
  assumes "pipe_inv p" "pipe_count p \<noteq> 0"
  shows "fst (pipe_get p) = hd (pipe_contents p)"
    "pipe_contents (snd (pipe_get p)) = tl (pipe_contents p)"
proof -
  show "fst (pipe_get p) = hd (pipe_contents p)"
    using assms by (simp add: pipe_get_def pipe_contents_def hd_map)
  have sh: "(unat (nread p + 1) + k) mod PIPE_SIZE = (unat (nread p) + Suc k) mod PIPE_SIZE" for k
  proof -
    have "(unat (nread p + 1) + k) mod PIPE_SIZE = (unat (nread p + 1) mod PIPE_SIZE + k) mod PIPE_SIZE"
      by (rule mod_add_left_eq [symmetric])
    then show ?thesis unfolding unat_add_mod_size by (simp add: mod_add_left_eq)
  qed
  show "pipe_contents (snd (pipe_get p)) = tl (pipe_contents p)"
    using pipe_get_count [OF assms(2)]
    by (intro nth_equalityI) (auto simp: nth_tl, auto simp: pipe_contents_def, auto simp: pipe_get_def sh)
qed

lemma pipe_contents_Nil_iff [simp]: "pipe_contents p = [] \<longleftrightarrow> pipe_count p = 0"
  by (simp add: pipe_contents_def)

interpretation pq: bounded_queue pipe_inv pipe_contents "\<lambda>p. PIPE_SIZE" pipe_put pipe_get
proof unfold_locales
  show "pipe_inv (pipe_put b p)" if "pipe_inv p" "length (pipe_contents p) < PIPE_SIZE" for p b
    using that by (simp add: pipe_inv_def pipe_put_count) (simp add: pipe_put_def)
  show "pipe_inv (snd (pipe_get p))" if "pipe_inv p" "pipe_contents p \<noteq> []" for p
    using that by (auto simp: pipe_inv_def pipe_get_count) (auto simp: pipe_get_def)
qed (auto simp: pipe_put_contents pipe_get_contents)

section \<open>The loops\<close>

lemma pipe_put_fields [simp]:
  "read_open (pipe_put ch p) = read_open p" "write_open (pipe_put ch p) = write_open p"
  "readers (pipe_put ch p) = readers p" "writers (pipe_put ch p) = writers p"
  by (simp_all add: pipe_put_def)

lemma pipe_get_fields [simp]:
  "read_open (snd (pipe_get p)) = read_open p" "write_open (snd (pipe_get p)) = write_open p"
  "readers (snd (pipe_get p)) = readers p" "writers (snd (pipe_get p)) = writers p"
  by (simp_all add: pipe_get_def)

lemma pipe_queue_update [simp]:
  "pipe_count (p\<lparr>readers := R\<rparr>) = pipe_count p" "pipe_count (p\<lparr>writers := S\<rparr>) = pipe_count p"
  "pipe_contents (p\<lparr>readers := R\<rparr>) = pipe_contents p"
  "pipe_contents (p\<lparr>writers := S\<rparr>) = pipe_contents p"
  "pipe_contents (p\<lparr>read_open := b\<rparr>) = pipe_contents p"
  "pipe_contents (p\<lparr>write_open := b\<rparr>) = pipe_contents p"
  "pipe_count (p\<lparr>read_open := b\<rparr>) = pipe_count p" "pipe_count (p\<lparr>write_open := b\<rparr>) = pipe_count p"
  "pipe_inv (p\<lparr>readers := R\<rparr>) = pipe_inv p" "pipe_inv (p\<lparr>writers := S\<rparr>) = pipe_inv p"
  "pipe_inv (p\<lparr>read_open := b\<rparr>) = pipe_inv p" "pipe_inv (p\<lparr>write_open := b\<rparr>) = pipe_inv p"
  by (simp_all add: pipe_count_def pipe_contents_def pipe_inv_def)

text \<open>
  One stretch of a write: the \<open>k\<close> bytes it stores, and the four ways it ends.
\<close>

definition write_ends ::
  "nat \<Rightarrow> (nat \<Rightarrow> bool) \<Rightarrow> (nat \<Rightarrow> byte option) \<Rightarrow> nat \<Rightarrow> nat \<Rightarrow> pipe \<Rightarrow> outcome \<times> pipe \<Rightarrow> bool" where
  "write_ends pid killed user n j p r =
     (case r of
        (Sleeps i, p') \<Rightarrow> i = j \<and> j < n \<and> pipe_count p' = PIPE_SIZE \<and> read_open p \<and>
           readers p' = {} \<and> writers p' = insert pid (writers p)
      | (Returns v, p') \<Rightarrow> writers p' = writers p \<and>
           (v = int j \<and> readers p' = {} \<or>
            v = -1 \<and> readers p' = readers p \<and> j < n \<and> (\<not> read_open p \<or> killed j)))"

lemma write_ends_put: "write_ends pid killed user n j (pipe_put ch p) = write_ends pid killed user n j p"
  by (simp add: write_ends_def fun_eq_iff split: outcome.split)

lemma pipe_write_loop_effect:
  "pipe_write_loop pid killed user n i p = (r, p') \<Longrightarrow> pipe_inv p \<Longrightarrow> i \<le> n \<Longrightarrow>
   \<exists>k. i + k \<le> n \<and> (\<forall>j<k. user (i + j) \<noteq> None \<and> \<not> killed (i + j) \<and> read_open p) \<and>
     pipe_inv p' \<and> pipe_contents p' = pipe_contents p @ map (the \<circ> user) [i..<i + k] \<and>
     read_open p' = read_open p \<and> write_open p' = write_open p \<and>
     write_ends pid killed user n (i + k) p (r, p')"
proof (induction pid killed user n i p rule: pipe_write_loop.induct)
  case (1 pid killed user n i p)
  show ?case
  proof (cases "i < n \<and> read_open p \<and> \<not> killed i \<and> \<not> pipe_is_full p \<and> user i \<noteq> None")
    case True
    then obtain ch where ch: "user i = Some ch" by auto
    have room: "pipe_count p < PIPE_SIZE"
      using True "1.prems"(2) by (auto simp: pipe_is_full_iff pipe_inv_def)
    have inv: "pipe_inv (pipe_put ch p)" using pq.put_inv [of p ch] "1.prems"(2) room by simp
    have step: "pipe_write_loop pid killed user n (i + 1) (pipe_put ch p) = (r, p')"
      using True ch "1.prems"(1) by (subst (asm) pipe_write_loop.simps) simp
    have "\<exists>k. i + 1 + k \<le> n \<and> (\<forall>j<k. user (i + 1 + j) \<noteq> None \<and> \<not> killed (i + 1 + j) \<and>
          read_open (pipe_put ch p)) \<and> pipe_inv p' \<and>
        pipe_contents p' = pipe_contents (pipe_put ch p) @ map (the \<circ> user) [i + 1..<i + 1 + k] \<and>
        read_open p' = read_open (pipe_put ch p) \<and> write_open p' = write_open (pipe_put ch p) \<and>
        write_ends pid killed user n (i + 1 + k) (pipe_put ch p) (r, p')"
      by (rule "1.IH") (use True ch inv step in auto)
    then obtain k where k: "i + 1 + k \<le> n"
        "\<forall>j<k. user (i + 1 + j) \<noteq> None \<and> \<not> killed (i + 1 + j) \<and> read_open p" "pipe_inv p'"
        "pipe_contents p' = (pipe_contents p @ [ch]) @ map (the \<circ> user) [i + 1..<i + 1 + k]"
        "read_open p' = read_open p" "write_open p' = write_open p"
        "write_ends pid killed user n (i + 1 + k) p (r, p')"
      using "1.prems"(2) room by (auto simp: pipe_put_contents write_ends_put)
    have "[i..<i + Suc k] = i # [i + 1..<i + 1 + k]" by (simp add: upt_conv_Cons)
    moreover have "\<forall>j<Suc k. user (i + j) \<noteq> None \<and> \<not> killed (i + j) \<and> read_open p"
      using k(2) True by (auto simp: less_Suc_eq_0_disj)
    ultimately show ?thesis
      using k ch by (intro exI [of _ "Suc k"]) (simp del: upt_Suc)
  next
    case False
    then show ?thesis
      using "1.prems"
      by (intro exI [of _ 0], subst (asm) pipe_write_loop.simps)
         (auto simp: write_ends_def pipe_is_full_iff split: option.splits if_splits)
  qed
qed

lemma pipe_read_loop_ok:
  "pipe_inv p \<Longrightarrow> (\<And>j. user_ok j) \<Longrightarrow> i \<le> n \<Longrightarrow>
     (\<exists>p'. pipe_read_loop user_ok n i out p =
        (int (i + min (n - i) (pipe_count p)), out @ take (n - i) (pipe_contents p), p') \<and>
      pipe_inv p' \<and> pipe_contents p' = drop (n - i) (pipe_contents p) \<and>
      read_open p' = read_open p \<and> write_open p' = write_open p \<and> readers p' = readers p)"
proof (induction user_ok n i out p rule: pipe_read_loop.induct)
  case (1 user_ok n i out p)
  show ?case
  proof (cases "i < n \<and> \<not> pipe_is_empty p")
    case True
    obtain ch p1 where g: "pipe_get p = (ch, p1)" by (cases "pipe_get p")
    have ne: "pipe_contents p \<noteq> []" "pipe_count p \<noteq> 0" using True by (simp_all add: pipe_is_empty_iff)
    have p1: "pipe_inv p1" "ch = hd (pipe_contents p)" "pipe_contents p1 = tl (pipe_contents p)"
      "pipe_count p1 = pipe_count p - 1"
      "read_open p1 = read_open p" "write_open p1 = write_open p" "readers p1 = readers p"
      using pq.get_inv [OF "1.prems"(1) ne(1)] pipe_get_contents [OF "1.prems"(1) ne(2)]
        pipe_get_count [OF ne(2)] pipe_get_fields [of p] by (simp_all add: g)
    have step: "pipe_read_loop user_ok n i out p = pipe_read_loop user_ok n (i + 1) (out @ [ch]) p1"
      using True "1.prems"(2) by (subst pipe_read_loop.simps) (simp add: g)
    have "\<exists>p'. pipe_read_loop user_ok n (i + 1) (out @ [ch]) p1 =
        (int (i + 1 + min (n - (i + 1)) (pipe_count p1)),
         (out @ [ch]) @ take (n - (i + 1)) (pipe_contents p1), p') \<and>
      pipe_inv p' \<and> pipe_contents p' = drop (n - (i + 1)) (pipe_contents p1) \<and>
      read_open p' = read_open p1 \<and> write_open p' = write_open p1 \<and> readers p' = readers p1"
      by (rule "1.IH") (use True g p1 "1.prems" in \<open>auto simp: pipe_is_empty_iff\<close>)
    moreover have "n - i = Suc (n - (i + 1))" using True by auto
    ultimately show ?thesis
      unfolding step using p1 ne by (cases "pipe_contents p") auto
  next
    case False
    then show ?thesis
      using "1.prems" by (subst pipe_read_loop.simps) (auto simp: pipe_is_empty_iff)
  qed
qed

lemma pipe_read_loop_fails:
  "pipe_inv p \<Longrightarrow> i \<le> j \<Longrightarrow> j < n \<Longrightarrow> j < i + pipe_count p \<Longrightarrow>
   (\<forall>l. i \<le> l \<and> l < j \<longrightarrow> user_ok l) \<Longrightarrow> \<not> user_ok j \<Longrightarrow>
     (\<exists>p'. pipe_read_loop user_ok n i out p = (int j, out @ take (j - i) (pipe_contents p), p') \<and>
      pipe_contents p' = drop (Suc (j - i)) (pipe_contents p))"
proof (induction user_ok n i out p rule: pipe_read_loop.induct)
  case (1 user_ok n i out p)
  obtain ch p1 where g: "pipe_get p = (ch, p1)" by (cases "pipe_get p")
  have ne: "pipe_contents p \<noteq> []" "pipe_count p \<noteq> 0" using "1.prems" by simp_all
  have p1: "pipe_inv p1" "ch = hd (pipe_contents p)" "pipe_contents p1 = tl (pipe_contents p)"
    "pipe_count p1 = pipe_count p - 1"
    using pq.get_inv [OF "1.prems"(1) ne(1)] pipe_get_contents [OF "1.prems"(1) ne(2)]
      pipe_get_count [OF ne(2)] by (simp_all add: g)
  show ?case
  proof (cases "i = j")
    case True
    then show ?thesis
      using "1.prems" ne p1
      by (subst pipe_read_loop.simps) (simp add: g pipe_is_empty_iff drop_Suc)
  next
    case False
    then have ij: "i < j" "user_ok i" "i < n" using "1.prems" by auto
    have step: "pipe_read_loop user_ok n i out p = pipe_read_loop user_ok n (i + 1) (out @ [ch]) p1"
      using ij ne by (subst pipe_read_loop.simps) (simp add: g pipe_is_empty_iff)
    have "\<exists>p'. pipe_read_loop user_ok n (i + 1) (out @ [ch]) p1 =
        (int j, (out @ [ch]) @ take (j - (i + 1)) (pipe_contents p1), p') \<and>
      pipe_contents p' = drop (Suc (j - (i + 1))) (pipe_contents p1)"
      by (rule "1.IH") (use ij ne g p1 "1.prems" in \<open>auto simp: pipe_is_empty_iff\<close>)
    moreover have "j - i = Suc (j - (i + 1))" using ij by auto
    ultimately show ?thesis unfolding step using p1 ne by (cases "pipe_contents p") auto
  qed
qed

text \<open>
  A read in general: it delivers \<open>k\<close> bytes, and takes one more out of the pipe if copying that
  byte to the user fails.
\<close>

definition fails_at :: "(nat \<Rightarrow> bool) \<Rightarrow> nat \<Rightarrow> nat \<Rightarrow> nat \<Rightarrow> pipe \<Rightarrow> bool" where
  "fails_at user_ok n i k p \<longleftrightarrow> i + k < n \<and> k < pipe_count p \<and> \<not> user_ok (i + k)"

lemma pipe_read_loop_effect:
  "pipe_inv p \<Longrightarrow> i \<le> n \<Longrightarrow> pipe_read_loop user_ok n i out p = (v, out', p') \<Longrightarrow>
   \<exists>k. v = int (i + k) \<and> k \<le> pipe_count p \<and> out' = out @ take k (pipe_contents p) \<and>
     pipe_contents p' = drop (if fails_at user_ok n i k p then Suc k else k) (pipe_contents p) \<and> pipe_inv p' \<and>
     read_open p' = read_open p \<and> write_open p' = write_open p \<and> readers p' = readers p"
proof (induction user_ok n i out p rule: pipe_read_loop.induct)
  case (1 user_ok n i out p)
  show ?case
  proof (cases "i < n \<and> \<not> pipe_is_empty p")
    case True
    obtain ch p1 where g: "pipe_get p = (ch, p1)" by (cases "pipe_get p")
    have ne: "pipe_contents p \<noteq> []" "pipe_count p \<noteq> 0" using True by (simp_all add: pipe_is_empty_iff)
    have p1: "pipe_inv p1" "ch = hd (pipe_contents p)" "pipe_contents p1 = tl (pipe_contents p)"
      "pipe_count p1 = pipe_count p - 1"
      "read_open p1 = read_open p" "write_open p1 = write_open p" "readers p1 = readers p"
      using pq.get_inv [OF "1.prems"(1) ne(1)] pipe_get_contents [OF "1.prems"(1) ne(2)]
        pipe_get_count [OF ne(2)] pipe_get_fields [of p] by (simp_all add: g)
    show ?thesis
    proof (cases "user_ok i")
      case ok: True
      have "pipe_read_loop user_ok n i out p = pipe_read_loop user_ok n (i + 1) (out @ [ch]) p1"
        using True ok g by (subst pipe_read_loop.simps) simp
      then have st: "pipe_read_loop user_ok n (i + 1) (out @ [ch]) p1 = (v, out', p')" using "1.prems"(3) by simp
      have "\<exists>k. v = int (i + 1 + k) \<and> k \<le> pipe_count p1 \<and> out' = (out @ [ch]) @ take k (pipe_contents p1) \<and>
         pipe_contents p' = drop (if fails_at user_ok n (i + 1) k p1 then Suc k else k) (pipe_contents p1) \<and> pipe_inv p' \<and>
         read_open p' = read_open p1 \<and> write_open p' = write_open p1 \<and> readers p' = readers p1"
        by (rule "1.IH") (use True ok g p1(1) st in simp_all)
      then obtain k where k: "v = int (i + 1 + k)" "k \<le> pipe_count p1" "out' = (out @ [ch]) @ take k (pipe_contents p1)"
         "pipe_contents p' = drop (if fails_at user_ok n (i + 1) k p1 then Suc k else k) (pipe_contents p1)" "pipe_inv p'"
         "read_open p' = read_open p1" "write_open p' = write_open p1" "readers p' = readers p1" by blast
      have "fails_at user_ok n i (Suc k) p = fails_at user_ok n (i + 1) k p1"
        using p1(4) ne(2) by (auto simp: fails_at_def)
      moreover obtain x xs where "pipe_contents p = x # xs" using ne(1) by (cases "pipe_contents p") auto
      moreover have "Suc k \<le> pipe_count p" using k(2) p1(4) ne(2) by simp
      ultimately show ?thesis using k(1,3-8) p1(2,3,5-7) by (intro exI [of _ "Suc k"]) simp
    next
      case False
      have "pipe_read_loop user_ok n i out p = (int i, out, p1)"
        using True False g by (subst pipe_read_loop.simps) simp
      then have "v = int i" "out' = out" "p' = p1" using "1.prems"(3) by simp_all
      moreover have "fails_at user_ok n i 0 p" using True False ne(2) by (simp add: fails_at_def)
      ultimately show ?thesis using p1 by (intro exI [of _ 0]) (simp add: drop_Suc)
    qed
  next
    case False
    then have "pipe_read_loop user_ok n i out p = (int i, out, p)" by (subst pipe_read_loop.simps) auto
    then have "v = int i" "out' = out" "p' = p" using "1.prems"(3) by simp_all
    moreover have "\<not> fails_at user_ok n i 0 p" using False by (auto simp: fails_at_def pipe_is_empty_iff)
    ultimately show ?thesis using "1.prems"(1) by (intro exI [of _ 0]) simp
  qed
qed

section \<open>Runs of a pipe\<close>

text \<open>
  Writers and readers, any number of them, use the two ends in any interleaving of their
  stretches until the ends are closed; at any byte a process can be killed, a byte of the buffer of
  a writer can be missing and a byte cannot be copied to a reader. A write stretch starts a call
  or continues one that slept with \<open>i\<close> bytes written. A signal wakes a process from its sleep.

  The history of a run: \<open>W\<close> are the bytes that the writers stored, which is what they are told
  unless they return -1; \<open>R\<close> the bytes delivered into readers' buffers;
  \<open>f\<close> counts the reads in which a copy to the user failed; \<open>M\<close> are the sleeping readers that a
  killed writer did not wake although it had stored bytes.
\<close>

definition stored :: "nat \<Rightarrow> outcome \<Rightarrow> pipe \<Rightarrow> pipe \<Rightarrow> nat" where
  "stored i r p p' =
     (case r of Sleeps j \<Rightarrow> j - i
      | Returns v \<Rightarrow> if 0 \<le> v then nat v - i else pipe_count p' - pipe_count p)"

definition missed :: "nat \<Rightarrow> outcome \<Rightarrow> pipe \<Rightarrow> pipe \<Rightarrow> nat set \<Rightarrow> nat set" where
  "missed i r p p' M = (if r = Returns (-1) \<and> 0 < stored i r p p' then readers p' else M \<inter> readers p')"

definition copy_failed :: "(nat \<Rightarrow> bool) \<Rightarrow> nat \<Rightarrow> outcome \<Rightarrow> pipe \<Rightarrow> bool" where
  "copy_failed user_ok n r p =
     (case r of Sleeps j \<Rightarrow> False | Returns v \<Rightarrow> 0 \<le> v \<and> fails_at user_ok n 0 (nat v) p)"

inductive pipe_run :: "pipe \<Rightarrow> byte list \<Rightarrow> byte list \<Rightarrow> nat \<Rightarrow> nat set \<Rightarrow> bool" where
  pipe_start: "pipe_alloc True True True = Some (e, Some (f0, f1, p)) \<Longrightarrow> pipe_run p [] [] 0 {}"
| pipe_run_write: "pipe_run p W R f M \<Longrightarrow> write_open p \<Longrightarrow> i \<le> n \<Longrightarrow>
    pipe_write_loop pid killed user n i p = (r, p') \<Longrightarrow>
    pipe_run p' (W @ map (the \<circ> user) [i..<i + stored i r p p']) R f (missed i r p p' M)"
| pipe_run_read: "pipe_run p W R f M \<Longrightarrow> read_open p \<Longrightarrow>
    pipe_read pid killed user_ok n p = (r, out, p') \<Longrightarrow>
    pipe_run p' W (R @ out) (if copy_failed user_ok n r p then Suc f else f) (M \<inter> readers p')"
| pipe_run_close: "pipe_run p W R f M \<Longrightarrow> pipe_close w p = (p', False) \<Longrightarrow> pipe_run p' W R f (M \<inter> readers p')"
| pipe_run_signal: "pipe_run p W R f M \<Longrightarrow>
    pipe_run (p\<lparr>readers := readers p - {pid}, writers := writers p - {pid}\<rparr>) W R f (M - {pid})"

definition sleepers_ok :: "pipe \<Rightarrow> nat set \<Rightarrow> bool" where
  "sleepers_ok p M \<longleftrightarrow> M \<subseteq> readers p \<and>
     (readers p - M \<noteq> {} \<longrightarrow> pipe_is_empty p \<and> write_open p) \<and>
     (writers p \<noteq> {} \<longrightarrow> pipe_is_full p \<and> read_open p)"

lemma pipe_write_step:
  assumes "pipe_write_loop pid killed user n i p = (r, p')" "i \<le> n" "pipe_inv p" "sleepers_ok p M"
  shows "pipe_inv p' \<and> sleepers_ok p' (missed i r p p' M) \<and>
    pipe_contents p' = pipe_contents p @ map (the \<circ> user) [i..<i + stored i r p p']"
proof -
  obtain k where k: "i + k \<le> n" "pipe_inv p'" "pipe_contents p' = pipe_contents p @ map (the \<circ> user) [i..<i + k]"
      "read_open p' = read_open p" "write_open p' = write_open p" "write_ends pid killed user n (i + k) p (r, p')"
    using pipe_write_loop_effect [OF assms(1,3,2)] by auto
  have cnt: "pipe_count p' = pipe_count p + k"
    using k(3) length_pipe_contents by (metis length_append length_map length_upt diff_add_inverse)
  have full: "writers p \<noteq> {} \<Longrightarrow> k = 0 \<and> pipe_count p = PIPE_SIZE \<and> read_open p"
    using assms(4) k(2) cnt by (auto simp: sleepers_ok_def pipe_is_full_iff pipe_inv_def)
  have st: "stored i r p p' = k"
    using k(6) cnt by (auto simp: stored_def write_ends_def nat_add_distrib split: outcome.splits)
  have "sleepers_ok p' (missed i r p p' M)"
  proof (cases r)
    case (Sleeps j)
    then show ?thesis using k(4,6) by (auto simp: write_ends_def sleepers_ok_def missed_def pipe_is_full_iff)
  next
    case (Returns v)
    then consider "v \<noteq> -1" "readers p' = {}" "writers p' = writers p"
      | "v = -1" "readers p' = readers p" "writers p' = writers p"
      using k(6) by (auto simp: write_ends_def)
    then show ?thesis
      using k(4,5) full cnt Returns assms(4) st
      by cases (auto simp: sleepers_ok_def missed_def pipe_is_full_iff pipe_is_empty_iff)
  qed
  then show ?thesis using k(2,3) st by simp
qed

lemma pipe_read_step:
  assumes "pipe_read pid killed user_ok n p = (r, out, p')" "pipe_inv p" "sleepers_ok p M"
  shows "pipe_inv p' \<and> sleepers_ok p' (M \<inter> readers p') \<and>
    (\<exists>lost. pipe_contents p = out @ lost @ pipe_contents p' \<and> length lost = (if copy_failed user_ok n r p then 1 else 0))"
proof (cases "pipe_is_empty p \<and> write_open p")
  case True
  then show ?thesis
    using assms
    by (auto simp: pipe_read_def sleepers_ok_def pipe_is_empty_iff pipe_is_full_iff PIPE_SIZE_def copy_failed_def
        split: if_splits)
next
  case False
  obtain v p1 where l: "pipe_read_loop user_ok n 0 [] p = (v, out, p1)" "r = Returns v" "p' = p1\<lparr>writers := {}\<rparr>"
    using assms(1) False by (auto simp: pipe_read_def split: prod.splits)
  obtain k where k: "v = int k" "k \<le> pipe_count p" "out = take k (pipe_contents p)"
      "pipe_contents p1 = drop (if fails_at user_ok n 0 k p then Suc k else k) (pipe_contents p)" "pipe_inv p1"
      "read_open p1 = read_open p" "write_open p1 = write_open p" "readers p1 = readers p"
    using pipe_read_loop_effect [OF assms(2) _ l(1)] by auto
  have "sleepers_ok p' (M \<inter> readers p')" using False assms(3) k(8) by (auto simp: l(3) sleepers_ok_def)
  moreover have "\<exists>lost. pipe_contents p = out @ lost @ pipe_contents p' \<and> length lost = (if copy_failed user_ok n r p then 1 else 0)"
  proof (cases "fails_at user_ok n 0 k p")
    case True
    then have "k < length (pipe_contents p)" by (simp add: fails_at_def)
    then have "pipe_contents p = take k (pipe_contents p) @ [pipe_contents p ! k] @ drop (Suc k) (pipe_contents p)"
      by (simp add: id_take_nth_drop)
    then show ?thesis using True k(1,3,4) l(2,3) by (intro exI [of _ "[pipe_contents p ! k]"]) (simp add: copy_failed_def)
  next
    case no: False
    then show ?thesis using k(1,3,4) l(2,3) by (intro exI [of _ "[]"]) (simp add: copy_failed_def)
  qed
  ultimately show ?thesis using k(5) by (simp add: l(3))
qed

lemma pipe_run_inv:
  "pipe_run p W R f M \<Longrightarrow> pipe_inv p \<and> sleepers_ok p M \<and>
     (\<exists>T. W = T @ pipe_contents p \<and> subseq R T \<and> length T = length R + f)"
proof (induction rule: pipe_run.induct)
  case (pipe_start e f0 f1 p)
  then show ?case
    by (auto simp: pipe_alloc_def pipe_inv_def sleepers_ok_def pipe_contents_def pipe_count_def)
next
  case (pipe_run_write p W R f M i n pid killed user r p')
  then show ?case using pipe_write_step [OF pipe_run_write.hyps(4,3), of M] by auto
next
  case (pipe_run_read p W R f M pid killed user_ok n r out p')
  then obtain T where T: "W = T @ pipe_contents p" "subseq R T" "length T = length R + f" by blast
  obtain lost where l: "pipe_contents p = out @ lost @ pipe_contents p'" "length lost = (if copy_failed user_ok n r p then 1 else 0)"
    using pipe_read_step [OF pipe_run_read.hyps(3), of M] pipe_run_read.IH by blast
  have "subseq (R @ out) (T @ out @ lost)"
    using T(2) by (intro list_emb_append_mono subseq_rev_drop_many) auto
  then have "\<exists>T. W = T @ pipe_contents p' \<and> subseq (R @ out) T \<and> length T = length (R @ out) + (if copy_failed user_ok n r p then Suc f else f)"
    using T(1,3) l by (intro exI [of _ "T @ out @ lost"]) simp
  then show ?case using pipe_read_step [OF pipe_run_read.hyps(3), of M] pipe_run_read.IH by blast
next
  case (pipe_run_close p W R f M w p')
  then show ?case
    by (auto simp: pipe_close_def sleepers_ok_def pipe_is_empty_iff pipe_is_full_iff Let_def
        split: if_splits)
next
  case (pipe_run_signal p W R f M pid)
  then show ?case by (auto simp: sleepers_ok_def pipe_is_empty_iff pipe_is_full_iff)
qed

section \<open>Properties\<close>

text \<open>
  C3: A pipe is a first-in first-out channel, in every run, with any number of readers and writers,
  also when the 64-bit counters wrap around, processes are killed and copies to the user fail: the
  bytes that writers stored are the bytes taken out of the pipe followed by the at most
  \<^verbatim>\<open>PIPE_SIZE\<close> bytes in the buffer, and those taken out were delivered to the readers in the order
  of their writing, but for exactly one lost byte for each read in which a copy failed; without
  such a read nothing is lost. Writers miss no wake-up: while one sleeps the pipe is full and its
  reading end open. A reader misses a wake-up only through a writer that is killed after it
  stored bytes: while any other reader sleeps the pipe is empty and its writing end open.
\<close>

theorem pipe_is_fifo:
  assumes "pipe_run p W R f M"
  shows "(\<exists>T. W = T @ pipe_contents p \<and> subseq R T \<and> length T = length R + f) \<and>
    (f = 0 \<longrightarrow> W = R @ pipe_contents p) \<and> length (pipe_contents p) \<le> PIPE_SIZE \<and> M \<subseteq> readers p \<and>
    (readers p - M \<noteq> {} \<longrightarrow> pipe_is_empty p \<and> write_open p) \<and>
    (writers p \<noteq> {} \<longrightarrow> pipe_is_full p \<and> read_open p)"
proof -
  note I = pipe_run_inv [OF assms]
  then obtain T where T: "W = T @ pipe_contents p" "subseq R T" "length T = length R + f" by blast
  have "f = 0 \<longrightarrow> W = R @ pipe_contents p" using T subseq_same_length [of R T] by simp
  then show ?thesis using I by (simp add: pipe_inv_def sleepers_ok_def)
qed

definition new_pipe :: pipe where
  "new_pipe = \<lparr>p_data = replicate PIPE_SIZE 0, nread = 0, nwrite = 0, read_open = True,
     write_open = True, readers = {}, writers = {}\<rparr>"

lemma new_pipe_run: "pipe_run new_pipe [] [] 0 {}"
  by (rule pipe_start [of 0 "\<lparr>pf_mode = S_IFIFO OR S_IRUSR, pf_flags = O_RDONLY\<rparr>"
        "\<lparr>pf_mode = S_IFIFO OR S_IWUSR, pf_flags = O_WRONLY\<rparr>"])
     (simp add: pipe_alloc_def new_pipe_def)

text \<open>
  Reader 2 sleeps; writer 1 stores 7 and 8 and is killed before its third byte; reader 3 loses the
  7 in a failing copy, then reads the 8. Reader 2 was never woken.
\<close>

definition put_78 :: pipe where
  "put_78 = pipe_put 8 (pipe_put 7 (new_pipe\<lparr>readers := {2}\<rparr>))"

lemma put_78_facts:
  "pipe_inv put_78" "pipe_contents put_78 = [7, 8]" "pipe_count put_78 = 2" "readers put_78 = {2}"
  "read_open put_78" "write_open put_78"
proof -
  have n: "pipe_inv (new_pipe\<lparr>readers := {2}\<rparr>)" "pipe_contents (new_pipe\<lparr>readers := {2}\<rparr>) = []"
    by (simp_all add: pipe_inv_def new_pipe_def pipe_count_def)
  have m: "pipe_inv (pipe_put 7 (new_pipe\<lparr>readers := {2}\<rparr>))" "pipe_contents (pipe_put 7 (new_pipe\<lparr>readers := {2}\<rparr>)) = [7]"
    using pq.put_inv [OF n(1), of 7] pq.put_contents [OF n(1), of 7] n(2) by (simp_all add: PIPE_SIZE_def)
  show "pipe_inv put_78" "pipe_contents put_78 = [7, 8]"
    using pq.put_inv [OF m(1), of 8] pq.put_contents [OF m(1), of 8] m(2) unfolding put_78_def by (simp_all add: PIPE_SIZE_def)
  then show "pipe_count put_78 = 2" using length_pipe_contents [of put_78] by simp
  show "readers put_78 = {2}" "read_open put_78" "write_open put_78" by (simp_all add: put_78_def new_pipe_def)
qed

lemma killed_run: "pipe_run put_78 [7, 8] [] 0 {2}"
proof -
  let ?p1 = "new_pipe\<lparr>readers := {2}\<rparr>" and ?u = "\<lambda>i::nat. Some (if i = 0 then 7 else 8 :: byte)" and ?k = "\<lambda>i::nat. i = 2"
  have "pipe_read 2 False (\<lambda>_. True) 5 new_pipe = (Sleeps 0, [], ?p1)"
    by (simp add: pipe_read_def new_pipe_def pipe_is_empty_def)
  from pipe_run_read [OF new_pipe_run _ this] have r: "pipe_run ?p1 [] [] 0 {}"
    by (simp add: copy_failed_def new_pipe_def)
  have w: "pipe_write_loop 1 ?k ?u 3 0 ?p1 = (Returns (-1), put_78)"
    by (subst pipe_write_loop.simps, subst pipe_write_loop.simps, subst pipe_write_loop.simps)
       (simp add: new_pipe_def pipe_is_full_def pipe_put_def put_78_def PIPE_SIZE_def)
  have s: "stored 0 (Returns (-1)) ?p1 put_78 = 2"
    using put_78_facts(3) by (simp add: stored_def new_pipe_def pipe_count_def)
  have "write_open ?p1" "(0 :: nat) \<le> 3" by (simp_all add: new_pipe_def)
  note run = pipe_run_write [OF r this w]
  have "map (the \<circ> ?u) [0..<0 + 2] = [7, 8]" by (simp add: upt_rec)
  moreover have "missed 0 (Returns (-1)) ?p1 put_78 {} = {2}" using put_78_facts(4) by (simp add: missed_def s)
  ultimately show ?thesis using run unfolding s by simp
qed

theorem pipe_is_fifo_witness:
  "(\<exists>p. pipe_run p [7, 8] [] 0 {2} \<and> pipe_contents p = [7, 8]) \<and>
   (\<exists>p T. pipe_run p [7, 8] [8] 1 {2} \<and> [7, 8] = T @ pipe_contents p \<and> subseq [8] T \<and> length T = 2)"
proof
  have "pipe_contents put_78 = [7, 8]" using pipe_is_fifo [OF killed_run] by simp
  then show "\<exists>p. pipe_run p [7, 8] [] 0 {2} \<and> pipe_contents p = [7, 8]" using killed_run by blast
  note F = put_78_facts
  let ?p1 = "snd (pipe_get put_78)"
  have g: "pipe_contents ?p1 = [8]" "pipe_inv ?p1" "pipe_count ?p1 = 1"
    using pipe_get_contents [OF F(1)] pq.get_inv [OF F(1)] pipe_get_count [of put_78] F(2,3) by simp_all
  have "pipe_read 3 False (\<lambda>_. False) 1 put_78 = (Returns 0, [], ?p1\<lparr>writers := {}\<rparr>)"
    by (simp add: pipe_read_def pipe_is_empty_iff F(3)) (subst pipe_read_loop.simps, simp add: pipe_is_empty_iff F(3) split: prod.split)
  from pipe_run_read [OF killed_run F(5) this]
  have r1: "pipe_run (?p1\<lparr>writers := {}\<rparr>) [7, 8] [] 1 {2}" using F(3,4) by (simp add: copy_failed_def fails_at_def)
  define p2 where "p2 = ?p1\<lparr>writers := {}\<rparr>"
  have p2: "pipe_contents p2 = [8]" "pipe_inv p2" "pipe_count p2 = 1" "read_open p2" "readers p2 = {2}"
    using g F(4,5) by (simp_all add: p2_def)
  have o: "fst (pipe_get p2) = 8" using pipe_get_contents(1) [OF p2(2)] p2(1,3) by simp
  have "pipe_read_loop (\<lambda>_. True) 1 0 [] p2 = (1, [8], snd (pipe_get p2))"
    using o by (cases "pipe_get p2", subst pipe_read_loop.simps, subst pipe_read_loop.simps) (simp add: pipe_is_empty_iff p2(3))
  then have "pipe_read 3 False (\<lambda>_. True) 1 p2 = (Returns 1, [8], (snd (pipe_get p2))\<lparr>writers := {}\<rparr>)"
    by (simp add: pipe_read_def pipe_is_empty_iff p2(3))
  from pipe_run_read [OF r1 [folded p2_def] p2(4) this]
  have r2: "pipe_run ((snd (pipe_get p2))\<lparr>writers := {}\<rparr>) [7, 8] [8] 1 {2}"
    using p2(5) by (simp add: copy_failed_def fails_at_def)
  obtain T where "[7, 8] = T @ pipe_contents ((snd (pipe_get p2))\<lparr>writers := {}\<rparr>)" "subseq [8] T" "length T = length [8 :: byte] + 1"
    using pipe_is_fifo [OF r2] by blast
  then show "\<exists>p T. pipe_run p [7, 8] [8] 1 {2} \<and> [7, 8] = T @ pipe_contents p \<and> subseq [8] T \<and> length T = 2"
    using r2 by (intro exI [of _ "(snd (pipe_get p2))\<lparr>writers := {}\<rparr>"] exI [of _ T]) simp
qed

text \<open>
  C17: \<^verbatim>\<open>pipe_read\<close> when data is there or the writing end is closed: it returns the number
  of bytes it could take, at most \<open>n\<close>, delivers exactly these in order and wakes the
  writers. When copying the byte number \<open>j\<close> to the user fails, the call returns \<open>j\<close> with the
  first \<open>j\<close> bytes delivered, but the byte \<open>j\<close> is lost: it is neither delivered nor left in
  the pipe.
\<close>

theorem pipe_read_takes_prefix:
  assumes "pipe_inv p" "\<not> (pipe_is_empty p \<and> write_open p)"
  shows "(\<exists>p'. pipe_read pid killed (\<lambda>_. True) n p =
      (Returns (int (min n (pipe_count p))), take n (pipe_contents p), p') \<and>
      pipe_contents p' = drop n (pipe_contents p) \<and> writers p' = {})
    \<and> (\<forall>j user_ok. j < n \<and> j < pipe_count p \<and> (\<forall>l<j. user_ok l) \<and> \<not> user_ok j \<longrightarrow>
        (\<exists>p'. pipe_read pid killed user_ok n p = (Returns (int j), take j (pipe_contents p), p') \<and>
          pipe_contents p' = drop (Suc j) (pipe_contents p)))"
proof (intro conjI allI impI)
  show "\<exists>p'. pipe_read pid killed (\<lambda>_. True) n p =
      (Returns (int (min n (pipe_count p))), take n (pipe_contents p), p') \<and>
      pipe_contents p' = drop n (pipe_contents p) \<and> writers p' = {}"
    using assms pipe_read_loop_ok [of p "\<lambda>_. True" 0 n "[]"] by (auto simp: pipe_read_def)
next
  fix j user_ok
  assume "j < n \<and> j < pipe_count p \<and> (\<forall>l<j. user_ok l) \<and> \<not> user_ok j"
  then show "\<exists>p'. pipe_read pid killed user_ok n p = (Returns (int j), take j (pipe_contents p), p') \<and>
      pipe_contents p' = drop (Suc j) (pipe_contents p)"
    using assms pipe_read_loop_fails [of p 0 j n user_ok "[]"] by (auto simp: pipe_read_def)
qed

definition two_bytes :: pipe where
  "two_bytes = pipe_put 8 (pipe_put 7 new_pipe)"

theorem pipe_read_takes_prefix_witness:
  "(\<exists>p'. pipe_read 1 False (\<lambda>_. True) 5 two_bytes =
      (Returns (int (min 5 (pipe_count two_bytes))), take 5 (pipe_contents two_bytes), p') \<and>
      pipe_contents p' = drop 5 (pipe_contents two_bytes) \<and> writers p' = {})"
  by (rule pipe_read_takes_prefix [THEN conjunct1])
     (simp_all add: two_bytes_def pipe_put_def new_pipe_def pipe_inv_def pipe_count_def
        pipe_is_empty_def PIPE_SIZE_def)

end
