(* ===== verification/Klist.thy ===== *)
theory Klist
  imports Vimix_Prelude
begin

text \<open>
  \<^verbatim>\<open>kernel/include/kernel/list.h\<close>: circular doubly linked lists on a heap of
  \<^verbatim>\<open>next\<close> and \<^verbatim>\<open>prev\<close> pointers. \<open>is_list m h xs\<close> relates a list head
  \<open>h\<close> in the heap \<open>m\<close> to the HOL list of its entries; the other theories work on such lists,
  which the lemmas here justify: every operation on the pointers is the operation on the list.
\<close>

section \<open>The code\<close>

record list_heap =
  nxt :: "nat \<Rightarrow> nat"
  prv :: "nat \<Rightarrow> nat"

definition list_init :: "nat \<Rightarrow> list_heap \<Rightarrow> list_heap" where
  "list_init h m = m\<lparr>nxt := (nxt m)(h := h), prv := (prv m)(h := h)\<rparr>"

text \<open>\<^verbatim>\<open>__list_add\<close>, with its four assignments in order.\<close>

definition list_add_between :: "nat \<Rightarrow> nat \<Rightarrow> nat \<Rightarrow> list_heap \<Rightarrow> list_heap" where
  "list_add_between new_item p n m =
     (let m1 = m\<lparr>prv := (prv m)(n := new_item)\<rparr>;
          m2 = m1\<lparr>nxt := (nxt m1)(new_item := n)\<rparr>;
          m3 = m2\<lparr>prv := (prv m2)(new_item := p)\<rparr>
      in m3\<lparr>nxt := (nxt m3)(p := new_item)\<rparr>)"

definition list_add :: "nat \<Rightarrow> nat \<Rightarrow> list_heap \<Rightarrow> list_heap" where
  "list_add new_item h m = list_add_between new_item h (nxt m h) m"

definition list_add_tail :: "nat \<Rightarrow> nat \<Rightarrow> list_heap \<Rightarrow> list_heap" where
  "list_add_tail new_item h m = list_add_between new_item (prv m h) h m"

definition list_del :: "nat \<Rightarrow> list_heap \<Rightarrow> list_heap" where
  "list_del e m =
     (let p = prv m e;
          n = nxt m e;
          m1 = m\<lparr>nxt := (nxt m)(p := n)\<rparr>;
          m2 = m1\<lparr>prv := (prv m1)(n := p)\<rparr>
      in list_init e m2)"

definition list_empty :: "nat \<Rightarrow> list_heap \<Rightarrow> bool" where
  "list_empty h m \<longleftrightarrow> nxt m h = h"

text \<open>
  The entries that \<^verbatim>\<open>list_for_each\<close> visits from \<open>pos\<close> on; a broken list may keep the loop
  running forever, which is \<open>None\<close>.
\<close>

partial_function (option) list_for_each :: "list_heap \<Rightarrow> nat \<Rightarrow> nat \<Rightarrow> nat list option" where
  "list_for_each m h pos =
     (if pos = h then Some []
      else Option.bind (list_for_each m h (nxt m pos)) (\<lambda>r. Some (pos # r)))"

section \<open>Lists in the heap\<close>

fun chain :: "list_heap \<Rightarrow> nat list \<Rightarrow> bool" where
  "chain m (a # b # r) \<longleftrightarrow> nxt m a = b \<and> prv m b = a \<and> chain m (b # r)"
| "chain m _ \<longleftrightarrow> True"

definition is_list :: "list_heap \<Rightarrow> nat \<Rightarrow> nat list \<Rightarrow> bool" where
  "is_list m h xs \<longleftrightarrow> distinct (h # xs) \<and> chain m (h # xs @ [h])"

lemma chain_append: "chain m (xs @ a # ys) \<longleftrightarrow> chain m (xs @ [a]) \<and> chain m (a # ys)"
proof (induction xs)
  case (Cons x xs)
  then show ?case by (cases xs) auto
qed simp

lemma chain_cong:
  "(\<And>a. a \<in> set (butlast xs) \<Longrightarrow> nxt m' a = nxt m a) \<Longrightarrow>
   (\<And>b. b \<in> set (tl xs) \<Longrightarrow> prv m' b = prv m b) \<Longrightarrow> chain m' xs = chain m xs"
proof (induction m xs rule: chain.induct)
  case (1 m a b r)
  have "chain m' (b # r) = chain m (b # r)"
  proof (rule "1.IH")
    show "nxt m' c = nxt m c" if "c \<in> set (butlast (b # r))" for c
      using "1.prems"(1) [of c] that by simp
    show "prv m' c = prv m c" if "c \<in> set (tl (b # r))" for c
      using "1.prems"(2) [of c] that by simp
  qed
  with "1.prems"(1) [of a] "1.prems"(2) [of b] show ?case by simp
qed simp_all

lemma is_listI: "distinct (h # xs) \<Longrightarrow> chain m (h # xs @ [h]) \<Longrightarrow> is_list m h xs"
  by (simp add: is_list_def)

lemma is_list_frame:
  assumes "is_list m h xs"
    and "\<And>a. a \<in> set (h # xs) \<Longrightarrow> nxt m' a = nxt m a \<and> prv m' a = prv m a"
  shows "is_list m' h xs"
proof -
  have "chain m' (h # xs @ [h]) = chain m (h # xs @ [h])"
    by (rule chain_cong) (use assms(2) in \<open>auto simp: butlast_append\<close>)
  with assms(1) show ?thesis by (simp add: is_list_def)
qed

lemma add_between_simps:
  assumes "e \<noteq> p" "e \<noteq> n"
  shows "nxt (list_add_between e p n m) = (nxt m)(e := n, p := e)"
    "prv (list_add_between e p n m) = (prv m)(n := e, e := p)"
  by (simp_all add: list_add_between_def)

text \<open>Inserting between two neighbours of a chain.\<close>

lemma chain_add_between:
  assumes "chain m (P @ p # n # N)" "e \<noteq> p" "e \<noteq> n" "e \<notin> set (P @ p # n # N)"
    "p \<notin> set P" "p \<notin> set (butlast (n # N))" "n \<notin> set (tl (P @ [p]))" "n \<notin> set N"
  shows "chain (list_add_between e p n m) (P @ p # e # n # N)"
proof -
  let ?m = "list_add_between e p n m"
  have m: "chain m (P @ [p])" "chain m (n # N)"
    using assms(1) chain_append [of m P p "n # N"] chain_append [of m "P @ [p]" n N] by auto
  have "chain ?m (P @ [p]) = chain m (P @ [p])"
    by (rule chain_cong)
       (use assms in \<open>auto simp: add_between_simps dest: list.set_sel(2) [rotated]\<close>)
  moreover have "chain ?m (n # N) = chain m (n # N)"
  proof (rule chain_cong)
    show "nxt ?m a = nxt m a" if "a \<in> set (butlast (n # N))" for a
      using in_set_butlastD [OF that] that assms by (auto simp: add_between_simps simp del: butlast.simps)
  qed (use assms in \<open>auto simp: add_between_simps\<close>)
  ultimately show ?thesis
    using m assms(2,3) chain_append [of ?m P p "e # n # N"] by (auto simp: add_between_simps)
qed

lemma list_add_is_list:
  assumes "is_list m h xs" "e \<notin> set (h # xs)"
  shows "is_list (list_add e h m) h (e # xs)"
proof -
  obtain n N where n: "xs @ [h] = n # N" by (cases "xs @ [h]") auto
  then have nx: "nxt m h = n" using assms(1) by (auto simp: is_list_def)
  have "chain (list_add_between e h n m) ([] @ h # e # n # N)"
    by (rule chain_add_between)
       (use assms n in \<open>cases xs; auto simp: is_list_def butlast_append\<close>)+
  then show ?thesis
    using assms n nx by (auto simp: is_list_def list_add_def)
qed

lemma list_add_tail_is_list:
  assumes "is_list m h xs" "e \<notin> set (h # xs)"
  shows "is_list (list_add_tail e h m) h (xs @ [e])"
proof -
  obtain P p where p: "h # xs = P @ [p]" by (cases "h # xs" rule: rev_cases) auto
  have ch: "chain m (P @ p # h # [])" using assms(1) p by (metis append_Cons append_assoc append_Nil is_list_def)
  then have pv: "prv m h = p" using chain_append [of m P p "[h]"] by simp
  have dist: "distinct (P @ [p])" using assms(1) p by (metis is_list_def)
  have tl: "h \<notin> set (tl (P @ [p]))" using assms(1) unfolding p [symmetric] by (simp add: is_list_def)
  have "chain (list_add_between e p h m) (P @ p # e # h # [])"
    by (rule chain_add_between [OF ch]) (use assms p dist tl in \<open>auto simp: append_eq_Cons_conv Cons_eq_append_conv\<close>)
  then have "chain (list_add_tail e h m) (h # (xs @ [e]) @ [h])"
    using p pv by (simp add: list_add_tail_def) (metis append_Cons append_assoc append_Nil)
  then show ?thesis using assms by (intro is_listI) (auto simp: is_list_def)
qed

lemma list_del_simps:
  assumes "e \<noteq> prv m e" "e \<noteq> nxt m e"
  shows "nxt (list_del e m) = (nxt m)(prv m e := nxt m e, e := e)"
    "prv (list_del e m) = (prv m)(nxt m e := prv m e, e := e)"
  using assms by (simp_all add: list_del_def list_init_def Let_def)

lemma list_del_is_list:
  assumes "is_list m h (xs @ e # ys)"
  shows "is_list (list_del e m) h (xs @ ys)" "is_list (list_del e m) e []"
proof -
  obtain P p where p: "h # xs = P @ [p]" by (cases "h # xs" rule: rev_cases) auto
  obtain n N where n: "ys @ [h] = n # N" by (cases "ys @ [h]") auto
  have dist: "distinct (h # xs @ e # ys)" using assms by (simp add: is_list_def)
  have "h # (xs @ e # ys) @ [h] = P @ p # e # n # N" using p n by simp
  then have ch: "chain m (P @ p # e # n # N)" using assms by (simp add: is_list_def)
  then have m: "chain m (P @ [p])" "nxt m p = e" "prv m e = p" "nxt m e = n" "prv m n = e" "chain m (n # N)"
    using chain_append [of m P p "e # n # N"] by auto
  have pin: "p \<in> set (h # xs)" by (simp only: p) simp
  have nin: "n \<in> set (ys @ [h])" by (simp only: n) simp
  have tlP: "tl (P @ [p]) = xs" using p by (metis list.sel(3))
  have blN: "butlast (n # N) = ys" using n by (metis butlast_snoc)
  have dN: "distinct (n # N)" using dist unfolding n [symmetric] by auto
  have dP: "distinct (P @ [p])" using dist unfolding p [symmetric] by auto
  have setN: "set (n # N) = set ys \<union> {h}" unfolding n [symmetric] by simp
  have setP: "set (P @ [p]) = insert h (set xs)" unfolding p [symmetric] by simp
  have ne: "e \<noteq> p" "e \<noteq> n" using dist pin nin by auto
  let ?m = "list_del e m"
  have s: "nxt ?m = (nxt m)(p := n, e := e)" "prv ?m = (prv m)(n := p, e := e)"
    using list_del_simps [of e m] ne m by auto
  have "chain ?m (P @ [p]) = chain m (P @ [p])"
  proof (rule chain_cong)
    show "nxt ?m a = nxt m a" if "a \<in> set (butlast (P @ [p]))" for a
      using that dP dist setP by (auto simp: s)
    show "prv ?m a = prv m a" if "a \<in> set (tl (P @ [p]))" for a
      using that dist nin by (auto simp: s tlP)
  qed
  moreover have "chain ?m (n # N) = chain m (n # N)"
  proof (rule chain_cong)
    show "nxt ?m a = nxt m a" if "a \<in> set (butlast (n # N))" for a
      using that [unfolded blN] dist pin by (auto simp: s)
    show "prv ?m a = prv m a" if "a \<in> set (tl (n # N))" for a
      using that dN dist setN by (auto simp: s)
  qed
  ultimately have "chain ?m (P @ p # n # N)"
    using m ne chain_append [of ?m P p "n # N"] by (simp add: s)
  moreover have "h # (xs @ ys) @ [h] = P @ p # n # N" using p n by simp
  ultimately show "is_list ?m h (xs @ ys)" using dist by (auto simp: is_list_def)
  show "is_list ?m e []" using s by (simp add: is_list_def)
qed

lemma list_empty_iff: "is_list m h xs \<Longrightarrow> list_empty h m \<longleftrightarrow> xs = []"
  by (cases xs) (auto simp: is_list_def list_empty_def)

lemma list_for_each_chain:
  "chain m (xs @ [h]) \<Longrightarrow> h \<notin> set xs \<Longrightarrow> list_for_each m h (hd (xs @ [h])) = Some xs"
proof (induction xs)
  case (Cons x xs)
  then have "list_for_each m h (hd (xs @ [h])) = Some xs" by (cases xs) auto
  moreover have "nxt m x = hd (xs @ [h])" using Cons.prems by (cases xs) auto
  ultimately show ?case using Cons.prems by (simp add: list_for_each.simps [of m h x])
qed (simp add: list_for_each.simps)

lemma list_for_each_all: "is_list m h xs \<Longrightarrow> list_for_each m h (nxt m h) = Some xs"
proof -
  assume l: "is_list m h xs"
  then have "chain m (xs @ [h])" "nxt m h = hd (xs @ [h])" "h \<notin> set xs"
    by (cases xs; auto simp: is_list_def)+
  with list_for_each_chain [of m xs h] show ?thesis by simp
qed

text \<open>Operations on one list leave all lists alone that share no entry with it.\<close>

lemma chain_nxt: "chain m ys \<Longrightarrow> a \<in> set (butlast ys) \<Longrightarrow> nxt m a \<in> set (tl ys)"
  by (induction m ys rule: chain.induct) (auto split: if_splits)

lemma chain_prv: "chain m ys \<Longrightarrow> b \<in> set (tl ys) \<Longrightarrow> prv m b \<in> set (butlast ys)"
  by (induction m ys rule: chain.induct) (auto split: if_splits)

lemma in_list:
  assumes "is_list m h xs" "a \<in> set (h # xs)"
  shows "nxt m a \<in> set (h # xs)" "prv m a \<in> set (h # xs)"
proof -
  have c: "chain m (h # xs @ [h])" using assms(1) by (simp add: is_list_def)
  have "butlast (h # xs @ [h]) = h # xs" by (simp add: butlast_append)
  with chain_nxt [OF c, of a] chain_prv [OF c, of a] assms(2)
  show "nxt m a \<in> set (h # xs)" "prv m a \<in> set (h # xs)" by auto
qed

lemma list_add_between_frame:
  assumes "is_list m h' ys" "e \<notin> set (h' # ys)" "p \<notin> set (h' # ys)" "n \<notin> set (h' # ys)"
  shows "is_list (list_add_between e p n m) h' ys"
  by (rule is_list_frame [OF assms(1)]) (use assms in \<open>auto simp: list_add_between_def\<close>)

lemma list_add_frame:
  assumes "is_list m h xs" "is_list m h' ys" "set (h # xs) \<inter> set (h' # ys) = {}" "e \<notin> set (h' # ys)"
  shows "is_list (list_add e h m) h' ys" "is_list (list_add_tail e h m) h' ys"
proof -
  have "h \<notin> set (h' # ys)" "nxt m h \<notin> set (h' # ys)" "prv m h \<notin> set (h' # ys)"
    using in_list [OF assms(1), of h] assms(3) by auto
  with list_add_between_frame [OF assms(2,4)]
  show "is_list (list_add e h m) h' ys" "is_list (list_add_tail e h m) h' ys"
    unfolding list_add_def list_add_tail_def by blast+
qed

lemma list_del_frame:
  assumes "is_list m h xs" "e \<in> set xs" "is_list m h' ys" "set (h # xs) \<inter> set (h' # ys) = {}"
  shows "is_list (list_del e m) h' ys"
  by (rule is_list_frame [OF assms(3)])
     (use in_list [OF assms(1), of e] assms in \<open>auto simp: list_del_def list_init_def Let_def\<close>)

section \<open>The interface of linked lists\<close>

locale linked_lists =
  fixes rep :: "'s \<Rightarrow> 'a \<Rightarrow> 'a list \<Rightarrow> bool"
    and add :: "'a \<Rightarrow> 'a \<Rightarrow> 's \<Rightarrow> 's"
    and add_tail :: "'a \<Rightarrow> 'a \<Rightarrow> 's \<Rightarrow> 's"
    and del :: "'a \<Rightarrow> 's \<Rightarrow> 's"
  assumes rep_distinct: "rep s h xs \<Longrightarrow> distinct (h # xs)"
    and rep_add: "rep s h xs \<Longrightarrow> e \<notin> set (h # xs) \<Longrightarrow> rep (add e h s) h (e # xs)"
    and rep_add_tail: "rep s h xs \<Longrightarrow> e \<notin> set (h # xs) \<Longrightarrow> rep (add_tail e h s) h (xs @ [e])"
    and rep_del: "rep s h (xs @ e # ys) \<Longrightarrow> rep (del e s) h (xs @ ys)"
    and add_frame: "rep s h xs \<Longrightarrow> rep s h' ys \<Longrightarrow> set (h # xs) \<inter> set (h' # ys) = {} \<Longrightarrow>
          e \<notin> set (h' # ys) \<Longrightarrow> rep (add e h s) h' ys \<and> rep (add_tail e h s) h' ys"
    and del_frame: "rep s h xs \<Longrightarrow> e \<in> set xs \<Longrightarrow> rep s h' ys \<Longrightarrow>
          set (h # xs) \<inter> set (h' # ys) = {} \<Longrightarrow> rep (del e s) h' ys"
begin

text \<open>Moving an entry to the front of its own list, and to another list.\<close>

lemma move_to_front: "rep s h (xs @ e # ys) \<Longrightarrow> rep (add e h (del e s)) h (e # xs @ ys)"
  using rep_distinct [of s h "xs @ e # ys"] by (intro rep_add rep_del) auto

lemma move_between:
  assumes "rep s h (xs @ e # ys)" "rep s h' zs" "set (h # xs @ e # ys) \<inter> set (h' # zs) = {}"
  shows "rep (add e h' (del e s)) h (xs @ ys)" "rep (add e h' (del e s)) h' (e # zs)"
proof -
  have h: "rep (del e s) h (xs @ ys)" "rep (del e s) h' zs"
    using rep_del [OF assms(1)] del_frame [OF assms(1) _ assms(2,3)] by auto
  show "rep (add e h' (del e s)) h (xs @ ys)"
    by (rule add_frame [OF h(2,1), THEN conjunct1])
       (use assms(3) rep_distinct [OF assms(1)] in auto)
  show "rep (add e h' (del e s)) h' (e # zs)"
    by (rule rep_add [OF h(2)]) (use assms(3) in auto)
qed

lemma move_between_frame:
  assumes "rep s h (xs @ e # ys)" "rep s h' zs" "rep s k ws"
    "set (h # xs @ e # ys) \<inter> set (k # ws) = {}" "set (h' # zs) \<inter> set (k # ws) = {}"
    "set (h # xs @ e # ys) \<inter> set (h' # zs) = {}"
  shows "rep (add e h' (del e s)) k ws"
proof -
  have "rep (del e s) k ws" "rep (del e s) h' zs"
    using del_frame [OF assms(1) _ assms(3,4)] del_frame [OF assms(1) _ assms(2,6)] by auto
  then show ?thesis
    using add_frame [of "del e s" h' zs k ws e] assms(4,5) by auto
qed

end

interpretation klist: linked_lists is_list list_add list_add_tail list_del
proof unfold_locales
  show "distinct (h # xs)" if "is_list s h xs" for s h xs
    using that by (simp add: is_list_def)
  show "is_list (list_add e h s) h (e # xs)" if "is_list s h xs" "e \<notin> set (h # xs)" for s h xs e
    using that by (rule list_add_is_list)
  show "is_list (list_add_tail e h s) h (xs @ [e])" if "is_list s h xs" "e \<notin> set (h # xs)" for s h xs e
    using that by (rule list_add_tail_is_list)
  show "is_list (list_del e s) h (xs @ ys)" if "is_list s h (xs @ e # ys)" for s h xs e ys
    using that by (rule list_del_is_list)
  show "is_list (list_add e h s) h' ys \<and> is_list (list_add_tail e h s) h' ys"
    if "is_list s h xs" "is_list s h' ys" "set (h # xs) \<inter> set (h' # ys) = {}" "e \<notin> set (h' # ys)"
    for s h xs h' ys e
    using list_add_frame [OF that] by simp
  show "is_list (list_del e s) h' ys"
    if "is_list s h xs" "e \<in> set xs" "is_list s h' ys" "set (h # xs) \<inter> set (h' # ys) = {}"
    for s h xs e h' ys
    using that by (rule list_del_frame)
qed

section \<open>Properties\<close>

text \<open>
  C8: The pointer operations of \<^verbatim>\<open>list.h\<close> implement list operations: on a heap where
  \<open>h\<close> and \<open>h'\<close> head disjoint lists, adding a fresh entry puts it first or last, deleting an
  entry removes exactly it and leaves it self-linked, and taking an entry out of one list and
  adding it to the other moves it; a third list that shares no entry is untouched. The loop
  \<^verbatim>\<open>list_for_each\<close> ends and visits exactly the entries in order.
\<close>

theorem list_operations_refine:
  assumes "is_list m h (xs @ e # ys)" "is_list m h' zs" "is_list m k ws"
    "set (h # xs @ e # ys) \<inter> set (h' # zs) = {}"
    "set (h # xs @ e # ys) \<inter> set (k # ws) = {}" "set (h' # zs) \<inter> set (k # ws) = {}"
    "x \<notin> set (h # xs @ e # ys)"
  shows "is_list (list_add x h m) h (x # xs @ e # ys) \<and>
    is_list (list_add_tail x h m) h ((xs @ e # ys) @ [x]) \<and>
    is_list (list_del e m) h (xs @ ys) \<and> is_list (list_del e m) e [] \<and>
    (let m' = list_add e h' (list_del e m) in
       is_list m' h (xs @ ys) \<and> is_list m' h' (e # zs) \<and> is_list m' k ws \<and>
       list_for_each m' h' (nxt m' h') = Some (e # zs) \<and> (list_empty h m' \<longleftrightarrow> xs @ ys = []))"
  using list_add_is_list [OF assms(1,7)] list_add_tail_is_list [OF assms(1,7)]
    list_del_is_list [OF assms(1)] klist.move_between [OF assms(1,2,4)]
    klist.move_between_frame [OF assms(1,2,3,5,6,4)]
  by (simp add: Let_def list_for_each_all list_empty_iff)

definition three_heads :: list_heap where
  "three_heads = list_add 4 1 (list_init 3 (list_init 2 (list_init 1 \<lparr>nxt = id, prv = id\<rparr>)))"

theorem list_operations_refine_witness:
  "is_list three_heads 1 ([] @ 4 # []) \<and>
   (let m' = list_add 4 2 (list_del 4 three_heads) in is_list m' 1 [] \<and> is_list m' 2 [4] \<and> is_list m' 3 [])"
proof -
  have l: "is_list three_heads 1 ([] @ 4 # [])" "is_list three_heads 2 []" "is_list three_heads 3 []"
    by (simp_all add: three_heads_def is_list_def list_add_def list_add_between_def list_init_def)
  then show ?thesis
    using list_operations_refine [OF l, of 5] by (simp add: Let_def)
qed

end
