(* ===== verification/Buddy.thy ===== *)
theory Buddy
  imports Vimix_Prelude
begin

text \<open>
  The page allocator of \<^verbatim>\<open>kernel/mm/kalloc.c\<close>: a buddy allocator over free lists of
  blocks of 2^0 to 2^\<^verbatim>\<open>PAGE_ALLOC_MAX_ORDER\<close> pages. A free list is the HOL list of
  the addresses of its blocks from \<^verbatim>\<open>head->next\<close> on; \<^verbatim>\<open>list_add\<close> puts a block in
  front. Addresses are \<open>nat\<close>: the memory regions end below 2^64.
\<close>

section \<open>The interface of an allocator\<close>

text \<open>
  What the clients of an allocator rely on: \<open>avail\<close> is the memory it holds, a piece \<open>p\<close>
  that it hands out covers \<open>ext p\<close> of it, and taking a piece back restores it. The lemmas give
  the consequences for clients that hold a set of live pieces.
\<close>

locale allocator =
  fixes inv :: "'s \<Rightarrow> bool"
    and avail :: "'s \<Rightarrow> 'a set"
    and valid :: "'p \<Rightarrow> bool"
    and ext :: "'p \<Rightarrow> 'a set"
    and alloc :: "'s \<Rightarrow> 'p \<Rightarrow> 's \<Rightarrow> bool"
    and release :: "'s \<Rightarrow> 'p \<Rightarrow> 's \<Rightarrow> bool"
  assumes alloc_law: "inv s \<Longrightarrow> alloc s p s' \<Longrightarrow>
      inv s' \<and> valid p \<and> ext p \<subseteq> avail s \<and> avail s' = avail s - ext p"
    and release_law: "inv s \<Longrightarrow> valid p \<Longrightarrow> ext p \<inter> avail s = {} \<Longrightarrow> release s p s' \<Longrightarrow>
      inv s' \<and> avail s' = avail s \<union> ext p"
    and ext_nonempty: "valid p \<Longrightarrow> ext p \<noteq> {}"
begin

definition consistent :: "'a set \<Rightarrow> 's \<Rightarrow> 'p set \<Rightarrow> bool" where
  "consistent U s live \<longleftrightarrow> inv s \<and> finite live \<and>
     (\<forall>p\<in>live. valid p \<and> ext p \<inter> avail s = {}) \<and>
     (\<forall>p\<in>live. \<forall>q\<in>live. p \<noteq> q \<longrightarrow> ext p \<inter> ext q = {}) \<and>
     avail s \<union> (\<Union>p\<in>live. ext p) = U"

lemma consistent_init: "inv s \<Longrightarrow> avail s = U \<Longrightarrow> consistent U s {}"
  by (simp add: consistent_def)

lemma consistent_avail: "consistent U s live \<Longrightarrow> avail s = U - (\<Union>p\<in>live. ext p)"
  by (auto simp: consistent_def)

lemma consistent_inv: "consistent U s live \<Longrightarrow> inv s"
  by (simp add: consistent_def)

lemma consistentD:
  assumes "consistent U s live"
  shows "inv s" "finite live" "q \<in> live \<Longrightarrow> valid q" "q \<in> live \<Longrightarrow> ext q \<inter> avail s = {}"
    "q \<in> live \<Longrightarrow> r \<in> live \<Longrightarrow> q \<noteq> r \<Longrightarrow> ext q \<inter> ext r = {}"
    "avail s \<union> (\<Union>p\<in>live. ext p) = U"
  using assms by (simp_all add: consistent_def)

lemma consistent_alloc:
  assumes "consistent U s live" "alloc s p s'"
  shows "consistent U s' (insert p live)" "p \<notin> live"
proof -
  note c = consistentD [OF assms(1)]
  have law: "inv s'" "valid p" "ext p \<subseteq> avail s" "avail s' = avail s - ext p"
    using alloc_law [OF c(1) assms(2)] by auto
  have dis: "ext q \<inter> ext p = {}" "ext p \<inter> ext q = {}" if "q \<in> live" for q
    using c(4) [OF that] law(3) by auto
  have "ext q \<inter> avail s' = {}" if "q \<in> insert p live" for q
    using that c(4) [of q] by (auto simp: law(4))
  moreover have "ext q \<inter> ext r = {}" if "q \<in> insert p live" "r \<in> insert p live" "q \<noteq> r" for q r
    using that c(5) [of q r] dis by auto
  moreover have "avail s' \<union> (\<Union>q\<in>insert p live. ext q) = U"
    unfolding c(6) [symmetric] law(4) using law(3) by auto
  ultimately show "consistent U s' (insert p live)"
    unfolding consistent_def using law c by auto
  show "p \<notin> live" using dis [of p] ext_nonempty [OF law(2)] by auto
qed

lemma consistent_release:
  assumes "consistent U s live" "p \<in> live" "release s p s'"
  shows "consistent U s' (live - {p})"
proof -
  note c = consistentD [OF assms(1)]
  have law: "inv s'" "avail s' = avail s \<union> ext p"
    using release_law [OF c(1) c(3) [OF assms(2)] c(4) [OF assms(2)] assms(3)] by auto
  have "ext q \<inter> avail s' = {}" if "q \<in> live - {p}" for q
    using that c(4) [of q] c(5) [of q p] assms(2) by (auto simp: law(2))
  moreover have "avail s' \<union> (\<Union>q\<in>live - {p}. ext q) = U"
    unfolding c(6) [symmetric] law(2) using assms(2) by auto
  ultimately show ?thesis
    unfolding consistent_def using law c by auto
qed

end

section \<open>The code\<close>

definition PAGE_SIZE :: nat where
  "PAGE_SIZE = 4096"

definition PAGE_ALLOC_MAX_ORDER :: nat where
  "PAGE_ALLOC_MAX_ORDER = 9"

record kernel_memory =
  list_of_free_memory :: "nat \<Rightarrow> nat list"
  pages_allocated :: int

text \<open>\<^verbatim>\<open>__alloc_pages\<close>; \<open>None\<close> is the null pointer.\<close>

function alloc_pages_locked :: "nat \<Rightarrow> kernel_memory \<Rightarrow> nat option \<times> kernel_memory" where
  "alloc_pages_locked order g =
     (if order > PAGE_ALLOC_MAX_ORDER then (None, g)
      else case list_of_free_memory g order of
             memory_block # rest \<Rightarrow>
               (Some memory_block,
                g\<lparr>list_of_free_memory := (list_of_free_memory g)(order := rest)\<rparr>)
           | [] \<Rightarrow>
               (case alloc_pages_locked (order + 1) g of
                  (None, g') \<Rightarrow> (None, g')
                | (Some double_alloc, g') \<Rightarrow>
                    (Some double_alloc,
                     g'\<lparr>list_of_free_memory := (list_of_free_memory g')
                          (order := (double_alloc + 2 ^ order * PAGE_SIZE)
                                      # list_of_free_memory g' order)\<rparr>)))"
  by pat_completeness auto
termination
  by (relation "measure (\<lambda>(order, g). PAGE_ALLOC_MAX_ORDER + 1 - order)") auto

declare alloc_pages_locked.simps [simp del]

definition alloc_pages :: "nat \<Rightarrow> kernel_memory \<Rightarrow> nat option \<times> kernel_memory" where
  "alloc_pages order g =
     (case alloc_pages_locked order g of
        (None, g') \<Rightarrow> (None, g')
      | (Some p, g') \<Rightarrow> (Some p, g'\<lparr>pages_allocated := pages_allocated g' + 2 ^ order\<rparr>))"

definition get_specific_page :: "nat \<Rightarrow> nat \<Rightarrow> kernel_memory \<Rightarrow> nat option \<times> kernel_memory" where
  "get_specific_page pa order g =
     (if order > PAGE_ALLOC_MAX_ORDER then (None, g)
      else if pa \<in> set (list_of_free_memory g order)
      then (Some pa, g\<lparr>list_of_free_memory :=
              (list_of_free_memory g)(order := remove1 pa (list_of_free_memory g order))\<rparr>)
      else (None, g))"

text \<open>\<^verbatim>\<open>__free_pages\<close>\<close>

function free_pages_locked :: "nat \<Rightarrow> nat \<Rightarrow> kernel_memory \<Rightarrow> kernel_memory" where
  "free_pages_locked pa order g =
     (if order < PAGE_ALLOC_MAX_ORDER then
        let buddy_address = pa XOR 2 ^ (12 + order) in
        case get_specific_page buddy_address order g of
          (Some buddy, g') \<Rightarrow> free_pages_locked (min pa buddy) (order + 1) g'
        | (None, g') \<Rightarrow>
            g'\<lparr>list_of_free_memory :=
                 (list_of_free_memory g')(order := pa # list_of_free_memory g' order)\<rparr>
      else g\<lparr>list_of_free_memory :=
               (list_of_free_memory g)(order := pa # list_of_free_memory g order)\<rparr>)"
  by pat_completeness auto
termination
  by (relation "measure (\<lambda>(pa, order, g). PAGE_ALLOC_MAX_ORDER - order)") auto

declare free_pages_locked.simps [simp del]

definition free_pages :: "nat \<Rightarrow> nat \<Rightarrow> kernel_memory \<Rightarrow> kernel_memory option" where
  "free_pages kva order g =
     (if order > PAGE_ALLOC_MAX_ORDER then None
      else let g' = free_pages_locked kva order g
           in Some (g'\<lparr>pages_allocated := pages_allocated g' - 2 ^ order\<rparr>))"

primrec free_range :: "nat \<Rightarrow> nat \<Rightarrow> kernel_memory \<Rightarrow> kernel_memory" where
  "free_range kva 0 g = g"
| "free_range kva (Suc n) g = free_range (kva + PAGE_SIZE) n (free_pages_locked kva 0 g)"

definition free_pages_range :: "nat \<Rightarrow> nat \<Rightarrow> kernel_memory \<Rightarrow> kernel_memory" where
  "free_pages_range kva page_count g =
     (let g' = free_range kva page_count g
      in g'\<lparr>pages_allocated := pages_allocated g' - int page_count\<rparr>)"

text \<open>The inner loop of \<^verbatim>\<open>kalloc_init_memory_region\<close>: the order an address is aligned to.\<close>

function addr_order :: "nat \<Rightarrow> nat \<Rightarrow> nat" where
  "addr_order tmp order =
     (if even tmp \<and> order < PAGE_ALLOC_MAX_ORDER then addr_order (tmp div 2) (order + 1) else order)"
  by pat_completeness auto
termination
  by (relation "measure (\<lambda>(tmp, order). PAGE_ALLOC_MAX_ORDER - order)") auto

declare addr_order.simps [simp del]

lemma addr_order_le: "k \<le> PAGE_ALLOC_MAX_ORDER \<Longrightarrow> addr_order t k \<le> PAGE_ALLOC_MAX_ORDER"
  by (induction t k rule: addr_order.induct) (subst addr_order.simps, simp)

function kalloc_init_memory_region :: "nat \<Rightarrow> nat \<Rightarrow> kernel_memory \<Rightarrow> kernel_memory option" where
  "kalloc_init_memory_region addr mem_end g =
     (if addr < mem_end then
        let order = addr_order (addr div PAGE_SIZE) 0;
            new_addr = addr + PAGE_SIZE * 2 ^ order
        in if new_addr \<le> mem_end
           then case free_pages addr order (g\<lparr>pages_allocated := pages_allocated g + 2 ^ order\<rparr>) of
                  None \<Rightarrow> None
                | Some g' \<Rightarrow> kalloc_init_memory_region (addr + PAGE_SIZE * 2 ^ order) mem_end g'
           else case free_pages addr 0 (g\<lparr>pages_allocated := pages_allocated g + 1\<rparr>) of
                  None \<Rightarrow> None
                | Some g' \<Rightarrow> kalloc_init_memory_region (addr + PAGE_SIZE) mem_end g'
      else Some g)"
  by pat_completeness auto
termination
  by (relation "measure (\<lambda>(addr, mem_end, g). mem_end - addr)")
     (auto simp: PAGE_SIZE_def intro!: diff_less_mono2)

declare kalloc_init_memory_region.simps [simp del]

definition empty_memory :: kernel_memory where
  "empty_memory = \<lparr>list_of_free_memory = (\<lambda>_. []), pages_allocated = 0\<rparr>"

definition kalloc_get_free_memory :: "kernel_memory \<Rightarrow> nat" where
  "kalloc_get_free_memory g =
     (\<Sum>i\<leftarrow>[0..<PAGE_ALLOC_MAX_ORDER + 1]. \<Sum>b\<leftarrow>list_of_free_memory g i. 2 ^ i) * PAGE_SIZE"

section \<open>Blocks\<close>

definition SZ :: "nat \<Rightarrow> nat" where
  "SZ k = 2 ^ (12 + k)"

definition block :: "nat \<Rightarrow> nat \<Rightarrow> nat set" where
  "block a k = {a..<a + SZ k}"

lemma SZ_pos [simp]: "0 < SZ k" "SZ k \<noteq> 0"
  by (simp_all add: SZ_def)

lemma SZ_Suc: "SZ (Suc k) = 2 * SZ k"
  by (simp only: SZ_def add_Suc_right power_Suc)

lemma SZ_eq: "2 ^ k * PAGE_SIZE = SZ k" "PAGE_SIZE * 2 ^ k = SZ k"
  by (simp_all add: SZ_def PAGE_SIZE_def power_add)

lemma SZ_add: "SZ (k + d) = SZ k * 2 ^ d"
  by (simp add: SZ_def power_add)

lemma in_block: "SZ k dvd a \<Longrightarrow> x \<in> block a k \<longleftrightarrow> x div SZ k = a div SZ k"
proof -
  assume "SZ k dvd a"
  then obtain q where a: "a = SZ k * q" by (elim dvdE)
  show ?thesis
    unfolding a block_def
    by (auto simp: algebra_simps dividend_less_times_div intro!: div_nat_eqI)
qed

lemma block_mem: "a \<in> block a k"
  by (simp add: block_def)

lemma block_nonempty: "block a k \<noteq> {}"
  by (simp add: block_def)

lemma block_nested:
  assumes "SZ k dvd a" "SZ j dvd b" "k \<le> j" "block a k \<inter> block b j \<noteq> {}"
  shows "block a k \<subseteq> block b j"
proof
  fix y assume "y \<in> block a k"
  obtain x where x: "x \<in> block a k" "x \<in> block b j" using assms(4) by auto
  have "SZ j = SZ k * 2 ^ (j - k)" using SZ_add [of k "j - k"] assms(3) by simp
  then have "y div SZ j = (y div SZ k) div 2 ^ (j - k)" "x div SZ j = (x div SZ k) div 2 ^ (j - k)"
    by (simp_all add: div_mult2_eq)
  with x \<open>y \<in> block a k\<close> assms show "y \<in> block b j" by (simp add: in_block)
qed

lemma block_eq:
  assumes "SZ k dvd a" "SZ k dvd b" "block a k \<inter> block b k \<noteq> {}"
  shows "a = b"
  using assms by (auto simp: in_block dvd_div_eq_iff)

text \<open>The parent of a block is the block of the next order that contains it.\<close>

definition parent :: "nat \<Rightarrow> nat \<Rightarrow> nat" where
  "parent a k = min a (a XOR SZ k)"

lemma xor_SZ: "a XOR SZ k = (if odd (a div SZ k) then a - SZ k else a + SZ k)"
proof -
  have up: "b XOR 2 ^ n = b + 2 ^ n" if "even (b div 2 ^ n)" for b n :: nat
  proof -
    have "\<not> bit b n" using that by (simp add: bit_iff_odd)
    then have "b XOR 2 ^ n = b OR 2 ^ n"
      by (intro bit_eqI) (auto simp: bit_xor_iff bit_or_iff bit_exp_iff)
    also have "\<dots> = b + 2 ^ n"
      using set_bit_eq [of n b] \<open>\<not> bit b n\<close> by (simp add: set_bit_eq_or push_bit_eq_mult)
    finally show ?thesis .
  qed
  show ?thesis
  proof (cases "odd (a div SZ k)")
    case True
    then have le: "SZ k \<le> a" by (metis div_less even_zero not_le)
    then have "(a - SZ k) div SZ k = a div SZ k - 1" by (simp add: le_div_geq)
    then have "even ((a - SZ k) div SZ k)" using True by simp
    then have "(a - SZ k) XOR SZ k = a" using up [of "a - SZ k" "12 + k"] le by (simp add: SZ_def)
    then have "((a - SZ k) XOR SZ k) XOR SZ k = a XOR SZ k" by simp
    then show ?thesis using True by (simp add: xor.assoc)
  qed (use up [of a "12 + k"] in \<open>simp add: SZ_def\<close>)
qed

lemma buddy_facts:
  assumes "SZ k dvd a"
  defines "b \<equiv> a XOR SZ k"
  shows "SZ k dvd b" "SZ (Suc k) dvd min a b" "block (min a b) (Suc k) = block a k \<union> block b k"
    "block a k \<inter> block b k = {}" "b XOR SZ k = a" "b \<noteq> a"
proof -
  obtain q where a: "a = SZ k * q" using assms(1) by (elim dvdE)
  have b: "b = (if odd q then a - SZ k else a + SZ k)" by (simp add: b_def xor_SZ a)
  show "SZ k dvd b" using assms(1) b by auto
  show "b XOR SZ k = a" by (simp add: b_def xor.assoc)
  have "(if odd q then b + SZ k = a else a + SZ k = b)"
    unfolding b a by (cases q) (auto simp: algebra_simps)
  then show "block (min a b) (Suc k) = block a k \<union> block b k" "block a k \<inter> block b k = {}" "b \<noteq> a"
    by (auto simp: block_def SZ_Suc min_def split: if_splits)
  have "min a b = SZ k * (if odd q then q - 1 else q)"
    unfolding b a by (cases q) (auto simp: algebra_simps min_def)
  then show "SZ (Suc k) dvd min a b"
    by (auto simp: SZ_Suc mult.commute [of 2] elim!: evenE oddE)
qed

lemma block_split:
  "SZ (Suc k) dvd a \<Longrightarrow> SZ k dvd a \<and> SZ k dvd a + SZ k \<and> a XOR SZ k = a + SZ k \<and>
     block a (Suc k) = block a k \<union> block (a + SZ k) k \<and> block a k \<inter> block (a + SZ k) k = {}"
  by (auto simp: block_def SZ_Suc xor_SZ elim!: dvdE)

section \<open>The invariant of the free lists\<close>

definition free_blocks :: "kernel_memory \<Rightarrow> (nat \<times> nat) set" where
  "free_blocks g = {(a, k). k \<le> PAGE_ALLOC_MAX_ORDER \<and> a \<in> set (list_of_free_memory g k)}"

definition free_set :: "kernel_memory \<Rightarrow> nat set" where
  "free_set g = (\<Union>(a, k)\<in>free_blocks g. block a k)"

text \<open>
  Blocks are aligned to their size, no block is listed twice, blocks do not overlap, and no
  two buddies are both free.
\<close>

definition buddy_inv :: "kernel_memory \<Rightarrow> bool" where
  "buddy_inv g \<longleftrightarrow>
     (\<forall>a k. (a, k) \<in> free_blocks g \<longrightarrow> SZ k dvd a) \<and>
     (\<forall>k\<le>PAGE_ALLOC_MAX_ORDER. distinct (list_of_free_memory g k)) \<and>
     (\<forall>a k b j. (a, k) \<in> free_blocks g \<longrightarrow> (b, j) \<in> free_blocks g \<longrightarrow> (a, k) \<noteq> (b, j) \<longrightarrow>
        block a k \<inter> block b j = {}) \<and>
     (\<forall>a k. (a, k) \<in> free_blocks g \<longrightarrow> k < PAGE_ALLOC_MAX_ORDER \<longrightarrow> (a XOR SZ k, k) \<notin> free_blocks g)"

lemma buddy_invD:
  assumes "buddy_inv g"
  shows "(a, k) \<in> free_blocks g \<Longrightarrow> SZ k dvd a"
    "k \<le> PAGE_ALLOC_MAX_ORDER \<Longrightarrow> distinct (list_of_free_memory g k)"
    "(a, k) \<in> free_blocks g \<Longrightarrow> (b, j) \<in> free_blocks g \<Longrightarrow> block a k \<inter> block b j \<noteq> {} \<Longrightarrow>
       a = b \<and> k = j"
    "(a, k) \<in> free_blocks g \<Longrightarrow> k < PAGE_ALLOC_MAX_ORDER \<Longrightarrow> (a XOR SZ k, k) \<notin> free_blocks g"
  using assms unfolding buddy_inv_def by blast+

lemma buddy_invI:
  assumes "\<And>a k. (a, k) \<in> free_blocks g \<Longrightarrow> SZ k dvd a"
    "\<And>k. k \<le> PAGE_ALLOC_MAX_ORDER \<Longrightarrow> distinct (list_of_free_memory g k)"
    "\<And>x y. x \<in> free_blocks g \<Longrightarrow> y \<in> free_blocks g \<Longrightarrow> x \<noteq> y \<Longrightarrow>
       block (fst x) (snd x) \<inter> block (fst y) (snd y) = {}"
    "\<And>a k. (a, k) \<in> free_blocks g \<Longrightarrow> k < PAGE_ALLOC_MAX_ORDER \<Longrightarrow> (a XOR SZ k, k) \<notin> free_blocks g"
  shows "buddy_inv g"
  unfolding buddy_inv_def using assms by fastforce

definition push :: "nat \<Rightarrow> nat \<Rightarrow> kernel_memory \<Rightarrow> kernel_memory" where
  "push a k g =
     g\<lparr>list_of_free_memory := (list_of_free_memory g)(k := a # list_of_free_memory g k)\<rparr>"

definition pull :: "nat \<Rightarrow> nat \<Rightarrow> kernel_memory \<Rightarrow> kernel_memory" where
  "pull a k g =
     g\<lparr>list_of_free_memory := (list_of_free_memory g)(k := remove1 a (list_of_free_memory g k))\<rparr>"

definition free_page_count :: "kernel_memory \<Rightarrow> nat" where
  "free_page_count g = (\<Sum>k\<le>PAGE_ALLOC_MAX_ORDER. length (list_of_free_memory g k) * 2 ^ k)"

lemma block_free: "(a, k) \<in> free_blocks g \<Longrightarrow> block a k \<subseteq> free_set g"
  by (auto simp: free_set_def)

lemma free_blocks_push:
  "k \<le> PAGE_ALLOC_MAX_ORDER \<Longrightarrow> free_blocks (push a k g) = insert (a, k) (free_blocks g)"
  by (auto simp: free_blocks_def push_def split: if_splits)

lemma free_blocks_pull:
  "buddy_inv g \<Longrightarrow> k \<le> PAGE_ALLOC_MAX_ORDER \<Longrightarrow> free_blocks (pull a k g) = free_blocks g - {(a, k)}"
  using buddy_invD(2) [of g k] by (auto simp: free_blocks_def pull_def split: if_splits)

lemma push_pages [simp]: "pages_allocated (push a k g) = pages_allocated g"
  by (simp add: push_def)

lemma pull_pages [simp]: "pages_allocated (pull a k g) = pages_allocated g"
  by (simp add: pull_def)

lemma free_page_count_upd:
  assumes "k \<le> PAGE_ALLOC_MAX_ORDER"
  shows "free_page_count (g\<lparr>list_of_free_memory := (list_of_free_memory g)(k := xs)\<rparr>)
           + length (list_of_free_memory g k) * 2 ^ k = free_page_count g + length xs * 2 ^ k"
proof -
  have *: "(\<Sum>j\<le>PAGE_ALLOC_MAX_ORDER. length (f j) * 2 ^ j) =
      length (f k) * 2 ^ k + (\<Sum>j\<in>{..PAGE_ALLOC_MAX_ORDER} - {k}. length (f j) * 2 ^ j)"
    for f :: "nat \<Rightarrow> nat list"
    using assms by (subst sum.remove [of _ k]) auto
  show ?thesis
    unfolding free_page_count_def * [of "list_of_free_memory g"]
      * [of "list_of_free_memory (g\<lparr>list_of_free_memory := (list_of_free_memory g)(k := xs)\<rparr>)"]
    by simp
qed

lemma count_push:
  "k \<le> PAGE_ALLOC_MAX_ORDER \<Longrightarrow> free_page_count (push a k g) = free_page_count g + 2 ^ k"
  using free_page_count_upd [of k g "a # list_of_free_memory g k"] by (simp add: push_def)

lemma count_pull:
  "(a, k) \<in> free_blocks g \<Longrightarrow> free_page_count (pull a k g) + 2 ^ k = free_page_count g"
proof -
  assume a: "(a, k) \<in> free_blocks g"
  then have l: "length (list_of_free_memory g k) = Suc (length (remove1 a (list_of_free_memory g k)))"
    by (auto simp: free_blocks_def length_remove1 dest: length_pos_if_in_set)
  show ?thesis
    using a free_page_count_upd [of k g "remove1 a (list_of_free_memory g k)"]
    by (simp add: pull_def l free_blocks_def)
qed

lemma push_inv:
  assumes "buddy_inv g" "SZ k dvd a" "k \<le> PAGE_ALLOC_MAX_ORDER" "block a k \<inter> free_set g = {}"
    "k < PAGE_ALLOC_MAX_ORDER \<Longrightarrow> (a XOR SZ k, k) \<notin> free_blocks g"
  shows "buddy_inv (push a k g)" "free_set (push a k g) = free_set g \<union> block a k"
proof -
  have dis: "block a k \<inter> block b j = {}" if "(b, j) \<in> free_blocks g" for b j
    using block_free [OF that] assms(4) by auto
  then have new: "a \<notin> set (list_of_free_memory g k)"
    using assms(3) block_nonempty [of a k] by (auto simp: free_blocks_def)
  have "distinct (list_of_free_memory (push a k g) j)" if "j \<le> PAGE_ALLOC_MAX_ORDER" for j
    using new buddy_invD(2) [OF assms(1) that] by (auto simp: push_def)
  moreover have "(b XOR SZ k, k) \<noteq> (a, k)" if "(b, k) \<in> free_blocks g" "k < PAGE_ALLOC_MAX_ORDER" for b
    using assms(5) that by (auto simp: xor.assoc)
  moreover have "a XOR SZ k \<noteq> a" using buddy_facts [OF assms(2)] by blast
  ultimately show "buddy_inv (push a k g)"
  proof (intro buddy_invI, unfold free_blocks_push [OF assms(3)])
    show "block (fst x) (snd x) \<inter> block (fst y) (snd y) = {}"
      if "x \<in> insert (a, k) (free_blocks g)" "y \<in> insert (a, k) (free_blocks g)" "x \<noteq> y" for x y
      using that dis [of "fst x" "snd x"] dis [of "fst y" "snd y"]
        buddy_invD(3) [OF assms(1), of "fst x" "snd x" "fst y" "snd y"]
      by (cases x; cases y) auto
  qed (use assms(2,5) buddy_invD [OF assms(1)] in auto)
  show "free_set (push a k g) = free_set g \<union> block a k"
    by (auto simp: free_set_def free_blocks_push assms(3))
qed

lemma pull_inv:
  assumes "buddy_inv g" "(a, k) \<in> free_blocks g"
  shows "buddy_inv (pull a k g)" "free_set (pull a k g) = free_set g - block a k"
proof -
  have k: "k \<le> PAGE_ALLOC_MAX_ORDER" using assms(2) by (auto simp: free_blocks_def)
  have "distinct (list_of_free_memory (pull a k g) j)" if "j \<le> PAGE_ALLOC_MAX_ORDER" for j
    using buddy_invD(2) [OF assms(1) that] by (auto simp: pull_def)
  then show "buddy_inv (pull a k g)"
  proof (intro buddy_invI, unfold free_blocks_pull [OF assms(1) k])
    show "block (fst x) (snd x) \<inter> block (fst y) (snd y) = {}"
      if "x \<in> free_blocks g - {(a, k)}" "y \<in> free_blocks g - {(a, k)}" "x \<noteq> y" for x y
      using that buddy_invD(3) [OF assms(1), of "fst x" "snd x" "fst y" "snd y"]
      by (cases x; cases y) auto
  qed (use buddy_invD [OF assms(1)] in auto)
  show "free_set (pull a k g) = free_set g - block a k"
    unfolding free_set_def free_blocks_pull [OF assms(1) k]
    using buddy_invD(3) [OF assms(1,2)] assms(2) by fast
qed

section \<open>Allocation and release\<close>

lemma alloc_pages_locked_inv:
  "buddy_inv g \<Longrightarrow> alloc_pages_locked k g = (r, g') \<Longrightarrow>
     (case r of
        None \<Rightarrow> g' = g \<and> (\<forall>a j. (a, j) \<in> free_blocks g \<longrightarrow> j < k)
      | Some p \<Rightarrow> k \<le> PAGE_ALLOC_MAX_ORDER \<and> SZ k dvd p \<and> block p k \<subseteq> free_set g \<and>
          buddy_inv g' \<and> free_set g' = free_set g - block p k \<and>
          pages_allocated g' = pages_allocated g \<and>
          free_page_count g' + 2 ^ k = free_page_count g)"
proof (induction k g arbitrary: r g' rule: alloc_pages_locked.induct)
  case (1 k g)
  show ?case
  proof (cases "k > PAGE_ALLOC_MAX_ORDER")
    case True
    then show ?thesis using "1.prems"(2)
      by (subst (asm) alloc_pages_locked.simps) (auto simp: free_blocks_def)
  next
    case False
    then have k: "k \<le> PAGE_ALLOC_MAX_ORDER" by simp
    show ?thesis
    proof (cases "list_of_free_memory g k")
      case (Cons b rest)
      then have b: "(b, k) \<in> free_blocks g" using k by (simp add: free_blocks_def)
      have "(r, g') = (Some b, pull b k g)"
        using "1.prems"(2) False Cons by (subst (asm) alloc_pages_locked.simps) (simp add: pull_def)
      then show ?thesis
        using pull_inv [OF "1.prems"(1) b] count_pull [OF b] k block_free [OF b]
          buddy_invD(1) [OF "1.prems"(1) b] by simp
    next
      case Nil
      obtain r1 g1 where rec: "alloc_pages_locked (k + 1) g = (r1, g1)" by fastforce
      note IH = "1.IH" [OF False Nil "1.prems"(1) rec]
      show ?thesis
      proof (cases r1)
        case None
        then have "(r, g') = (None, g1)"
          using "1.prems"(2) False Nil rec by (subst (asm) alloc_pages_locked.simps) simp
        moreover have "j < k" if "(a, j) \<in> free_blocks g" for a j
        proof -
          have "j < k + 1" using IH None that by auto
          moreover have "j \<noteq> k" using that Nil by (auto simp: free_blocks_def)
          ultimately show ?thesis by simp
        qed
        ultimately show ?thesis using IH None by simp
      next
        case (Some p)
        note IH = IH [unfolded Some option.case add.commute [of k 1] plus_1_eq_Suc]
        let ?b = "p + SZ k"
        have res: "(r, g') = (Some p, push ?b k g1)"
          using "1.prems"(2) False Nil rec Some
          by (subst (asm) alloc_pages_locked.simps) (simp add: push_def SZ_eq)
        have sp: "SZ k dvd p" "SZ k dvd ?b" "p XOR SZ k = ?b"
            "block p (Suc k) = block p k \<union> block ?b k" "block p k \<inter> block ?b k = {}"
          using block_split [of k p] IH by auto
        have g1: "buddy_inv g1" "free_set g1 = free_set g - block p (Suc k)"
            "block p (Suc k) \<subseteq> free_set g" using IH by auto
        have "(?b XOR SZ k, k) \<notin> free_blocks g1"
          using g1 sp(3,4) block_free [of p k g1] block_mem [of p k]
          by (metis DiffE UnI1 subsetD xor.assoc xor_self_eq xor.right_neutral)
        then have "buddy_inv (push ?b k g1)" "free_set (push ?b k g1) = free_set g1 \<union> block ?b k"
          using push_inv [OF g1(1) sp(2) k] g1 sp by auto
        moreover have "free_page_count (push ?b k g1) + 2 ^ k = free_page_count g"
          using IH count_push [OF k, of ?b g1] by simp
        ultimately show ?thesis using res g1 sp k IH by auto
      qed
    qed
  qed
qed

lemma free_pages_locked_inv:
  "buddy_inv g \<Longrightarrow> SZ k dvd a \<Longrightarrow> k \<le> PAGE_ALLOC_MAX_ORDER \<Longrightarrow> block a k \<inter> free_set g = {} \<Longrightarrow>
     buddy_inv (free_pages_locked a k g) \<and>
     free_set (free_pages_locked a k g) = free_set g \<union> block a k \<and>
     pages_allocated (free_pages_locked a k g) = pages_allocated g \<and>
     free_page_count (free_pages_locked a k g) = free_page_count g + 2 ^ k"
proof (induction a k g rule: free_pages_locked.induct)
  case (1 a k g)
  let ?b = "a XOR SZ k"
  show ?case
  proof (cases "k < PAGE_ALLOC_MAX_ORDER \<and> (?b, k) \<in> free_blocks g")
    case True
    note bf = buddy_facts [OF "1.prems"(2)]
    have get: "get_specific_page (a XOR 2 ^ (12 + k)) k g = (Some ?b, pull ?b k g)"
      using True by (simp add: get_specific_page_def SZ_def free_blocks_def pull_def)
    then have step: "free_pages_locked a k g = free_pages_locked (min a ?b) (k + 1) (pull ?b k g)"
      using True by (subst free_pages_locked.simps) (simp only: Let_def get prod.case option.case if_True simp_thms)
    have pl: "buddy_inv (pull ?b k g)" "free_set (pull ?b k g) = free_set g - block ?b k"
      using pull_inv [OF "1.prems"(1)] True by auto
    have sub: "block ?b k \<subseteq> free_set g" using block_free True by blast
    have "block (min a ?b) (k + 1) \<inter> free_set (pull ?b k g) = {}"
      using bf(3) pl(2) "1.prems"(4) by auto
    then have "buddy_inv (free_pages_locked a k g) \<and>
      free_set (free_pages_locked a k g) = free_set (pull ?b k g) \<union> block (min a ?b) (k + 1) \<and>
      pages_allocated (free_pages_locked a k g) = pages_allocated (pull ?b k g) \<and>
      free_page_count (free_pages_locked a k g) = free_page_count (pull ?b k g) + 2 ^ (k + 1)"
      unfolding step using "1.IH" [OF _ refl get [symmetric] refl pl(1)] bf(2) True by simp
    then show ?thesis
      using bf(3) pl(2) sub count_pull [of ?b k g] True by auto
  next
    case False
    then have step: "free_pages_locked a k g = push a k g"
      using "1.prems"(3)
      by (subst free_pages_locked.simps)
         (auto simp: get_specific_page_def push_def SZ_def free_blocks_def Let_def)
    show ?thesis
      unfolding step using push_inv [OF "1.prems"] count_push [OF "1.prems"(3)] False by auto
  qed
qed

text \<open>The interface on blocks \<open>(address, order)\<close>.\<close>

definition buddy_alloc :: "kernel_memory \<Rightarrow> nat \<times> nat \<Rightarrow> kernel_memory \<Rightarrow> bool" where
  "buddy_alloc g p g' \<longleftrightarrow> alloc_pages (snd p) g = (Some (fst p), g')"

definition buddy_free :: "kernel_memory \<Rightarrow> nat \<times> nat \<Rightarrow> kernel_memory \<Rightarrow> bool" where
  "buddy_free g p g' \<longleftrightarrow> free_pages (fst p) (snd p) g = Some g'"

definition valid_block :: "nat \<times> nat \<Rightarrow> bool" where
  "valid_block p \<longleftrightarrow> SZ (snd p) dvd fst p \<and> snd p \<le> PAGE_ALLOC_MAX_ORDER"

definition extent :: "nat \<times> nat \<Rightarrow> nat set" where
  "extent p = block (fst p) (snd p)"

lemma pages_allocated_irrelevant [simp]:
  "free_blocks (g\<lparr>pages_allocated := n\<rparr>) = free_blocks g"
  "free_set (g\<lparr>pages_allocated := n\<rparr>) = free_set g"
  "buddy_inv (g\<lparr>pages_allocated := n\<rparr>) = buddy_inv g"
  "free_page_count (g\<lparr>pages_allocated := n\<rparr>) = free_page_count g"
  by (simp_all add: free_blocks_def free_set_def buddy_inv_def free_page_count_def)

lemma alloc_pages_Some:
  assumes "buddy_inv g" "alloc_pages k g = (Some p, g')"
  shows "k \<le> PAGE_ALLOC_MAX_ORDER \<and> SZ k dvd p \<and> block p k \<subseteq> free_set g \<and> buddy_inv g' \<and>
     free_set g' = free_set g - block p k \<and> pages_allocated g' = pages_allocated g + 2 ^ k \<and>
     free_page_count g' + 2 ^ k = free_page_count g"
proof -
  obtain g1 where g1: "alloc_pages_locked k g = (Some p, g1)"
      "g' = g1\<lparr>pages_allocated := pages_allocated g1 + 2 ^ k\<rparr>"
    using assms(2) by (auto simp: alloc_pages_def split: prod.splits option.splits)
  show ?thesis using alloc_pages_locked_inv [OF assms(1) g1(1)] g1(2) by simp
qed

lemma alloc_pages_None:
  assumes "buddy_inv g" "alloc_pages k g = (None, g')"
  shows "g' = g \<and> (\<forall>a j. (a, j) \<in> free_blocks g \<longrightarrow> j < k)"
proof -
  have "alloc_pages_locked k g = (None, g')"
    using assms(2) by (auto simp: alloc_pages_def split: prod.splits option.splits)
  then show ?thesis using alloc_pages_locked_inv [OF assms(1)] by fastforce
qed

lemma free_pages_Some:
  assumes "buddy_inv g" "SZ k dvd a" "k \<le> PAGE_ALLOC_MAX_ORDER" "block a k \<inter> free_set g = {}"
  shows "\<exists>g'. free_pages a k g = Some g' \<and> buddy_inv g' \<and> free_set g' = free_set g \<union> block a k \<and>
     pages_allocated g' = pages_allocated g - 2 ^ k \<and> free_page_count g' = free_page_count g + 2 ^ k"
  using free_pages_locked_inv [OF assms] assms(3) by (simp add: free_pages_def Let_def)

interpretation balloc: allocator buddy_inv free_set valid_block extent buddy_alloc buddy_free
proof unfold_locales
  show "buddy_inv g' \<and> free_set g' = free_set g \<union> extent p"
    if "buddy_inv g" "valid_block p" "extent p \<inter> free_set g = {}" "buddy_free g p g'" for g p g'
    using that free_pages_Some [of g "snd p" "fst p"]
    by (auto simp: valid_block_def extent_def buddy_free_def)
qed (auto simp: buddy_alloc_def valid_block_def extent_def block_nonempty dest: alloc_pages_Some)

section \<open>Coalescing is complete\<close>

lemma free_block_covers:
  assumes "buddy_inv g"
  shows "k \<le> PAGE_ALLOC_MAX_ORDER \<Longrightarrow> SZ k dvd a \<Longrightarrow> block a k \<subseteq> free_set g \<Longrightarrow>
     \<exists>b j. (b, j) \<in> free_blocks g \<and> k \<le> j \<and> block a k \<subseteq> block b j"
proof (induction k arbitrary: a)
  case 0
  then obtain b j where bj: "(b, j) \<in> free_blocks g" "a \<in> block b j"
    using block_mem [of a 0] by (auto simp: free_set_def)
  then have "block a 0 \<subseteq> block b j"
    using block_nested [OF 0(2) buddy_invD(1) [OF assms bj(1)]] block_mem [of a 0] by auto
  with bj show ?case by blast
next
  case (Suc k)
  have sp: "SZ k dvd a" "SZ k dvd a + SZ k" "a XOR SZ k = a + SZ k"
      "block a (Suc k) = block a k \<union> block (a + SZ k) k"
    using block_split [OF Suc.prems(2)] by auto
  obtain b i where bi: "(b, i) \<in> free_blocks g" "k \<le> i" "block a k \<subseteq> block b i"
    using Suc.IH [of a] Suc.prems sp by auto
  obtain c j where cj: "(c, j) \<in> free_blocks g" "k \<le> j" "block (a + SZ k) k \<subseteq> block c j"
    using Suc.IH [of "a + SZ k"] Suc.prems sp by auto
  have up: "block a (Suc k) \<subseteq> block d l"
    if "(d, l) \<in> free_blocks g" "Suc k \<le> l" "block e k \<subseteq> block d l" "e = a \<or> e = a + SZ k" for d l e
    by (rule block_nested [OF Suc.prems(2) buddy_invD(1) [OF assms that(1)] that(2)])
       (use that sp(4) block_nonempty [of e k] in blast)
  show ?case
  proof (cases "i = k \<and> j = k")
    case True
    then have "b = a" "c = a + SZ k"
      using block_eq [OF sp(1), of b] block_eq [OF sp(2), of c] buddy_invD(1) [OF assms bi(1)]
        buddy_invD(1) [OF assms cj(1)] bi(3) cj(3) block_nonempty by blast+
    then show ?thesis
      using buddy_invD(4) [OF assms bi(1)] cj(1) True sp(3) Suc.prems(1) by auto
  next
    case False
    then consider "Suc k \<le> i" | "Suc k \<le> j" using bi(2) cj(2) by linarith
    then show ?thesis
      using up [OF bi(1) _ bi(3)] up [OF cj(1) _ cj(3)] bi(1) cj(1) by cases blast+
  qed
qed

lemma free_blocks_canonical:
  assumes "buddy_inv g" "buddy_inv g'" "free_set g = free_set g'"
  shows "free_blocks g \<subseteq> free_blocks g'"
proof
  fix p assume p: "p \<in> free_blocks g"
  obtain a k where pk: "p = (a, k)" by fastforce
  have k: "k \<le> PAGE_ALLOC_MAX_ORDER" using p pk by (auto simp: free_blocks_def)
  have sub: "block a k \<subseteq> free_set g'" using block_free [of a k g] p pk assms(3) by simp
  obtain b j where b: "(b, j) \<in> free_blocks g'" "k \<le> j" "block a k \<subseteq> block b j"
    using free_block_covers [OF assms(2) k _ sub] buddy_invD(1) [OF assms(1)] p pk by blast
  have "j \<le> PAGE_ALLOC_MAX_ORDER" using b by (auto simp: free_blocks_def)
  moreover have "block b j \<subseteq> free_set g" using block_free [OF b(1)] assms(3) by simp
  ultimately obtain c i where c: "(c, i) \<in> free_blocks g" "j \<le> i" "block b j \<subseteq> block c i"
    using free_block_covers [OF assms(1)] buddy_invD(1) [OF assms(2) b(1)] by blast
  have "a = c \<and> k = i"
    using buddy_invD(3) [OF assms(1) p [unfolded pk] c(1)] b(3) c(3) block_nonempty [of a k] by blast
  then have "j = k" using b(2) c(2) by simp
  moreover from this have "a = b"
    using block_eq [of k a b] b(1,3) buddy_invD(1) [OF assms(1) p [unfolded pk]]
      buddy_invD(1) [OF assms(2) b(1)] block_nonempty [of a k] by blast
  ultimately show "p \<in> free_blocks g'" using b(1) pk by simp
qed

section \<open>Initialisation\<close>

lemma addr_order_dvd: "2 ^ (addr_order t k - k) dvd t \<and> k \<le> addr_order t k"
proof (induction t k rule: addr_order.induct)
  case (1 t k)
  show ?case
  proof (cases "even t \<and> k < PAGE_ALLOC_MAX_ORDER")
    case True
    then have step: "addr_order t k = addr_order (t div 2) (k + 1)" by (subst addr_order.simps) simp
    have IH: "2 ^ (addr_order (t div 2) (k + 1) - (k + 1)) dvd t div 2" "k + 1 \<le> addr_order (t div 2) (k + 1)"
      using "1.IH" [OF True] by auto
    then have "2 * 2 ^ (addr_order (t div 2) (k + 1) - (k + 1)) dvd 2 * (t div 2)" by (rule_tac mult_dvd_mono) auto
    moreover have "2 * (t div 2) = t" using True by simp
    moreover have "addr_order t k - k = Suc (addr_order (t div 2) (k + 1) - (k + 1))" using IH step by simp
    ultimately show ?thesis using IH step by simp
  next
    case False
    then have "addr_order t k = k" by (subst addr_order.simps) auto
    then show ?thesis by simp
  qed
qed

lemma addr_order_aligned: "PAGE_SIZE dvd a \<Longrightarrow> SZ (addr_order (a div PAGE_SIZE) 0) dvd a"
proof -
  assume a: "PAGE_SIZE dvd a"
  let ?k = "addr_order (a div PAGE_SIZE) 0"
  have "2 ^ ?k dvd a div PAGE_SIZE" using addr_order_dvd [of "a div PAGE_SIZE" 0] by simp
  then have "PAGE_SIZE * 2 ^ ?k dvd PAGE_SIZE * (a div PAGE_SIZE)" by (rule mult_dvd_mono [OF dvd_refl])
  then show "SZ ?k dvd a" unfolding SZ_eq dvd_mult_div_cancel [OF a] .
qed

lemma kalloc_init_region:
  "buddy_inv g \<Longrightarrow> PAGE_SIZE dvd a \<Longrightarrow> PAGE_SIZE dvd e \<Longrightarrow> {a..<e} \<inter> free_set g = {} \<Longrightarrow>
     \<exists>g'. kalloc_init_memory_region a e g = Some g' \<and> buddy_inv g' \<and>
       free_set g' = free_set g \<union> {a..<e} \<and> pages_allocated g' = pages_allocated g"
proof (induction a e g rule: kalloc_init_memory_region.induct)
  case (1 a e g)
  define k where "k = addr_order (a div PAGE_SIZE) 0"
  define j where "j = (if a + SZ k \<le> e then k else 0)"
  have al: "SZ k dvd a" using addr_order_aligned "1.prems"(2) by (simp add: k_def)
  have SZ0: "SZ 0 = PAGE_SIZE" by (simp add: SZ_def PAGE_SIZE_def)
  show ?case
  proof (cases "a < e")
    case False
    then show ?thesis using "1.prems" by (subst kalloc_init_memory_region.simps) simp
  next
    case True
    have page: "a + PAGE_SIZE \<le> e"
      using True "1.prems"(2,3) by (auto simp: PAGE_SIZE_def elim!: dvdE)
    have j: "j \<le> PAGE_ALLOC_MAX_ORDER" "SZ j dvd a" "a + SZ j \<le> e"
      using addr_order_le [of 0] al page "1.prems"(2) SZ0 by (auto simp: j_def k_def)
    let ?g = "g\<lparr>pages_allocated := pages_allocated g + 2 ^ j\<rparr>"
    have blk: "block a j \<union> {a + SZ j..<e} = {a..<e}" "block a j \<inter> {a + SZ j..<e} = {}"
      using j(3) by (auto simp: block_def)
    obtain g1 where g1: "free_pages a j ?g = Some g1" "buddy_inv g1"
        "free_set g1 = free_set g \<union> block a j" "pages_allocated g1 = pages_allocated g"
      using free_pages_Some [of ?g j a] "1.prems"(1,4) j blk(1) by auto
    have step: "kalloc_init_memory_region a e g = kalloc_init_memory_region (a + SZ j) e g1"
      using True g1(1) SZ0
      by (subst kalloc_init_memory_region.simps)
         (simp add: Let_def SZ_eq k_def [symmetric] j_def split: if_splits)
    have "PAGE_SIZE dvd SZ j" using SZ_eq(2) [of j] by (metis dvd_triv_left)
    then have pre: "PAGE_SIZE dvd a + SZ j" using "1.prems"(2) by simp
    have dis: "{a + SZ j..<e} \<inter> free_set g1 = {}" using g1(3) blk "1.prems"(4) by blast
    have "\<exists>g'. kalloc_init_memory_region (a + SZ j) e g1 = Some g' \<and> buddy_inv g' \<and>
        free_set g' = free_set g1 \<union> {a + SZ j..<e} \<and> pages_allocated g' = pages_allocated g1"
    proof (cases "a + SZ k \<le> e")
      case True
      then show ?thesis
        using "1.IH"(1) [OF \<open>a < e\<close> k_def refl] g1(1,2) pre "1.prems"(3) dis
        by (simp add: j_def SZ_eq)
    next
      case False
      then show ?thesis
        using "1.IH"(2) [OF \<open>a < e\<close> k_def refl] g1(1,2) pre "1.prems"(3) dis SZ0
        by (simp add: j_def SZ_eq)
    qed
    then show ?thesis unfolding step using g1 blk(1) by auto
  qed
qed

section \<open>Runs of the allocator\<close>

text \<open>
  From the boot-time initialisation with one memory region, any sequence of requests and of
  releases of live blocks; the set holds the live blocks as \<open>(address, order)\<close>.
\<close>

inductive buddy_run :: "nat \<Rightarrow> nat \<Rightarrow> kernel_memory \<Rightarrow> (nat \<times> nat) set \<Rightarrow> bool" for s e where
  buddy_start: "PAGE_SIZE dvd s \<Longrightarrow> PAGE_SIZE dvd e \<Longrightarrow>
    kalloc_init_memory_region s e empty_memory = Some g \<Longrightarrow> buddy_run s e g {}"
| buddy_run_alloc: "buddy_run s e g live \<Longrightarrow> alloc_pages k g = (Some p, g') \<Longrightarrow>
    buddy_run s e g' (insert (p, k) live)"
| buddy_run_oom: "buddy_run s e g live \<Longrightarrow> alloc_pages k g = (None, g') \<Longrightarrow> buddy_run s e g' live"
| buddy_run_free: "buddy_run s e g live \<Longrightarrow> (p, k) \<in> live \<Longrightarrow> free_pages p k g = Some g' \<Longrightarrow>
    buddy_run s e g' (live - {(p, k)})"

lemma empty_memory_inv: "buddy_inv empty_memory" "free_set empty_memory = {}"
  by (auto simp: empty_memory_def buddy_inv_def free_set_def free_blocks_def)

definition live_pages :: "(nat \<times> nat) set \<Rightarrow> int" where
  "live_pages live = (\<Sum>(p, k)\<in>live. 2 ^ k)"

lemma buddy_run_inv:
  "buddy_run s e g live \<Longrightarrow> balloc.consistent {s..<e} g live \<and> pages_allocated g = live_pages live"
proof (induction rule: buddy_run.induct)
  case (buddy_start g)
  then have "buddy_inv g" "free_set g = {s..<e}" "pages_allocated g = pages_allocated empty_memory"
    using kalloc_init_region [OF empty_memory_inv(1), of s e] empty_memory_inv(2) by auto
  then show ?case
    using balloc.consistent_init [of g "{s..<e}"] by (simp add: live_pages_def empty_memory_def)
next
  case (buddy_run_alloc g live k p g')
  have "buddy_alloc g (p, k) g'" using buddy_run_alloc.hyps by (simp add: buddy_alloc_def)
  note c = balloc.consistent_alloc [OF buddy_run_alloc.IH [THEN conjunct1] this]
  have "buddy_inv g" "finite live" using buddy_run_alloc.IH by (auto simp: balloc.consistent_def)
  then show ?case
    using c alloc_pages_Some [OF _ buddy_run_alloc.hyps(2)] buddy_run_alloc.IH
    by (simp add: live_pages_def)
next
  case (buddy_run_oom g live k g')
  then show ?case using alloc_pages_None [of g k g'] by (auto simp: balloc.consistent_def)
next
  case (buddy_run_free g live p k g')
  have "buddy_free g (p, k) g'" using buddy_run_free.hyps by (simp add: buddy_free_def)
  note c = balloc.consistent_release [OF buddy_run_free.IH [THEN conjunct1] buddy_run_free.hyps(2) this]
  have "valid_block (p, k)" "extent (p, k) \<inter> free_set g = {}" "buddy_inv g" "finite live"
    using buddy_run_free.IH buddy_run_free.hyps(2) by (auto simp: balloc.consistent_def)
  then have "pages_allocated g' = live_pages (live - {(p, k)})"
    using free_pages_Some [of g k p] buddy_run_free.hyps buddy_run_free.IH
    by (auto simp: valid_block_def extent_def live_pages_def sum.remove [of live "(p, k)"])
  with c show ?case ..
qed

section \<open>Properties\<close>

text \<open>
  C6: Safety of the page allocator: in every run from boot, the live blocks are aligned to
  their size, disjoint from each other and from the free memory, and together with the free
  memory they are exactly the region given at boot: nothing is handed out twice, lost or
  invented. \<^verbatim>\<open>pages_allocated\<close> counts the pages of the live blocks.
\<close>

theorem buddy_blocks_partition_memory:
  assumes "buddy_run s e g live"
  shows "(\<forall>(p, k)\<in>live. SZ k dvd p \<and> block p k \<inter> free_set g = {}) \<and>
    (\<forall>(p, k)\<in>live. \<forall>(q, j)\<in>live. (p, k) \<noteq> (q, j) \<longrightarrow> block p k \<inter> block q j = {}) \<and>
    free_set g \<union> (\<Union>(p, k)\<in>live. block p k) = {s..<e} \<and>
    pages_allocated g = live_pages live"
  using buddy_run_inv [OF assms]
  unfolding balloc.consistent_def valid_block_def extent_def split_beta prod.collapse by blast

definition boot_memory :: kernel_memory where
  "boot_memory = the (kalloc_init_memory_region 0x1000 0x5000 empty_memory)"

lemma boot_memory_run: "buddy_run 0x1000 0x5000 boot_memory {}"
proof -
  have "\<exists>g. kalloc_init_memory_region 0x1000 0x5000 empty_memory = Some g"
    using kalloc_init_region [OF empty_memory_inv(1), of "0x1000" "0x5000"] empty_memory_inv(2)
    by (auto simp: PAGE_SIZE_def)
  then show ?thesis
    by (intro buddy_start) (auto simp: boot_memory_def PAGE_SIZE_def)
qed

theorem buddy_blocks_partition_memory_witness:
  "free_set boot_memory \<union> (\<Union>(p, k)\<in>{}. block p k) = {0x1000..<0x5000} \<and>
   pages_allocated boot_memory = live_pages {}"
  using buddy_blocks_partition_memory [OF boot_memory_run] by blast

text \<open>
  C18: Allocation is complete: a request for 2^k pages fails exactly when no aligned block of
  2^k free pages exists in memory. Freed buddies are always merged, so no request fails
  because free memory is kept in smaller pieces; a failed request changes nothing.
\<close>

theorem alloc_fails_only_without_block:
  assumes "buddy_run s e g live" "k \<le> PAGE_ALLOC_MAX_ORDER"
  shows "(fst (alloc_pages k g) = None \<longleftrightarrow> (\<nexists>a. SZ k dvd a \<and> block a k \<subseteq> free_set g)) \<and>
    (fst (alloc_pages k g) = None \<longrightarrow> snd (alloc_pages k g) = g)"
proof -
  have inv: "buddy_inv g" using buddy_run_inv [OF assms(1)] by (simp add: balloc.consistent_def)
  obtain r g' where r: "alloc_pages k g = (r, g')" by fastforce
  show ?thesis
  proof (cases r)
    case None
    then have "g' = g" "\<forall>a j. (a, j) \<in> free_blocks g \<longrightarrow> j < k"
      using alloc_pages_None [OF inv] r by auto
    then show ?thesis
      using None r free_block_covers [OF inv assms(2)] by (metis fst_conv linorder_not_less snd_conv)
  next
    case (Some p)
    then show ?thesis using alloc_pages_Some [OF inv, of k p g'] r by auto
  qed
qed

theorem alloc_fails_only_without_block_witness:
  "block 0x2000 1 \<subseteq> free_set boot_memory \<and> fst (alloc_pages 1 boot_memory) \<noteq> None"
proof -
  have "free_set boot_memory = {0x1000..<0x5000}"
    using buddy_run_inv [OF boot_memory_run] by (auto simp: balloc.consistent_def)
  then have blk: "block 0x2000 1 \<subseteq> free_set boot_memory" by (auto simp: block_def SZ_def)
  have "1 \<le> PAGE_ALLOC_MAX_ORDER" "SZ 1 dvd 0x2000" by (simp_all add: PAGE_ALLOC_MAX_ORDER_def SZ_def)
  with alloc_fails_only_without_block [OF boot_memory_run] blk show ?thesis by blast
qed

text \<open>
  The fragmentation of the memory does not depend on the history: two runs on the same
  region that end with the same live blocks have the same blocks in every free list. In
  particular, releasing everything restores the free lists of the boot.
\<close>

theorem free_lists_history_independent:
  assumes "buddy_run s e g live" "buddy_run s e g' live" "k \<le> PAGE_ALLOC_MAX_ORDER"
  shows "set (list_of_free_memory g k) = set (list_of_free_memory g' k)"
proof -
  have c: "balloc.consistent {s..<e} g live" "balloc.consistent {s..<e} g' live"
    using buddy_run_inv assms by auto
  then have "free_set g = free_set g'" by (simp add: balloc.consistent_avail)
  then have "free_blocks g = free_blocks g'"
    using c [THEN balloc.consistent_inv] free_blocks_canonical by (metis subset_antisym)
  then have "(a, k) \<in> free_blocks g \<longleftrightarrow> (a, k) \<in> free_blocks g'" for a by simp
  then show ?thesis using assms(3) by (simp add: free_blocks_def set_eq_iff)
qed

theorem free_lists_history_independent_witness:
  "\<exists>p g1 g2. alloc_pages 0 boot_memory = (Some p, g1) \<and> free_pages p 0 g1 = Some g2 \<and>
     set (list_of_free_memory g2 2) = set (list_of_free_memory boot_memory 2)"
proof -
  have inv: "buddy_inv boot_memory" and fs: "free_set boot_memory = {0x1000..<0x5000}"
    using buddy_run_inv [OF boot_memory_run] by (auto simp: balloc.consistent_def)
  have blk: "SZ 0 dvd 0x1000 \<and> block 0x1000 0 \<subseteq> free_set boot_memory"
    unfolding fs by (simp add: SZ_def block_def)
  obtain r g1 where r: "alloc_pages 0 boot_memory = (r, g1)" by fastforce
  obtain b j where "(b, j) \<in> free_blocks boot_memory"
    using free_block_covers [OF inv, of 0 "0x1000"] blk by auto
  then obtain p where p: "r = Some p" using alloc_pages_None [OF inv] r by (cases r) auto
  have run1: "buddy_run 0x1000 0x5000 g1 (insert (p, 0) {})"
    by (rule buddy_run_alloc [OF boot_memory_run]) (simp add: r p)
  obtain g2 where g2: "free_pages p 0 g1 = Some g2" by (simp add: free_pages_def Let_def)
  have "buddy_run 0x1000 0x5000 g2 (insert (p, 0) {} - {(p, 0)})"
    by (rule buddy_run_free [OF run1 _ g2]) simp
  then have run2: "buddy_run 0x1000 0x5000 g2 {}" by simp
  show ?thesis
    using free_lists_history_independent [OF run2 boot_memory_run, of 2] r p g2
    by (auto simp: PAGE_ALLOC_MAX_ORDER_def)
qed

end
