(* ===== verification/Slab.thy ===== *)
theory Slab
  imports Buddy
begin

text \<open>
  The object allocator: \<^verbatim>\<open>kernel/mm/slab.c\<close>, \<^verbatim>\<open>slab.h\<close>,
  \<^verbatim>\<open>cache.c\<close> and \<^verbatim>\<open>kmalloc\<close>/\<^verbatim>\<open>kfree\<close> of \<^verbatim>\<open>kalloc.c\<close>. A slab is one page
  with a header at its start; the headers are a map from page addresses, a cache is the list of
  the page addresses of its slabs. The free list of a slab, threaded through the first word of
  the free objects, is the HOL list of their addresses. \<open>None\<close> as a result is a panic, a
  header read from a page that is not a slab, or a loop without end.
\<close>

section \<open>The code\<close>

definition MIN_SLAB_SIZE :: nat where "MIN_SLAB_SIZE = 16"
definition MAX_SLAB_SIZE :: nat where "MAX_SLAB_SIZE = 1280"

definition ROUND_TO_MIN_SLAB_SIZE :: "nat \<Rightarrow> nat" where
  "ROUND_TO_MIN_SLAB_SIZE sz = ((sz + MIN_SLAB_SIZE - 1) div MIN_SLAB_SIZE) * MIN_SLAB_SIZE"

definition PAGE_ROUND_DOWN :: "nat \<Rightarrow> nat" where
  "PAGE_ROUND_DOWN a = a - a mod PAGE_SIZE"

text \<open>\<^verbatim>\<open>sizeof(struct kmem_slab)\<close>: a list head, three words and a pointer.\<close>

definition sizeof_kmem_slab :: nat where "sizeof_kmem_slab = 48"

record kmem_slab =
  free_list :: "nat list"
  slab_object_size :: nat
  objects_allocated :: nat
  owning_cache :: "nat option"

record kmem_cache =
  slab_list :: "nat list"
  object_size :: nat

record kmem =
  km_pages :: kernel_memory
  km_slabs :: "nat \<Rightarrow> kmem_slab option"
  object_cache :: "nat \<Rightarrow> kmem_cache"

text \<open>The loop of \<^verbatim>\<open>kmem_slab_create\<close> that builds the free list.\<close>

partial_function (option) slab_fill :: "nat \<Rightarrow> nat \<Rightarrow> nat \<Rightarrow> nat list \<Rightarrow> nat list option" where
  "slab_fill slab sz next_object fl =
     (if next_object + sz \<le> PAGE_SIZE
      then slab_fill slab sz (next_object + sz) ((slab + next_object) # fl)
      else Some fl)"

definition kmem_slab_create :: "nat \<Rightarrow> kmem \<Rightarrow> (nat option \<times> kmem) option" where
  "kmem_slab_create size0 km =
     (case alloc_pages 0 (km_pages km) of
        (None, g) \<Rightarrow> Some (None, km\<lparr>km_pages := g\<rparr>)
      | (Some slab, g) \<Rightarrow>
          let sz = ROUND_TO_MIN_SLAB_SIZE size0 in
          if sz > MAX_SLAB_SIZE then None
          else (case slab_fill slab sz (ROUND_TO_MIN_SLAB_SIZE sizeof_kmem_slab) [] of
                  None \<Rightarrow> None
                | Some fl \<Rightarrow>
                    Some (Some slab, km\<lparr>km_pages := g, km_slabs := (km_slabs km)(slab \<mapsto>
                      \<lparr>free_list = fl, slab_object_size = sz, objects_allocated = 0,
                       owning_cache = None\<rparr>)\<rparr>)))"

definition kmem_slab_alloc :: "kmem_slab \<Rightarrow> (nat \<times> kmem_slab) option" where
  "kmem_slab_alloc slab =
     (case free_list slab of
        [] \<Rightarrow> None
      | object # rest \<Rightarrow>
          Some (object, slab\<lparr>free_list := rest, objects_allocated := objects_allocated slab + 1\<rparr>))"

definition kmem_slab_free :: "nat \<Rightarrow> kmem_slab \<Rightarrow> kmem_slab" where
  "kmem_slab_free object slab =
     slab\<lparr>free_list := object # free_list slab, objects_allocated := objects_allocated slab - 1\<rparr>"

definition kmem_slab_is_empty :: "kmem_slab \<Rightarrow> bool" where
  "kmem_slab_is_empty slab \<longleftrightarrow> objects_allocated slab = 0"

definition kmem_slab_get_max_objects :: "kmem_slab \<Rightarrow> nat" where
  "kmem_slab_get_max_objects slab = (PAGE_SIZE - sizeof_kmem_slab) div slab_object_size slab"

definition kmem_slab_get_free_count :: "kmem_slab \<Rightarrow> nat" where
  "kmem_slab_get_free_count slab = kmem_slab_get_max_objects slab - objects_allocated slab"

text \<open>The page of the slab is given back; its header is gone with it.\<close>

definition kmem_slab_delete :: "nat \<Rightarrow> kmem \<Rightarrow> kmem option" where
  "kmem_slab_delete slab km =
     (case free_pages slab 0 (km_pages km) of
        None \<Rightarrow> None
      | Some g \<Rightarrow> Some (km\<lparr>km_pages := g, km_slabs := (km_slabs km)(slab := None)\<rparr>))"

definition kmem_slab_infer_slab :: "nat \<Rightarrow> nat" where
  "kmem_slab_infer_slab object = PAGE_ROUND_DOWN object"

definition kmem_cache_init :: "nat \<Rightarrow> kmem_cache option" where
  "kmem_cache_init size0 =
     (let sz = ROUND_TO_MIN_SLAB_SIZE size0 in
      if sz > MAX_SLAB_SIZE then None else Some \<lparr>slab_list = [], object_size = sz\<rparr>)"

text \<open>The loop of \<^verbatim>\<open>kmem_cache_alloc\<close> over the slabs of the cache.\<close>

fun alloc_from_slabs :: "nat list \<Rightarrow> (nat \<Rightarrow> kmem_slab option) \<Rightarrow>
    (nat option \<times> (nat \<Rightarrow> kmem_slab option)) option" where
  "alloc_from_slabs [] m = Some (None, m)"
| "alloc_from_slabs (b # bs) m =
     (case m b of
        None \<Rightarrow> None
      | Some slab \<Rightarrow>
          (case kmem_slab_alloc slab of
             None \<Rightarrow> alloc_from_slabs bs m
           | Some (object, slab') \<Rightarrow> Some (Some object, m(b \<mapsto> slab'))))"

definition kmem_cache_alloc :: "nat \<Rightarrow> kmem \<Rightarrow> (nat option \<times> kmem) option" where
  "kmem_cache_alloc i km =
     (let cache = object_cache km i in
      case alloc_from_slabs (slab_list cache) (km_slabs km) of
        None \<Rightarrow> None
      | Some (Some object, m) \<Rightarrow> Some (Some object, km\<lparr>km_slabs := m\<rparr>)
      | Some (None, m) \<Rightarrow>
          (case kmem_slab_create (object_size cache) km of
             None \<Rightarrow> None
           | Some (None, km1) \<Rightarrow> Some (None, km1)
           | Some (Some new_slab, km1) \<Rightarrow>
               (case km_slabs km1 new_slab of
                  None \<Rightarrow> None
                | Some slab \<Rightarrow>
                    let cache' = cache\<lparr>slab_list := slab_list cache @ [new_slab]\<rparr>;
                        slab1 = slab\<lparr>owning_cache := Some i\<rparr>;
                        km2 = km1\<lparr>object_cache := (object_cache km1)(i := cache')\<rparr>
                    in case kmem_slab_alloc slab1 of
                         None \<Rightarrow> Some (None, km2\<lparr>km_slabs := (km_slabs km2)(new_slab \<mapsto> slab1)\<rparr>)
                       | Some (object, slab2) \<Rightarrow>
                           Some (Some object, km2\<lparr>km_slabs := (km_slabs km2)(new_slab \<mapsto> slab2)\<rparr>))))"

definition kmem_cache_free :: "nat \<Rightarrow> nat \<Rightarrow> kmem \<Rightarrow> kmem option" where
  "kmem_cache_free i object km =
     (let b = kmem_slab_infer_slab object in
      case km_slabs km b of
        None \<Rightarrow> None
      | Some slab \<Rightarrow>
          let slab' = kmem_slab_free object slab;
              km1 = km\<lparr>km_slabs := (km_slabs km)(b \<mapsto> slab')\<rparr>
          in if kmem_slab_is_empty slab'
             then let cache = object_cache km1 i;
                      km2 = km1\<lparr>object_cache := (object_cache km1)
                              (i := cache\<lparr>slab_list := remove1 b (slab_list cache)\<rparr>)\<rparr>
                  in kmem_slab_delete b km2
             else Some km1)"

definition OBJECT_CACHES_POT :: nat where "OBJECT_CACHES_POT = 12 - 4 - 1"
definition OBJECT_CACHES :: nat where "OBJECT_CACHES = OBJECT_CACHES_POT + 1"

text \<open>\<^verbatim>\<open>kalloc_init_caches\<close>: the sizes 16 to 1024 and 1280; none of them panics.\<close>

definition kalloc_init_caches :: "nat \<Rightarrow> kmem_cache option" where
  "kalloc_init_caches i =
     (if i < OBJECT_CACHES_POT then kmem_cache_init (2 ^ i * MIN_SLAB_SIZE)
      else kmem_cache_init 1280)"

text \<open>The loop of \<^verbatim>\<open>kmalloc\<close> that chooses the cache.\<close>

fun kmalloc_cache :: "nat list \<Rightarrow> nat \<Rightarrow> kmem \<Rightarrow> nat option" where
  "kmalloc_cache [] n km = None"
| "kmalloc_cache (i # is) n km =
     (if n \<le> object_size (object_cache km i) then Some i else kmalloc_cache is n km)"

definition kmalloc :: "nat \<Rightarrow> kmem \<Rightarrow> (nat option \<times> kmem) option" where
  "kmalloc n km =
     (if n > PAGE_SIZE then None
      else case kmalloc_cache [0..<OBJECT_CACHES] n km of
             Some i \<Rightarrow> kmem_cache_alloc i km
           | None \<Rightarrow> (case alloc_pages 0 (km_pages km) of (r, g) \<Rightarrow> Some (r, km\<lparr>km_pages := g\<rparr>)))"

text \<open>\<open>in_ram\<close> is \<^verbatim>\<open>addr_is_in_ram_kva\<close>.\<close>

definition kfree :: "(nat \<Rightarrow> bool) \<Rightarrow> nat \<Rightarrow> kmem \<Rightarrow> kmem option" where
  "kfree in_ram kva km =
     (if \<not> in_ram kva then None
      else if kva mod PAGE_SIZE = 0
      then (case free_pages kva 0 (km_pages km) of
              None \<Rightarrow> None | Some g \<Rightarrow> Some (km\<lparr>km_pages := g\<rparr>))
      else let b = kmem_slab_infer_slab kva in
           case km_slabs km b of
             None \<Rightarrow> None
           | Some slab \<Rightarrow>
               (case owning_cache slab of
                  None \<Rightarrow> Some (km\<lparr>km_slabs := (km_slabs km)(b \<mapsto> kmem_slab_free kva slab)\<rparr>)
                | Some i \<Rightarrow> kmem_cache_free i kva km))"

section \<open>One slab\<close>

definition slab_objects :: "nat \<Rightarrow> nat \<Rightarrow> nat set" where
  "slab_objects b sz = (\<lambda>i. b + sizeof_kmem_slab + i * sz) ` {i. sizeof_kmem_slab + i * sz + sz \<le> PAGE_SIZE}"

definition size_ok :: "nat \<Rightarrow> bool" where
  "size_ok sz \<longleftrightarrow> 0 < sz \<and> sz \<le> MAX_SLAB_SIZE \<and> MIN_SLAB_SIZE dvd sz"

definition slab_ok :: "nat \<Rightarrow> kmem_slab \<Rightarrow> bool" where
  "slab_ok b s \<longleftrightarrow> PAGE_SIZE dvd b \<and> size_ok (slab_object_size s) \<and> distinct (free_list s) \<and>
     set (free_list s) \<subseteq> slab_objects b (slab_object_size s) \<and>
     objects_allocated s = card (slab_objects b (slab_object_size s) - set (free_list s))"

definition slab_live :: "nat \<Rightarrow> kmem_slab \<Rightarrow> nat set" where
  "slab_live b s = slab_objects b (slab_object_size s) - set (free_list s)"

lemma ROUND_id: "MIN_SLAB_SIZE dvd sz \<Longrightarrow> ROUND_TO_MIN_SLAB_SIZE sz = sz"
  by (auto simp: ROUND_TO_MIN_SLAB_SIZE_def MIN_SLAB_SIZE_def elim!: dvdE)

lemma ROUND_header: "ROUND_TO_MIN_SLAB_SIZE sizeof_kmem_slab = sizeof_kmem_slab"
  by (rule ROUND_id) (simp add: MIN_SLAB_SIZE_def sizeof_kmem_slab_def)

lemma finite_slab_objects: "0 < sz \<Longrightarrow> finite (slab_objects b sz)"
proof -
  assume "0 < sz"
  then have le: "i \<le> i * sz" for i by (cases sz) auto
  have "{i. sizeof_kmem_slab + i * sz + sz \<le> PAGE_SIZE} \<subseteq> {..PAGE_SIZE}"
  proof
    fix i assume "i \<in> {i. sizeof_kmem_slab + i * sz + sz \<le> PAGE_SIZE}"
    then have "i * sz \<le> PAGE_SIZE" by simp
    then show "i \<in> {..PAGE_SIZE}" using order_trans [OF le [of i]] by blast
  qed
  then show ?thesis unfolding slab_objects_def by (intro finite_imageI) (rule finite_subset, auto)
qed

lemma slab_fill_correct:
  assumes "0 < sz"
  shows "sizeof_kmem_slab + j * sz = n \<Longrightarrow>
    \<exists>fl'. slab_fill b sz n fl = Some (fl' @ fl) \<and> distinct fl' \<and>
      set fl' = (\<lambda>i. b + sizeof_kmem_slab + i * sz) `
                  {i. j \<le> i \<and> sizeof_kmem_slab + i * sz + sz \<le> PAGE_SIZE}"
proof (induction "PAGE_SIZE - n" arbitrary: n j fl rule: less_induct)
  case less
  let ?I = "\<lambda>j. {i. j \<le> i \<and> sizeof_kmem_slab + i * sz + sz \<le> PAGE_SIZE}"
  let ?f = "\<lambda>i. b + sizeof_kmem_slab + i * sz"
  show ?case
  proof (cases "n + sz \<le> PAGE_SIZE")
    case True
    have n': "sizeof_kmem_slab + Suc j * sz = n + sz" using less.prems by simp
    obtain fl' where fl': "slab_fill b sz (n + sz) ((b + n) # fl) = Some (fl' @ (b + n) # fl)"
        "distinct fl'" "set fl' = ?f ` ?I (Suc j)"
      using less.hyps [OF _ n', of "(b + n) # fl"] assms True by (auto simp: diff_less_mono2)
    have bn: "b + n = ?f j" using less.prems by simp
    have I: "?I j = insert j (?I (Suc j))" using True less.prems by (auto simp: le_eq_less_or_eq Suc_le_eq)
    have "b + n \<notin> ?f ` ?I (Suc j)" using bn assms by auto
    moreover have "slab_fill b sz n fl = slab_fill b sz (n + sz) ((b + n) # fl)"
      using True by (subst slab_fill.simps) simp
    ultimately show ?thesis
      unfolding I using fl' bn by (intro exI [of _ "fl' @ [b + n]"]) (simp add: add.assoc)
  next
    case False
    have "sizeof_kmem_slab + i * sz + sz > PAGE_SIZE" if "j \<le> i" for i
      using False less.prems mult_le_mono1 [OF that, of sz] by linarith
    then have "?I j = {}" by (metis (no_types, lifting) Collect_empty_eq not_le)
    then show ?thesis using False by (simp add: slab_fill.simps [of b sz n])
  qed
qed

lemma slab_fill_new:
  assumes "0 < sz"
  shows "\<exists>fl. slab_fill b sz (ROUND_TO_MIN_SLAB_SIZE sizeof_kmem_slab) [] = Some fl \<and> distinct fl \<and>
    set fl = slab_objects b sz"
  using slab_fill_correct [OF assms, of 0 "sizeof_kmem_slab" b "[]"]
  by (auto simp: ROUND_header slab_objects_def)

lemma size_ok_pos: "size_ok sz \<Longrightarrow> 0 < sz"
  by (simp add: size_ok_def)

lemma object_in_page:
  assumes "a \<in> slab_objects b sz" "PAGE_SIZE dvd b" "size_ok sz"
  shows "PAGE_ROUND_DOWN a = b" "a mod PAGE_SIZE \<noteq> 0" "a + sz \<le> b + PAGE_SIZE" "b < a" "MIN_SLAB_SIZE dvd a"
proof -
  obtain i where i: "a = b + sizeof_kmem_slab + i * sz" "sizeof_kmem_slab + i * sz + sz \<le> PAGE_SIZE"
    using assms(1) by (auto simp: slab_objects_def)
  have lt: "sizeof_kmem_slab + i * sz < PAGE_SIZE" "0 < sizeof_kmem_slab"
    using i(2) size_ok_pos [OF assms(3)] by (auto simp: sizeof_kmem_slab_def)
  have m: "a mod PAGE_SIZE = sizeof_kmem_slab + i * sz"
    using i(1) lt(1) assms(2) by (auto simp: mod_add_eq add.assoc elim!: dvdE)
  show "PAGE_ROUND_DOWN a = b" "a mod PAGE_SIZE \<noteq> 0" "b < a" "a + sz \<le> b + PAGE_SIZE"
    using m i lt by (simp_all add: PAGE_ROUND_DOWN_def)
  have "MIN_SLAB_SIZE dvd b" using assms(2) by (rule dvd_trans [rotated]) (simp add: MIN_SLAB_SIZE_def PAGE_SIZE_def)
  moreover have "MIN_SLAB_SIZE dvd sizeof_kmem_slab" by (simp add: MIN_SLAB_SIZE_def sizeof_kmem_slab_def)
  ultimately show "MIN_SLAB_SIZE dvd a" using assms(3) unfolding i(1) size_ok_def by (intro dvd_add) auto
qed

lemma objects_disjoint:
  assumes "a \<in> slab_objects b sz" "c \<in> slab_objects b sz" "a \<noteq> c"
  shows "{a..<a + sz} \<inter> {c..<c + sz} = {}"
proof -
  obtain i j where ij: "a = b + sizeof_kmem_slab + i * sz" "c = b + sizeof_kmem_slab + j * sz"
    using assms(1,2) by (auto simp: slab_objects_def)
  have "i * sz + sz \<le> j * sz \<or> j * sz + sz \<le> i * sz"
  proof -
    have "i \<noteq> j" using ij assms(3) by auto
    then have "Suc i \<le> j \<or> Suc j \<le> i" by auto
    then show ?thesis using mult_le_mono1 [of "Suc i" j sz] mult_le_mono1 [of "Suc j" i sz] by auto
  qed
  then show ?thesis using ij by auto
qed

lemma slab_live_card: "slab_ok b s \<Longrightarrow> objects_allocated s = card (slab_live b s)"
  by (simp add: slab_ok_def slab_live_def)

lemma finite_slab_live: "slab_ok b s \<Longrightarrow> finite (slab_live b s)"
  by (auto simp: slab_ok_def slab_live_def size_ok_def intro: finite_slab_objects)

lemma kmem_slab_alloc_Some:
  assumes "kmem_slab_alloc s = Some (a, s')"
  shows "free_list s = a # free_list s'" "slab_object_size s' = slab_object_size s"
    "owning_cache s' = owning_cache s" "objects_allocated s' = Suc (objects_allocated s)"
  using assms by (auto simp: kmem_slab_alloc_def split: list.splits)

lemma kmem_slab_alloc_ok:
  assumes "slab_ok b s" "kmem_slab_alloc s = Some (a, s')"
  shows "slab_ok b s'" "slab_live b s' = insert a (slab_live b s)" "a \<notin> slab_live b s"
    "a \<in> slab_objects b (slab_object_size s)"
proof -
  note s' = kmem_slab_alloc_Some [OF assms(2)]
  let ?O = "slab_objects b (slab_object_size s)"
  have ok: "PAGE_SIZE dvd b" "size_ok (slab_object_size s)" "a \<in> ?O" "set (free_list s') \<subseteq> ?O"
      "a \<notin> set (free_list s')" "distinct (free_list s')" "objects_allocated s = card (slab_live b s)"
    using assms(1) s'(1) by (simp_all add: slab_ok_def slab_live_def)
  show "a \<in> ?O" by (rule ok(3))
  show live: "slab_live b s' = insert a (slab_live b s)" and new: "a \<notin> slab_live b s"
    using s' ok by (auto simp: slab_live_def)
  have "card (insert a (slab_live b s)) = Suc (card (slab_live b s))"
    by (rule card_insert_disjoint [OF finite_slab_live [OF assms(1)] new])
  then have "objects_allocated s' = card (slab_live b s')" using s'(4) ok(7) live by simp
  then show "slab_ok b s'"
    using ok s'(2) by (simp add: slab_ok_def slab_live_def)
qed

lemma kmem_slab_free_ok:
  assumes "slab_ok b s" "a \<in> slab_live b s"
  shows "slab_ok b (kmem_slab_free a s)" "slab_live b (kmem_slab_free a s) = slab_live b s - {a}"
    "slab_object_size (kmem_slab_free a s) = slab_object_size s"
    "owning_cache (kmem_slab_free a s) = owning_cache s"
proof -
  show live: "slab_live b (kmem_slab_free a s) = slab_live b s - {a}"
    by (auto simp: slab_live_def kmem_slab_free_def)
  show "slab_object_size (kmem_slab_free a s) = slab_object_size s"
    "owning_cache (kmem_slab_free a s) = owning_cache s" by (simp_all add: kmem_slab_free_def)
  have "card (slab_live b s - {a}) = card (slab_live b s) - 1"
    using finite_slab_live [OF assms(1)] assms(2) by simp
  then show "slab_ok b (kmem_slab_free a s)"
    using assms live unfolding slab_ok_def slab_live_def by (auto simp: kmem_slab_free_def)
qed

text \<open>
  A slab, with its page address, as an allocator of objects; an object is given with the page
  and the object size of its slab.
\<close>

definition slab_inv :: "nat \<times> kmem_slab \<Rightarrow> bool" where
  "slab_inv st \<longleftrightarrow> slab_ok (fst st) (snd st)"

definition slab_avail :: "nat \<times> kmem_slab \<Rightarrow> nat set" where
  "slab_avail st = set (free_list (snd st))"

definition slab_object :: "nat \<times> nat \<times> nat \<Rightarrow> bool" where
  "slab_object p \<longleftrightarrow> size_ok (fst (snd p)) \<and> snd (snd p) \<in> slab_objects (fst p) (fst (snd p))"

definition slab_take :: "nat \<times> kmem_slab \<Rightarrow> nat \<times> nat \<times> nat \<Rightarrow> nat \<times> kmem_slab \<Rightarrow> bool" where
  "slab_take st p st' \<longleftrightarrow> fst p = fst st \<and> fst st' = fst st \<and> fst (snd p) = slab_object_size (snd st) \<and>
     kmem_slab_alloc (snd st) = Some (snd (snd p), snd st')"

definition slab_give :: "nat \<times> kmem_slab \<Rightarrow> nat \<times> nat \<times> nat \<Rightarrow> nat \<times> kmem_slab \<Rightarrow> bool" where
  "slab_give st p st' \<longleftrightarrow> fst p = fst st \<and> fst st' = fst st \<and> fst (snd p) = slab_object_size (snd st) \<and>
     snd st' = kmem_slab_free (snd (snd p)) (snd st)"

lemma slab_take_law:
  assumes "slab_inv st" "slab_take st p st'"
  shows "slab_inv st' \<and> slab_object p \<and> {snd (snd p)} \<subseteq> slab_avail st \<and>
    slab_avail st' = slab_avail st - {snd (snd p)}"
proof -
  have ok: "slab_ok (fst st) (snd st)" and al: "kmem_slab_alloc (snd st) = Some (snd (snd p), snd st')"
    using assms by (auto simp: slab_inv_def slab_take_def)
  have "free_list (snd st) = snd (snd p) # free_list (snd st')"
    using kmem_slab_alloc_Some(1) [OF al] .
  moreover have "distinct (free_list (snd st))" "size_ok (slab_object_size (snd st))"
    using ok by (simp_all add: slab_ok_def)
  ultimately show ?thesis
    using kmem_slab_alloc_ok(1,4) [OF ok al] assms(2)
    by (auto simp: slab_inv_def slab_take_def slab_avail_def slab_object_def)
qed

lemma slab_give_law:
  assumes "slab_inv st" "slab_object p" "{snd (snd p)} \<inter> slab_avail st = {}" "slab_give st p st'"
  shows "slab_inv st' \<and> slab_avail st' = slab_avail st \<union> {snd (snd p)}"
proof -
  have "snd (snd p) \<in> slab_live (fst st) (snd st)"
    using assms by (auto simp: slab_object_def slab_avail_def slab_give_def slab_live_def)
  from kmem_slab_free_ok(1) [OF _ this] assms(1,4) show ?thesis
    by (auto simp: slab_inv_def slab_give_def slab_avail_def kmem_slab_free_def)
qed

interpretation slabq: allocator slab_inv slab_avail slab_object "\<lambda>p. {snd (snd p)}" slab_take slab_give
  by unfold_locales ((rule slab_take_law slab_give_law, assumption+)+, simp)

section \<open>All slabs\<close>

text \<open>
  The invariant of the object allocator over the memory \<open>U\<close> of the page allocator; \<open>big\<close>
  holds the pages that \<^verbatim>\<open>kmalloc\<close> gave out whole. Every slab has a live object and is in the list
  of its owning cache; the pages of the slabs and the big pages are all that is taken from the
  page allocator.
\<close>

definition km_inv :: "nat set \<Rightarrow> nat set \<Rightarrow> kmem \<Rightarrow> bool" where
  "km_inv U big km \<longleftrightarrow>
     balloc.consistent U (km_pages km) ((\<lambda>b. (b, 0)) ` (dom (km_slabs km) \<union> big)) \<and>
     dom (km_slabs km) \<inter> big = {} \<and>
     (\<forall>b s. km_slabs km b = Some s \<longrightarrow> slab_ok b s \<and> slab_live b s \<noteq> {} \<and>
        (\<exists>i<OBJECT_CACHES. owning_cache s = Some i \<and> b \<in> set (slab_list (object_cache km i)) \<and>
           slab_object_size s = object_size (object_cache km i))) \<and>
     (\<forall>i<OBJECT_CACHES. distinct (slab_list (object_cache km i)) \<and> size_ok (object_size (object_cache km i)) \<and>
        (\<forall>b\<in>set (slab_list (object_cache km i)). \<exists>s. km_slabs km b = Some s \<and> owning_cache s = Some i))"

lemma km_invD:
  assumes "km_inv U big km"
  shows "balloc.consistent U (km_pages km) ((\<lambda>b. (b, 0)) ` (dom (km_slabs km) \<union> big))"
    "dom (km_slabs km) \<inter> big = {}"
    "km_slabs km b = Some s \<Longrightarrow> slab_ok b s"
    "km_slabs km b = Some s \<Longrightarrow> slab_live b s \<noteq> {}"
    "km_slabs km b = Some s \<Longrightarrow> \<exists>i<OBJECT_CACHES. owning_cache s = Some i \<and>
       b \<in> set (slab_list (object_cache km i)) \<and> slab_object_size s = object_size (object_cache km i)"
    "i < OBJECT_CACHES \<Longrightarrow> distinct (slab_list (object_cache km i))"
    "i < OBJECT_CACHES \<Longrightarrow> size_ok (object_size (object_cache km i))"
    "i < OBJECT_CACHES \<Longrightarrow> b \<in> set (slab_list (object_cache km i)) \<Longrightarrow>
       \<exists>s. km_slabs km b = Some s \<and> owning_cache s = Some i"
  using assms unfolding km_inv_def by blast+

lemma km_invI:
  assumes "balloc.consistent U (km_pages km) ((\<lambda>b. (b, 0)) ` (dom (km_slabs km) \<union> big))"
    "dom (km_slabs km) \<inter> big = {}"
    "\<And>b s. km_slabs km b = Some s \<Longrightarrow> slab_ok b s \<and> slab_live b s \<noteq> {}"
    "\<And>b s. km_slabs km b = Some s \<Longrightarrow> \<exists>i<OBJECT_CACHES. owning_cache s = Some i \<and>
       b \<in> set (slab_list (object_cache km i)) \<and> slab_object_size s = object_size (object_cache km i)"
    "\<And>i. i < OBJECT_CACHES \<Longrightarrow> distinct (slab_list (object_cache km i)) \<and> size_ok (object_size (object_cache km i))"
    "\<And>i b. i < OBJECT_CACHES \<Longrightarrow> b \<in> set (slab_list (object_cache km i)) \<Longrightarrow>
       \<exists>s. km_slabs km b = Some s \<and> owning_cache s = Some i"
  shows "km_inv U big km"
  using assms unfolding km_inv_def by blast

lemma km_inv_owner:
  assumes "km_inv U big km" "km_slabs km b = Some s" "i < OBJECT_CACHES" "b \<in> set (slab_list (object_cache km i))"
  shows "owning_cache s = Some i"
  using km_invD(8) [OF assms(1,3,4)] assms(2) by auto

text \<open>\<open>a\<close> is a live object of size \<open>sz\<close>.\<close>

definition in_slab :: "kmem \<Rightarrow> nat \<Rightarrow> nat \<Rightarrow> bool" where
  "in_slab km a sz \<longleftrightarrow> (\<exists>b s. km_slabs km b = Some s \<and> a \<in> slab_live b s \<and> slab_object_size s = sz)"

lemma slab_live_page:
  assumes "slab_ok b s" "a \<in> slab_live b s"
  shows "PAGE_ROUND_DOWN a = b" "a mod PAGE_SIZE \<noteq> 0" "a + slab_object_size s \<le> b + PAGE_SIZE" "b < a"
    "MIN_SLAB_SIZE dvd a"
  using object_in_page [of a b "slab_object_size s"] assms by (auto simp: slab_ok_def slab_live_def)

lemma km_inv_upd:
  assumes inv: "km_inv U big km" and b: "km_slabs km b = Some s" and s': "slab_ok b s'" "slab_live b s' \<noteq> {}"
    "slab_object_size s' = slab_object_size s" "owning_cache s' = owning_cache s"
  shows "km_inv U big (km\<lparr>km_slabs := (km_slabs km)(b \<mapsto> s')\<rparr>)"
proof (rule km_invI, goal_cases)
  case 1
  then show ?case using km_invD(1) [OF inv] b by (simp add: insert_absorb domI)
next
  case 2
  then show ?case using km_invD(2) [OF inv] b by auto
next
  case (3 c t)
  then show ?case using km_invD(3,4) [OF inv] s'(1,2) by (auto split: if_splits)
next
  case (4 c t)
  then show ?case using km_invD(5) [OF inv] b s'(3,4) by (auto split: if_splits)
next
  case (5 i)
  then show ?case using km_invD(6,7) [OF inv] by simp
next
  case (6 i c)
  then show ?case using km_invD(8) [OF inv] km_inv_owner [OF inv b] s'(4) by auto
qed

lemma in_slab_upd:
  assumes "\<And>d. d \<noteq> b \<Longrightarrow> km_slabs km' d = km_slabs km d"
  shows "in_slab km' x n \<longleftrightarrow> (\<exists>s. km_slabs km' b = Some s \<and> x \<in> slab_live b s \<and> slab_object_size s = n) \<or>
    (\<exists>c t. c \<noteq> b \<and> km_slabs km c = Some t \<and> x \<in> slab_live c t \<and> slab_object_size t = n)"
  unfolding in_slab_def using assms by metis

lemma alloc_from_slabs_cases:
  assumes "\<And>b. b \<in> set bs \<Longrightarrow> m b \<noteq> None"
  shows "alloc_from_slabs bs m = Some (None, m) \<or>
    (\<exists>b s a s'. b \<in> set bs \<and> m b = Some s \<and> kmem_slab_alloc s = Some (a, s') \<and>
       alloc_from_slabs bs m = Some (Some a, m(b \<mapsto> s')))"
  using assms
proof (induction bs)
  case (Cons b bs)
  then obtain s where s: "m b = Some s" by fastforce
  show ?case
  proof (cases "kmem_slab_alloc s")
    case None
    then show ?thesis using Cons s by auto
  next
    case (Some p)
    then obtain a s' where "kmem_slab_alloc s = Some (a, s')" by (cases p) simp
    then have "alloc_from_slabs (b # bs) m = Some (Some a, m(b \<mapsto> s'))" using s by simp
    then show ?thesis using s \<open>kmem_slab_alloc s = Some (a, s')\<close> by (meson list.set_intros(1))
  qed
qed simp

lemma in_slab_alloc:
  assumes "km_inv U big km" "km_slabs km b = Some s" "kmem_slab_alloc s = Some (a, s')"
  shows "in_slab (km\<lparr>km_slabs := (km_slabs km)(b \<mapsto> s')\<rparr>) x sz \<longleftrightarrow>
      in_slab km x sz \<or> x = a \<and> sz = slab_object_size s"
    "\<not> in_slab km a sz"
proof -
  have ok: "slab_ok b s" using km_invD(3) [OF assms(1,2)] .
  note al = kmem_slab_alloc_ok [OF ok assms(3)] kmem_slab_alloc_Some(2) [OF assms(3)]
  show "in_slab (km\<lparr>km_slabs := (km_slabs km)(b \<mapsto> s')\<rparr>) x sz \<longleftrightarrow>
      in_slab km x sz \<or> x = a \<and> sz = slab_object_size s"
    unfolding in_slab_upd [of b "km\<lparr>km_slabs := (km_slabs km)(b \<mapsto> s')\<rparr>" km, simplified]
      in_slab_upd [of b km km, simplified]
    using al assms(2) by auto
  show "\<not> in_slab km a sz"
  proof
    assume "in_slab km a sz"
    then obtain c t where ct: "km_slabs km c = Some t" "a \<in> slab_live c t" by (auto simp: in_slab_def)
    have "PAGE_ROUND_DOWN a = c" using slab_live_page km_invD(3) [OF assms(1)] ct by blast
    moreover have "PAGE_ROUND_DOWN a = b" using slab_live_page(1) [of b s'] al by auto
    ultimately show False using ct al(3) assms(2) by simp
  qed
qed

lemma slab_objects_nonempty: "size_ok sz \<Longrightarrow> slab_objects b sz \<noteq> {}"
proof -
  assume "size_ok sz"
  then have "0 \<in> {i. sizeof_kmem_slab + i * sz + sz \<le> PAGE_SIZE}"
    by (simp add: size_ok_def sizeof_kmem_slab_def PAGE_SIZE_def MAX_SLAB_SIZE_def)
  then show ?thesis unfolding slab_objects_def by blast
qed

lemma new_page:
  assumes "km_inv U big km" "alloc_pages 0 (km_pages km) = (Some b, g)"
  shows "b \<notin> dom (km_slabs km) \<union> big" "PAGE_SIZE dvd b"
    "balloc.consistent U g ((\<lambda>b. (b, 0)) ` insert b (dom (km_slabs km) \<union> big))"
proof -
  have al: "buddy_alloc (km_pages km) (b, 0) g" using assms(2) by (simp add: buddy_alloc_def)
  note c = balloc.consistent_alloc [OF km_invD(1) [OF assms(1)] al]
  show "b \<notin> dom (km_slabs km) \<union> big" using c(2) by auto
  show "balloc.consistent U g ((\<lambda>b. (b, 0)) ` insert b (dom (km_slabs km) \<union> big))"
    using c(1) by simp
  have "buddy_inv (km_pages km)" using km_invD(1) [OF assms(1)] by (rule balloc.consistent_inv)
  then show "PAGE_SIZE dvd b"
    using alloc_pages_Some [OF _ assms(2)] by (simp add: SZ_def PAGE_SIZE_def)
qed

lemma no_page:
  assumes "buddy_inv g" "alloc_pages 0 g = (None, g')"
  shows "g' = g" "free_set g = {}"
  using alloc_pages_None [OF assms] by (auto simp: free_set_def)

lemma kmem_slab_create_cases:
  assumes "km_inv U big km" "size_ok sz"
  obtains (none) "kmem_slab_create sz km = Some (None, km)" "free_set (km_pages km) = {}"
  | (page) b g fl where "alloc_pages 0 (km_pages km) = (Some b, g)" "distinct fl"
      "set fl = slab_objects b sz"
      "kmem_slab_create sz km = Some (Some b, km\<lparr>km_pages := g, km_slabs := (km_slabs km)(b \<mapsto>
         \<lparr>free_list = fl, slab_object_size = sz, objects_allocated = 0, owning_cache = None\<rparr>)\<rparr>)"
proof -
  have inv: "buddy_inv (km_pages km)" using km_invD(1) [OF assms(1)] by (rule balloc.consistent_inv)
  have sz: "ROUND_TO_MIN_SLAB_SIZE sz = sz" "\<not> MAX_SLAB_SIZE < sz" "0 < sz"
    using assms(2) by (auto simp: size_ok_def ROUND_id)
  obtain r g where rg: "alloc_pages 0 (km_pages km) = (r, g)" by fastforce
  show ?thesis
  proof (cases r)
    case None
    then have "g = km_pages km" "free_set (km_pages km) = {}" using no_page [OF inv] rg by auto
    then show ?thesis using none rg None by (simp add: kmem_slab_create_def)
  next
    case (Some b)
    obtain fl where "slab_fill b sz (ROUND_TO_MIN_SLAB_SIZE sizeof_kmem_slab) [] = Some fl"
        "distinct fl" "set fl = slab_objects b sz"
      using slab_fill_new [OF sz(3)] by blast
    then show ?thesis
      using page [of b g fl] rg Some sz by (simp add: kmem_slab_create_def Let_def)
  qed
qed

text \<open>A slab on a new page, with its first object taken, joins the cache \<open>i\<close>.\<close>

lemma km_inv_new_slab:
  assumes inv: "km_inv U big km" and i: "i < OBJECT_CACHES"
    and pg: "alloc_pages 0 (km_pages km) = (Some b, g)"
    and s: "slab_ok b s" "slab_live b s \<noteq> {}" "owning_cache s = Some i"
      "slab_object_size s = object_size (object_cache km i)"
  shows "km_inv U big (km\<lparr>km_pages := g, km_slabs := (km_slabs km)(b \<mapsto> s),
    object_cache := (object_cache km)(i := (object_cache km i)\<lparr>slab_list := slab_list (object_cache km i) @ [b]\<rparr>)\<rparr>)"
proof (rule km_invI, goal_cases)
  case 1
  then show ?case using new_page(3) [OF inv pg] by simp
next
  case 2
  then show ?case using km_invD(2) [OF inv] new_page(1) [OF inv pg] by auto
next
  case (3 c t)
  then show ?case using km_invD(3,4) [OF inv] s(1,2) by (auto split: if_splits)
next
  case (4 c t)
  show ?case
  proof (cases "c = b")
    case True
    then show ?thesis using 4 i s(3,4) by (intro exI [of _ i]) auto
  next
    case False
    then show ?thesis using km_invD(5) [OF inv, of c t] 4 by auto
  qed
next
  case (5 j)
  have "b \<notin> set (slab_list (object_cache km j))"
    using km_invD(8) [OF inv 5, of b] new_page(1) [OF inv pg] by auto
  then show ?case using km_invD(6,7) [OF inv 5] by auto
next
  case (6 j c)
  then show ?case using km_invD(8) [OF inv 6(1), of c] s(3) new_page(1) [OF inv pg] by (auto split: if_splits)
qed

lemma km_inv_delete:
  assumes inv: "km_inv U big km" and i: "i < OBJECT_CACHES"
    and b: "km_slabs km b = Some s" "owning_cache s = Some i"
    and g: "balloc.consistent U g ((\<lambda>b. (b, 0)) ` ((dom (km_slabs km) - {b}) \<union> big))"
  shows "km_inv U big (km\<lparr>km_pages := g, km_slabs := (km_slabs km)(b := None),
    object_cache := (object_cache km)(i := (object_cache km i)\<lparr>slab_list := remove1 b (slab_list (object_cache km i))\<rparr>)\<rparr>)"
proof (rule km_invI, goal_cases)
  case 1
  then show ?case using g by simp
next
  case 2
  then show ?case using km_invD(2) [OF inv] by auto
next
  case (3 c t)
  then show ?case using km_invD(3,4) [OF inv] by (auto split: if_splits)
next
  case (4 c t)
  then show ?case using km_invD(5) [OF inv, of c t] by (auto split: if_splits)
next
  case (5 j)
  then show ?case using km_invD(6,7) [OF inv 5] by (auto intro: distinct_remove1)
next
  case (6 j c)
  have "c \<noteq> b"
    using 6 km_invD(6) [OF inv i] km_inv_owner [OF inv b(1), of j] b(2) by (auto split: if_splits)
  moreover have "c \<in> set (slab_list (object_cache km j))"
    using 6 by (auto split: if_splits dest: notin_set_remove1 set_remove1_subset [THEN subsetD])
  ultimately show ?case using km_invD(8) [OF inv 6(1)] by auto
qed

text \<open>What \<^verbatim>\<open>kmem_cache_alloc\<close> does to the objects.\<close>

definition alloc_result :: "kmem \<Rightarrow> nat \<Rightarrow> nat option \<Rightarrow> kmem \<Rightarrow> bool" where
  "alloc_result km sz r km' \<longleftrightarrow>
     (case r of
        None \<Rightarrow> km' = km \<and> free_set (km_pages km) = {}
      | Some a \<Rightarrow> (\<forall>x n. in_slab km' x n \<longleftrightarrow> in_slab km x n \<or> x = a \<and> n = sz) \<and>
          (\<forall>n. \<not> in_slab km a n) \<and> (\<forall>i. object_size (object_cache km' i) = object_size (object_cache km i)))"

lemma kmem_cache_alloc_inv:
  assumes inv: "km_inv U big km" and i: "i < OBJECT_CACHES"
  shows "\<exists>r km'. kmem_cache_alloc i km = Some (r, km') \<and> km_inv U big km' \<and>
    alloc_result km (object_size (object_cache km i)) r km'"
proof -
  let ?c = "object_cache km i"
  have "km_slabs km b \<noteq> None" if "b \<in> set (slab_list ?c)" for b
    using km_invD(8) [OF inv i that] by auto
  then consider (old) b s a s' where "b \<in> set (slab_list ?c)" "km_slabs km b = Some s"
      "kmem_slab_alloc s = Some (a, s')"
      "alloc_from_slabs (slab_list ?c) (km_slabs km) = Some (Some a, (km_slabs km)(b \<mapsto> s'))"
    | (new) "alloc_from_slabs (slab_list ?c) (km_slabs km) = Some (None, km_slabs km)"
    using alloc_from_slabs_cases [of "slab_list ?c" "km_slabs km"] by blast
  then show ?thesis
  proof cases
    case old
    have "slab_ok b s" using km_invD(3) [OF inv old(2)] .
    note al = kmem_slab_alloc_ok [OF this old(3)] kmem_slab_alloc_Some [OF old(3)]
    have "slab_object_size s = object_size ?c"
      using km_invD(5) [OF inv old(2)] km_invD(8) [OF inv i old(1)] old(2) by auto
    then show ?thesis
      using old km_inv_upd [OF inv old(2) al(1) _ al(6,7)] al(2) in_slab_alloc [OF inv old(2,3)]
      by (simp add: kmem_cache_alloc_def alloc_result_def)
  next
    case new
    have sz: "size_ok (object_size ?c)" using km_invD(7) [OF inv i] .
    from inv sz show ?thesis
    proof (cases rule: kmem_slab_create_cases)
      case none
      then show ?thesis using new inv by (simp add: kmem_cache_alloc_def alloc_result_def)
    next
      case (page b g fl)
      define s1 where "s1 = \<lparr>free_list = fl, slab_object_size = object_size ?c, objects_allocated = 0,
        owning_cache = Some i\<rparr>"
      note np = new_page [OF inv page(1)]
      have ok1: "slab_ok b s1" "slab_live b s1 = {}"
        using page(2,3) sz np(2) by (auto simp: s1_def slab_ok_def slab_live_def)
      obtain a rest where fl: "fl = a # rest"
        using page(3) slab_objects_nonempty [OF sz, of b] by (cases fl) auto
      then obtain s2 where al: "kmem_slab_alloc s1 = Some (a, s2)" by (simp add: kmem_slab_alloc_def s1_def)
      note s2 = kmem_slab_alloc_ok [OF ok1(1) al] kmem_slab_alloc_Some [OF al]
      let ?km = "km\<lparr>km_pages := g, km_slabs := (km_slabs km)(b \<mapsto> s2), object_cache :=
        (object_cache km)(i := ?c\<lparr>slab_list := slab_list ?c @ [b]\<rparr>)\<rparr>"
      have "kmem_cache_alloc i km = Some (Some a, ?km)"
        using new page(4) al by (simp add: kmem_cache_alloc_def Let_def s1_def)
      moreover have "km_inv U big ?km"
        by (rule km_inv_new_slab [OF inv i page(1)]) (use s2 ok1 in \<open>auto simp: s1_def\<close>)
      moreover have "in_slab ?km x n \<longleftrightarrow> in_slab km x n \<or> x = a \<and> n = object_size ?c" for x n
        using s2 ok1(2) np(1) by (auto simp: in_slab_def s1_def)
      moreover have "\<not> in_slab km a n" for n
      proof
        assume "in_slab km a n"
        then obtain c t where ct: "km_slabs km c = Some t" "a \<in> slab_live c t" by (auto simp: in_slab_def)
        have "PAGE_ROUND_DOWN a = c" using slab_live_page km_invD(3) [OF inv] ct by blast
        moreover have "PAGE_ROUND_DOWN a = b" using slab_live_page(1) [of b s2] s2 by auto
        ultimately show False using ct np(1) by auto
      qed
      ultimately show ?thesis by (auto simp: alloc_result_def)
    qed
  qed
qed

text \<open>What \<^verbatim>\<open>kmem_cache_free\<close> does.\<close>

lemma kmem_cache_free_inv:
  assumes inv: "km_inv U big km" and b: "km_slabs km b = Some s" and a: "a \<in> slab_live b s"
    and i: "owning_cache s = Some i"
  shows "\<exists>km'. kmem_cache_free i a km = Some km' \<and> km_inv U big km' \<and>
    (\<forall>x n. in_slab km' x n \<longleftrightarrow> in_slab km x n \<and> x \<noteq> a) \<and>
    (\<forall>i. object_size (object_cache km' i) = object_size (object_cache km i))"
proof -
  have ok: "slab_ok b s" using km_invD(3) [OF inv b] .
  note fr = kmem_slab_free_ok [OF ok a]
  have pb: "kmem_slab_infer_slab a = b" using slab_live_page(1) [OF ok a] by (simp add: kmem_slab_infer_slab_def)
  have other: "a \<notin> slab_live c t" if "km_slabs km c = Some t" "c \<noteq> b" for c t
    using slab_live_page(1) [OF km_invD(3) [OF inv that(1)]] slab_live_page(1) [OF ok a] that(2) by auto
  let ?s = "kmem_slab_free a s"
  let ?km = "km\<lparr>km_slabs := (km_slabs km)(b \<mapsto> ?s)\<rparr>"
  show ?thesis
  proof (cases "slab_live b ?s = {}")
    case False
    then have "\<not> kmem_slab_is_empty ?s"
      using slab_live_card [OF fr(1)] finite_slab_live [OF fr(1)] by (simp add: kmem_slab_is_empty_def)
    then have "kmem_cache_free i a km = Some ?km" by (simp add: kmem_cache_free_def pb b Let_def)
    moreover have "km_inv U big ?km" by (rule km_inv_upd [OF inv b fr(1) False fr(3,4)])
    moreover have "in_slab ?km x n \<longleftrightarrow> in_slab km x n \<and> x \<noteq> a" for x n
      unfolding in_slab_upd [of b ?km km, simplified] in_slab_upd [of b km km, simplified]
      using fr(2,3) b other by auto
    ultimately show ?thesis by simp
  next
    case True
    then have empty: "kmem_slab_is_empty ?s"
      using slab_live_card [OF fr(1)] by (simp add: kmem_slab_is_empty_def)
    have c: "i < OBJECT_CACHES" "b \<in> set (slab_list (object_cache km i))"
      using km_invD(5) [OF inv b] i by auto
    let ?L = "(\<lambda>b. (b, 0::nat)) ` (dom (km_slabs km) \<union> big)"
    have bL: "(b, 0) \<in> ?L" using b by auto
    have "valid_block (b, 0)" "extent (b, 0) \<inter> free_set (km_pages km) = {}" "buddy_inv (km_pages km)"
      using balloc.consistentD [OF km_invD(1) [OF inv]] bL by blast+
    then obtain g where g: "free_pages b 0 (km_pages km) = Some g"
      using free_pages_Some [of "km_pages km" 0 b] by (auto simp: valid_block_def extent_def)
    then have bf: "buddy_free (km_pages km) (b, 0) g" by (simp add: buddy_free_def)
    have cons: "balloc.consistent U g (?L - {(b, 0)})"
      by (rule balloc.consistent_release [OF km_invD(1) [OF inv] bL bf])
    have bb: "b \<notin> big" using km_invD(2) [OF inv] b by auto
    then have L: "?L - {(b, 0)} = (\<lambda>b. (b, 0)) ` ((dom (km_slabs km) - {b}) \<union> big)" by auto
    let ?km' = "km\<lparr>km_pages := g, km_slabs := (km_slabs km)(b := None), object_cache :=
      (object_cache km)(i := (object_cache km i)\<lparr>slab_list := remove1 b (slab_list (object_cache km i))\<rparr>)\<rparr>"
    have "kmem_cache_free i a km = Some ?km'"
      using empty g by (simp add: kmem_cache_free_def pb b Let_def kmem_slab_delete_def)
    moreover have "km_inv U big ?km'"
      by (rule km_inv_delete [OF inv c(1) b i]) (use cons L in simp)
    moreover have "in_slab ?km' x n \<longleftrightarrow> in_slab km x n \<and> x \<noteq> a" for x n
      unfolding in_slab_upd [of b ?km' km, simplified] in_slab_upd [of b km km, simplified]
      using True fr(2) b other by auto
    ultimately show ?thesis by auto
  qed
qed

section \<open>kmalloc and kfree\<close>

text \<open>
  \<open>live\<close> holds the addresses that \<^verbatim>\<open>kmalloc\<close> returned and that are not yet freed, with the
  sizes asked for.
\<close>

definition live_inv :: "nat set \<Rightarrow> nat set \<Rightarrow> kmem \<Rightarrow> (nat \<times> nat) set \<Rightarrow> bool" where
  "live_inv U big km live \<longleftrightarrow> km_inv U big km \<and> inj_on fst live \<and>
     fst ` live = big \<union> {a. \<exists>sz. in_slab km a sz} \<and>
     (\<forall>(a, n)\<in>live. a \<in> big \<and> n \<le> PAGE_SIZE \<or> (\<exists>sz. in_slab km a sz \<and> n \<le> sz))"

lemma live_invD:
  assumes "live_inv U big km live"
  shows "km_inv U big km" "inj_on fst live" "fst ` live = big \<union> {a. \<exists>sz. in_slab km a sz}"
    "(a, n) \<in> live \<Longrightarrow> a \<in> big \<and> n \<le> PAGE_SIZE \<or> (\<exists>sz. in_slab km a sz \<and> n \<le> sz)"
  using assms by (auto simp: live_inv_def)

lemma kmalloc_cache_Some:
  "kmalloc_cache is n km = Some i \<Longrightarrow> i \<in> set is \<and> n \<le> object_size (object_cache km i)"
  by (induction "is") (auto split: if_splits)

lemma slab_addr_not_page:
  assumes "km_inv U big km" "in_slab km a n"
  shows "\<not> PAGE_SIZE dvd a"
proof -
  obtain b s where s: "km_slabs km b = Some s" "a \<in> slab_live b s" using assms(2) by (auto simp: in_slab_def)
  show ?thesis using slab_live_page(2) [OF km_invD(3) [OF assms(1) s(1)] s(2)] by (simp add: dvd_eq_mod_eq_0)
qed

lemma big_page:
  assumes "km_inv U big km" "a \<in> big"
  shows "PAGE_SIZE dvd a" "block a 0 \<inter> free_set (km_pages km) = {}"
proof -
  have "(a, 0::nat) \<in> (\<lambda>b. (b, 0)) ` (dom (km_slabs km) \<union> big)" using assms(2) by auto
  note c = balloc.consistentD(3,4) [OF km_invD(1) [OF assms(1)] this]
  then show "PAGE_SIZE dvd a" "block a 0 \<inter> free_set (km_pages km) = {}"
    by (simp_all add: valid_block_def extent_def SZ_def PAGE_SIZE_def)
qed

lemma big_not_slab:
  assumes "km_inv U big km" "a \<in> big"
  shows "\<not> in_slab km a n"
  using slab_addr_not_page [OF assms(1), of a n] big_page(1) [OF assms] by auto

lemma km_inv_pages:
  assumes "km_inv U big km" "balloc.consistent U g ((\<lambda>b. (b, 0)) ` (dom (km_slabs km) \<union> big'))"
    "dom (km_slabs km) \<inter> big' = {}"
  shows "km_inv U big' (km\<lparr>km_pages := g\<rparr>)"
  using assms unfolding km_inv_def by simp

lemma in_slab_pages: "in_slab (km\<lparr>km_pages := g\<rparr>) a n = in_slab km a n"
  by (simp add: in_slab_def)

lemma live_inv_insert:
  assumes "live_inv U big km live" "km_inv U big' km'" "a \<notin> fst ` live"
    "big' \<union> {a. \<exists>sz. in_slab km' a sz} = insert a (big \<union> {a. \<exists>sz. in_slab km a sz})"
    "big \<subseteq> big'" "\<And>x m. in_slab km x m \<Longrightarrow> in_slab km' x m"
    "a \<in> big' \<and> n \<le> PAGE_SIZE \<or> (\<exists>sz. in_slab km' a sz \<and> n \<le> sz)"
  shows "live_inv U big' km' (insert (a, n) live)"
proof -
  have "x \<in> big' \<and> m \<le> PAGE_SIZE \<or> (\<exists>sz. in_slab km' x sz \<and> m \<le> sz)" if "(x, m) \<in> insert (a, n) live" for x m
    using that live_invD(4) [OF assms(1), of x m] assms(5,6,7) by auto
  moreover have "inj_on fst (insert (a, n) live)" using live_invD(2) [OF assms(1)] assms(3) by auto
  moreover have "fst ` insert (a, n) live = big' \<union> {a. \<exists>sz. in_slab km' a sz}"
    using live_invD(3) [OF assms(1)] assms(4) by simp
  ultimately show ?thesis unfolding live_inv_def using assms(2) by blast
qed

lemma live_inv_remove:
  assumes "live_inv U big km live" "km_inv U big' km'" "(a, n) \<in> live"
    "big' = big - {a}" "\<And>x m. in_slab km' x m \<longleftrightarrow> in_slab km x m \<and> x \<noteq> a"
  shows "live_inv U big' km' (live - {(a, n)})"
proof -
  have ne: "x \<noteq> a" if "(x, m) \<in> live - {(a, n)}" for x m
    using inj_onD [OF live_invD(2) [OF assms(1)], of "(x, m)" "(a, n)"] that assms(3) by auto
  have "x \<in> big' \<and> m \<le> PAGE_SIZE \<or> (\<exists>sz. in_slab km' x sz \<and> m \<le> sz)" if "(x, m) \<in> live - {(a, n)}" for x m
    using that ne [OF that] live_invD(4) [OF assms(1), of x m] by (auto simp: assms(4,5))
  moreover have "inj_on fst (live - {(a, n)})"
    using live_invD(2) [OF assms(1)] by (rule inj_on_subset) auto
  moreover have "fst ` (live - {(a, n)}) = fst ` live - {a}" using ne assms(3) by force
  ultimately show ?thesis
    unfolding live_inv_def using assms(2,4,5) live_invD(3) [OF assms(1)] by auto
qed

text \<open>\<^verbatim>\<open>kmalloc\<close> of at most a page returns, and its result keeps the invariant.\<close>

lemma kmalloc_inv:
  assumes inv: "live_inv U big km live" and n: "n \<le> PAGE_SIZE"
  shows "\<exists>r km'. kmalloc n km = Some (r, km') \<and>
    (case r of None \<Rightarrow> km' = km \<and> free_set (km_pages km) = {}
     | Some a \<Rightarrow> a \<notin> fst ` live \<and> (\<exists>big'. live_inv U big' km' (insert (a, n) live)))"
proof (cases "kmalloc_cache [0..<OBJECT_CACHES] n km")
  case (Some i)
  have km: "km_inv U big km" using live_invD(1) [OF inv] .
  have i: "i < OBJECT_CACHES" "n \<le> object_size (object_cache km i)"
    using kmalloc_cache_Some [OF Some] by auto
  obtain r km' where r: "kmem_cache_alloc i km = Some (r, km')" "km_inv U big km'"
      "alloc_result km (object_size (object_cache km i)) r km'"
    using kmem_cache_alloc_inv [OF km i(1)] by blast
  have k: "kmalloc n km = Some (r, km')" using n Some r(1) by (simp add: kmalloc_def)
  show ?thesis
  proof (cases r)
    case None
    then show ?thesis using k r(3) by (simp add: alloc_result_def)
  next
    case (Some a)
    then have a: "\<And>x m. in_slab km' x m \<longleftrightarrow> in_slab km x m \<or> x = a \<and> m = object_size (object_cache km i)"
        "\<And>m. \<not> in_slab km a m"
      using r(3) by (auto simp: alloc_result_def)
    have "in_slab km' a (object_size (object_cache km i))" using a(1) by blast
    then have "a \<notin> big" using big_not_slab [OF r(2)] by blast
    then have new: "a \<notin> fst ` live" using live_invD(3) [OF inv] a(2) by auto
    have "live_inv U big km' (insert (a, n) live)"
      by (rule live_inv_insert [OF inv r(2) new]) (use a(1) i(2) in auto)
    then show ?thesis using k Some new by auto
  qed
next
  case None
  have km: "km_inv U big km" using live_invD(1) [OF inv] .
  obtain r g where r: "alloc_pages 0 (km_pages km) = (r, g)" by fastforce
  then have k: "kmalloc n km = Some (r, km\<lparr>km_pages := g\<rparr>)" using n None by (simp add: kmalloc_def)
  show ?thesis
  proof (cases r)
    case N: None
    then show ?thesis using k no_page [OF balloc.consistent_inv [OF km_invD(1) [OF km]]] r by auto
  next
    case (Some b)
    note np = new_page [OF km r [unfolded Some]]
    have new: "b \<notin> fst ` live"
      using np(1,2) live_invD(3) [OF inv] slab_addr_not_page [OF km] by auto
    have "km_inv U (insert b big) (km\<lparr>km_pages := g\<rparr>)"
      by (rule km_inv_pages [OF km]) (use np km_invD(2) [OF km] in auto)
    then have "live_inv U (insert b big) (km\<lparr>km_pages := g\<rparr>) (insert (b, n) live)"
      by (rule live_inv_insert [OF inv _ new]) (use n in \<open>auto simp: in_slab_pages\<close>)
    then show ?thesis using k Some new by auto
  qed
qed

text \<open>\<^verbatim>\<open>kfree\<close> of a live address returns.\<close>

lemma kfree_inv:
  assumes inv: "live_inv U big km live" and a: "(a, n) \<in> live" and ram: "in_ram a"
  shows "\<exists>km' big'. kfree in_ram a km = Some km' \<and> live_inv U big' km' (live - {(a, n)})"
proof (cases "a \<in> big")
  case True
  have km: "km_inv U big km" using live_invD(1) [OF inv] .
  let ?L = "(\<lambda>b. (b, 0::nat)) ` (dom (km_slabs km) \<union> big)"
  note bp = big_page [OF km True]
  note no = big_not_slab [OF km True]
  have SZ0: "SZ 0 dvd a" using bp(1) by (simp add: SZ_def PAGE_SIZE_def)
  obtain g where g: "free_pages a 0 (km_pages km) = Some g"
    using free_pages_Some [OF balloc.consistent_inv [OF km_invD(1) [OF km]] SZ0 _ bp(2)] by auto
  have "(a, 0) \<in> ?L" "buddy_free (km_pages km) (a, 0) g" using True g by (auto simp: buddy_free_def)
  then have "balloc.consistent U g (?L - {(a, 0)})"
    by (rule balloc.consistent_release [OF km_invD(1) [OF km]])
  moreover have "?L - {(a, 0)} = (\<lambda>b. (b, 0)) ` (dom (km_slabs km) \<union> (big - {a}))"
  proof -
    have "a \<notin> dom (km_slabs km)" using km_invD(2) [OF km] True by auto
    then show ?thesis by auto
  qed
  ultimately have cons: "balloc.consistent U g ((\<lambda>b. (b, 0)) ` (dom (km_slabs km) \<union> (big - {a})))" by simp
  have "dom (km_slabs km) \<inter> (big - {a}) = {}" using km_invD(2) [OF km] by blast
  from km_inv_pages [OF km cons this] have "km_inv U (big - {a}) (km\<lparr>km_pages := g\<rparr>)" .
  then have "live_inv U (big - {a}) (km\<lparr>km_pages := g\<rparr>) (live - {(a, n)})"
    by (rule live_inv_remove [OF inv _ a]) (use no in \<open>auto simp: in_slab_pages\<close>)
  then show ?thesis using ram bp(1) g by (auto simp: kfree_def)
next
  case False
  have km: "km_inv U big km" using live_invD(1) [OF inv] .
  then obtain b s where s: "km_slabs km b = Some s" "a \<in> slab_live b s"
    using live_invD(4) [OF inv a] False by (auto simp: in_slab_def)
  obtain i where i: "owning_cache s = Some i" using km_invD(5) [OF km s(1)] by auto
  note pg = slab_live_page [OF km_invD(3) [OF km s(1)] s(2)]
  obtain km' where km': "kmem_cache_free i a km = Some km'" "km_inv U big km'"
      "\<And>x m. in_slab km' x m \<longleftrightarrow> in_slab km x m \<and> x \<noteq> a"
    using kmem_cache_free_inv [OF km s i] by blast
  have "live_inv U big km' (live - {(a, n)})"
    by (rule live_inv_remove [OF inv km'(2) a]) (use False km'(3) in auto)
  moreover have "kfree in_ram a km = Some km'"
    using ram pg(1,2) s(1) i km'(1) by (simp add: kfree_def kmem_slab_infer_slab_def Let_def)
  ultimately show ?thesis by blast
qed

section \<open>Runs\<close>

text \<open>
  The allocator as \<^verbatim>\<open>kalloc_init\<close> sets it up over one region, then any sequence of requests
  and of releases of live objects; the set holds the live objects with the sizes asked for.
\<close>

definition kalloc_init :: "nat \<Rightarrow> nat \<Rightarrow> kmem option" where
  "kalloc_init region_start region_end =
     (case kalloc_init_memory_region region_start region_end empty_memory of
        None \<Rightarrow> None
      | Some g \<Rightarrow>
          if \<forall>i\<in>set [0..<OBJECT_CACHES]. kalloc_init_caches i \<noteq> None
          then Some \<lparr>km_pages = g, km_slabs = (\<lambda>_. None), object_cache = (\<lambda>i. the (kalloc_init_caches i))\<rparr>
          else None)"

inductive kmalloc_run :: "nat \<Rightarrow> nat \<Rightarrow> kmem \<Rightarrow> (nat \<times> nat) set \<Rightarrow> bool" for s e where
  kmalloc_start: "PAGE_SIZE dvd s \<Longrightarrow> PAGE_SIZE dvd e \<Longrightarrow> kalloc_init s e = Some km \<Longrightarrow> kmalloc_run s e km {}"
| kmalloc_run_alloc: "kmalloc_run s e km live \<Longrightarrow> kmalloc n km = Some (Some a, km') \<Longrightarrow>
    kmalloc_run s e km' (insert (a, n) live)"
| kmalloc_run_oom: "kmalloc_run s e km live \<Longrightarrow> kmalloc n km = Some (None, km') \<Longrightarrow> kmalloc_run s e km' live"
| kmalloc_run_free: "kmalloc_run s e km live \<Longrightarrow> (a, n) \<in> live \<Longrightarrow> kfree (\<lambda>a. a \<in> {s..<e}) a km = Some km' \<Longrightarrow>
    kmalloc_run s e km' (live - {(a, n)})"

lemma kalloc_init_caches_ok:
  assumes "i < OBJECT_CACHES"
  shows "\<exists>c. kalloc_init_caches i = Some c \<and> slab_list c = [] \<and> size_ok (object_size c)"
proof -
  have P: "kalloc_init_caches i = Some \<lparr>slab_list = [], object_size = if i < 7 then 2 ^ i * 16 else 1280\<rparr> \<and>
      size_ok (if i < 7 then 2 ^ i * 16 else 1280)" if "i \<in> {0, 1, 2, 3, 4, 5, 6, 7}" for i :: nat
    using that by (elim insertE emptyE) (simp_all add: kalloc_init_caches_def kmem_cache_init_def size_ok_def
        OBJECT_CACHES_POT_def MIN_SLAB_SIZE_def MAX_SLAB_SIZE_def ROUND_TO_MIN_SLAB_SIZE_def)
  have "i \<in> {0, 1, 2, 3, 4, 5, 6, 7}" using assms by (auto simp: OBJECT_CACHES_def OBJECT_CACHES_POT_def)
  then show ?thesis using P by auto
qed

lemma kalloc_init_live:
  assumes "PAGE_SIZE dvd s" "PAGE_SIZE dvd e"
  shows "\<exists>km. kalloc_init s e = Some km \<and> live_inv {s..<e} {} km {}"
proof -
  obtain g where g: "kalloc_init_memory_region s e empty_memory = Some g" "buddy_inv g" "free_set g = {s..<e}"
    using kalloc_init_region [OF empty_memory_inv(1) assms] empty_memory_inv(2) by auto
  let ?km = "\<lparr>km_pages = g, km_slabs = (\<lambda>_. None), object_cache = (\<lambda>i. the (kalloc_init_caches i))\<rparr>"
  have "kalloc_init s e = Some ?km"
    using g(1) kalloc_init_caches_ok by (fastforce simp: kalloc_init_def)
  moreover have "km_inv {s..<e} {} ?km"
    using kalloc_init_caches_ok balloc.consistent_init [OF g(2,3)] by (intro km_invI) fastforce+
  ultimately show ?thesis by (auto simp: live_inv_def in_slab_def)
qed

lemma live_in_region:
  assumes inv: "live_inv {s..<e} big km live" and a: "(a, n) \<in> live"
  shows "\<exists>b. b \<in> dom (km_slabs km) \<union> big \<and> {a..<a + n} \<subseteq> block b 0 \<and> block b 0 \<subseteq> {s..<e} \<and>
    block b 0 \<inter> free_set (km_pages km) = {} \<and> MIN_SLAB_SIZE dvd a \<and> a \<in> block b 0"
proof -
  have km: "km_inv {s..<e} big km" using live_invD(1) [OF inv] .
  have blk: "block b 0 = {b..<b + PAGE_SIZE}" for b by (simp add: block_def SZ_def PAGE_SIZE_def)
  have dv: "MIN_SLAB_SIZE dvd b" if "PAGE_SIZE dvd b" for b
    using that by (rule dvd_trans [rotated]) (simp add: MIN_SLAB_SIZE_def PAGE_SIZE_def)
  obtain b where b: "b \<in> dom (km_slabs km) \<union> big" "{a..<a + n} \<subseteq> block b 0" "MIN_SLAB_SIZE dvd a" "a \<in> block b 0"
  proof (cases "a \<in> big")
    case True
    have "n \<le> PAGE_SIZE"
      using live_invD(4) [OF inv a] big_not_slab [OF km True] by blast
    then show ?thesis
      using that [of a] True dv big_page(1) [OF km True] by (auto simp: blk PAGE_SIZE_def)
  next
    case False
    then obtain b t where t: "km_slabs km b = Some t" "a \<in> slab_live b t" "n \<le> slab_object_size t"
      using live_invD(4) [OF inv a] by (auto simp: in_slab_def)
    have "0 < slab_object_size t" using km_invD(3) [OF km t(1)] by (simp add: slab_ok_def size_ok_def)
    then show ?thesis
      using that [of b] t slab_live_page [OF km_invD(3) [OF km t(1)] t(2)] by (auto simp: blk)
  qed
  have L: "(b, 0::nat) \<in> (\<lambda>b. (b, 0)) ` (dom (km_slabs km) \<union> big)" using b(1) by auto
  note c = balloc.consistentD [OF km_invD(1) [OF km]]
  have "block b 0 \<inter> free_set (km_pages km) = {}" using c(4) [OF L] by (simp add: extent_def)
  moreover have "block b 0 \<subseteq> {s..<e}" unfolding c(6) [symmetric] using L by (fastforce simp: extent_def)
  ultimately show ?thesis using b by blast
qed

lemma kmalloc_run_inv: "kmalloc_run s e km live \<Longrightarrow> \<exists>big. live_inv {s..<e} big km live"
proof (induction rule: kmalloc_run.induct)
  case (kmalloc_start km)
  then show ?case using kalloc_init_live [of s e] by auto
next
  case (kmalloc_run_alloc km live n a km')
  then have "n \<le> PAGE_SIZE" by (auto simp: kmalloc_def split: if_splits)
  then show ?case using kmalloc_run_alloc kmalloc_inv by fastforce
next
  case (kmalloc_run_oom km live n km')
  then have "n \<le> PAGE_SIZE" by (auto simp: kmalloc_def split: if_splits)
  then show ?case using kmalloc_run_oom kmalloc_inv by fastforce
next
  case (kmalloc_run_free km live a n km')
  then obtain big where inv: "live_inv {s..<e} big km live" by blast
  have "a \<in> {s..<e}" using live_in_region [OF inv kmalloc_run_free.hyps(2)] by auto
  then show ?case using kfree_inv [OF inv kmalloc_run_free.hyps(2), of "\<lambda>a. a \<in> {s..<e}"] kmalloc_run_free.hyps(3) by auto
qed

lemma live_cases:
  assumes "live_inv U big km live" "(a, n) \<in> live"
  obtains (big) "a \<in> big" "{a..<a + n} \<subseteq> block a 0"
  | (slab) b t where "km_slabs km b = Some t" "a \<in> slab_live b t" "{a..<a + n} \<subseteq> {a..<a + slab_object_size t}"
      "{a..<a + n} \<subseteq> block b 0"
  using live_invD(4) [OF assms]
proof (elim disjE conjE exE)
  assume "a \<in> big" "n \<le> PAGE_SIZE"
  then show ?thesis using big by (auto simp: block_def SZ_def PAGE_SIZE_def)
next
  fix sz assume sz: "in_slab km a sz" "n \<le> sz"
  then obtain b t where t: "km_slabs km b = Some t" "a \<in> slab_live b t" "slab_object_size t = sz"
    by (auto simp: in_slab_def)
  have "b < a" "a + sz \<le> b + PAGE_SIZE"
    using slab_live_page [OF km_invD(3) [OF live_invD(1) [OF assms(1)] t(1)] t(2)] t(3) by auto
  then show ?thesis using slab [OF t(1,2)] t(3) sz(2) by (auto simp: block_def SZ_def PAGE_SIZE_def)
qed

lemma pages_disjoint:
  assumes "km_inv U big km" "b \<in> dom (km_slabs km) \<union> big" "c \<in> dom (km_slabs km) \<union> big" "b \<noteq> c"
  shows "block b 0 \<inter> block c 0 = {}"
proof -
  have "(b, 0::nat) \<in> (\<lambda>b. (b, 0)) ` (dom (km_slabs km) \<union> big)"
    "(c, 0::nat) \<in> (\<lambda>b. (b, 0)) ` (dom (km_slabs km) \<union> big)" using assms(2,3) by auto
  from balloc.consistentD(5) [OF km_invD(1) [OF assms(1)] this] assms(4) show ?thesis
    by (simp add: extent_def)
qed

lemma live_disjoint:
  assumes inv: "live_inv U big km live" and a: "(a, n) \<in> live" and c: "(c, m) \<in> live" and ne: "a \<noteq> c"
  shows "{a..<a + n} \<inter> {c..<c + m} = {}"
proof -
  have km: "km_inv U big km" using live_invD(1) [OF inv] .
  note dis = pages_disjoint [OF km] and sep = km_invD(2) [OF km]
  from inv a show ?thesis
  proof (cases rule: live_cases)
    case A: big
    from inv c show ?thesis
    proof (cases rule: live_cases)
      case big
      then show ?thesis using A dis [of a c] ne by blast
    next
      case (slab d u)
      then have "d \<in> dom (km_slabs km)" "a \<noteq> d" using A(1) sep by auto
      then show ?thesis using A slab(4) dis [of a d] by blast
    qed
  next
    case A: (slab b t)
    from inv c show ?thesis
    proof (cases rule: live_cases)
      case big
      then have "b \<in> dom (km_slabs km)" "b \<noteq> c" using A(1) sep by auto
      then show ?thesis using A(4) big dis [of b c] by blast
    next
      case (slab d u)
      show ?thesis
      proof (cases "b = d")
        case True
        then have "{a..<a + slab_object_size t} \<inter> {c..<c + slab_object_size t} = {}"
          using objects_disjoint [of a b "slab_object_size t" c] A(1,2) slab(1,2) ne by (simp add: slab_live_def)
        then show ?thesis using A(1,3) slab(1,3) True by auto
      next
        case False
        then show ?thesis using A(1,4) slab(1,4) dis [of b d] by blast
      qed
    qed
  qed
qed

lemma kmalloc_run_example: "\<exists>km a. kmalloc_run 0x1000 0x5000 km {(a, 100)}"
proof -
  have dv: "PAGE_SIZE dvd 0x1000" "PAGE_SIZE dvd 0x5000" by (simp_all add: PAGE_SIZE_def)
  obtain km where km: "kalloc_init 0x1000 0x5000 = Some km" "live_inv {0x1000..<0x5000} {} km {}"
    using kalloc_init_live [OF dv] by blast
  have run: "kmalloc_run 0x1000 0x5000 km {}" using dv km(1) by (rule kmalloc_start)
  have "km_slabs km = (\<lambda>_. None)" using km(1) by (auto simp: kalloc_init_def split: option.splits if_splits)
  then have "free_set (km_pages km) = {0x1000..<0x5000}"
    using balloc.consistentD(6) [OF km_invD(1) [OF live_invD(1) [OF km(2)]]] by simp
  then obtain a km' where "kmalloc 100 km = Some (Some a, km')"
    using kmalloc_inv [OF km(2), of 100] by (fastforce simp: PAGE_SIZE_def split: option.splits)
  from kmalloc_run_alloc [OF run this] show ?thesis by blast
qed

section \<open>Properties\<close>

text \<open>
  C2: after any sequence of \<^verbatim>\<open>kmalloc\<close> and \<^verbatim>\<open>kfree\<close> calls since boot, every live object lies
  inside the memory region, at a 16-byte aligned address, with at least as many bytes as were
  asked for; no byte of it belongs to another live object or to memory the page allocator still
  holds as free.
\<close>

theorem kmalloc_objects_disjoint:
  assumes "kmalloc_run s e km live" "(a, n) \<in> live"
  shows "a \<in> {s..<e} \<and> {a..<a + n} \<subseteq> {s..<e} \<and> MIN_SLAB_SIZE dvd a \<and>
    {a..<a + n} \<inter> free_set (km_pages km) = {} \<and>
    (\<forall>(c, m)\<in>live - {(a, n)}. c \<noteq> a \<and> {a..<a + n} \<inter> {c..<c + m} = {})"
proof -
  obtain big where inv: "live_inv {s..<e} big km live" using kmalloc_run_inv [OF assms(1)] by blast
  have ne: "c \<noteq> a" if "(c, m) \<in> live - {(a, n)}" for c m
    using inj_onD [OF live_invD(2) [OF inv], of "(c, m)" "(a, n)"] that assms(2) by auto
  have "{a..<a + n} \<inter> {c..<c + m} = {}" if "(c, m) \<in> live - {(a, n)}" for c m
    using live_disjoint [OF inv assms(2), of c m] that ne [OF that] by auto
  then show ?thesis using live_in_region [OF inv assms(2)] ne by blast
qed

theorem kmalloc_objects_disjoint_witness:
  "\<exists>km a. kmalloc_run 0x1000 0x5000 km {(a, 100)} \<and> {a..<a + 100} \<subseteq> {0x1000..<0x5000} \<and> MIN_SLAB_SIZE dvd a"
  using kmalloc_run_example kmalloc_objects_disjoint by blast

text \<open>
  C19: \<^verbatim>\<open>kmalloc\<close> of at most a page always returns, and returns NULL only when the page
  allocator has no free memory left, without any change; \<^verbatim>\<open>kfree\<close> of a live object always
  returns. None of the panics on these paths can happen.
\<close>

theorem kmalloc_kfree_return:
  assumes "kmalloc_run s e km live"
  shows "(n \<le> PAGE_SIZE \<longrightarrow> (\<exists>r km'. kmalloc n km = Some (r, km') \<and>
      (r = None \<longrightarrow> km' = km \<and> free_set (km_pages km) = {}))) \<and>
    ((a, m) \<in> live \<longrightarrow> (\<exists>km'. kfree (\<lambda>a. a \<in> {s..<e}) a km = Some km'))"
proof -
  obtain big where inv: "live_inv {s..<e} big km live" using kmalloc_run_inv [OF assms(1)] by blast
  have "\<exists>r km'. kmalloc n km = Some (r, km') \<and> (r = None \<longrightarrow> km' = km \<and> free_set (km_pages km) = {})"
    if "n \<le> PAGE_SIZE" using kmalloc_inv [OF inv that] by (auto split: option.splits)
  moreover have "\<exists>km'. kfree (\<lambda>a. a \<in> {s..<e}) a km = Some km'" if "(a, m) \<in> live"
    using kfree_inv [OF inv that, of "\<lambda>a. a \<in> {s..<e}"] live_in_region [OF inv that] by blast
  ultimately show ?thesis by blast
qed

theorem kmalloc_kfree_return_witness:
  "\<exists>km a km'. kmalloc_run 0x1000 0x5000 km {(a, 100)} \<and> kfree (\<lambda>a. a \<in> {0x1000..<0x5000}) a km = Some km'"
proof -
  obtain km a where run: "kmalloc_run 0x1000 0x5000 km {(a, 100)}" using kmalloc_run_example by blast
  with kmalloc_kfree_return [OF run, of 0 a 100] show ?thesis by auto
qed

text \<open>
  C5: once every object is freed, no slab is left and the page allocator has all of the region
  back: caches keep no empty slab and no page leaks.
\<close>

theorem kmalloc_no_leak:
  assumes "kmalloc_run s e km {}"
  shows "free_set (km_pages km) = {s..<e} \<and> km_slabs km = (\<lambda>_. None)"
proof -
  obtain big where inv: "live_inv {s..<e} big km {}" using kmalloc_run_inv [OF assms(1)] by blast
  have km: "km_inv {s..<e} big km" using live_invD(1) [OF inv] .
  have none: "big = {}" "\<And>a sz. \<not> in_slab km a sz" using live_invD(3) [OF inv] by auto
  have "km_slabs km b = None" for b
    using none(2) km_invD(4) [OF km, of b] by (cases "km_slabs km b") (auto simp: in_slab_def)
  then have "km_slabs km = (\<lambda>_. None)" by blast
  then show ?thesis using balloc.consistentD(6) [OF km_invD(1) [OF km]] none(1) by simp
qed

theorem kmalloc_no_leak_witness:
  "\<exists>km a km'. kmalloc_run 0x1000 0x5000 km {(a, 100)} \<and>
     kfree (\<lambda>a. a \<in> {0x1000..<0x5000}) a km = Some km' \<and> free_set (km_pages km') = {0x1000..<0x5000}"
proof -
  obtain km a where run: "kmalloc_run 0x1000 0x5000 km {(a, 100)}" using kmalloc_run_example by blast
  obtain big where inv: "live_inv {0x1000..<0x5000} big km {(a, 100)}" using kmalloc_run_inv [OF run] by blast
  have "a \<in> {0x1000..<0x5000}" using live_in_region [OF inv, of a 100] by blast
  then obtain km' where km': "kfree (\<lambda>a. a \<in> {0x1000..<0x5000}) a km = Some km'"
    using kfree_inv [OF inv, of a 100 "\<lambda>a. a \<in> {0x1000..<0x5000}"] by blast
  have "kmalloc_run 0x1000 0x5000 km' {}"
    using kmalloc_run_free [OF run _ km', of 100] by simp
  with run km' kmalloc_no_leak show ?thesis by blast
qed

end
