(* ===== verification/Pgtable.thy ===== *)
theory Pgtable
  imports Vimix_Prelude
begin

unbundle bit_operations_syntax

text \<open>
  Addresses and page table entries of the 64-bit RISC-V kernel: the macros of
  \<^verbatim>\<open>kernel/page.h\<close>, \<^verbatim>\<open>kernel/pgtable.h\<close>, \<^verbatim>\<open>asm/pgtable-bits.h\<close>,
  \<^verbatim>\<open>mm/pte.h\<close>, \<^verbatim>\<open>mm/mm.h\<close>, \<^verbatim>\<open>mm/memlayout.h\<close> and \<^verbatim>\<open>mm/vm.h\<close>, on 64-bit words.
  Conditions on a bit are Booleans. The kernel's constants \<^verbatim>\<open>PAGE_OFFSET\<close> comes from the
  makefile; \<^verbatim>\<open>phys_base\<close> is a value found at boot and an argument.
\<close>

section \<open>The code\<close>

definition PAGE_BYTES :: u64 where "PAGE_BYTES = push_bit 12 1"

definition PAGE_UP :: "u64 \<Rightarrow> u64" where
  "PAGE_UP addr = (addr + PAGE_BYTES - 1) AND NOT (PAGE_BYTES - 1)"

definition PAGE_DOWN :: "u64 \<Rightarrow> u64" where
  "PAGE_DOWN addr = addr AND NOT (PAGE_BYTES - 1)"

definition PTE_V :: u64 where "PTE_V = push_bit 0 1"
definition PTE_R :: u64 where "PTE_R = push_bit 1 1"
definition PTE_W :: u64 where "PTE_W = push_bit 2 1"
definition PTE_X :: u64 where "PTE_X = push_bit 3 1"
definition PTE_U :: u64 where "PTE_U = push_bit 4 1"
definition PTE_A :: u64 where "PTE_A = push_bit 6 1"
definition PTE_D :: u64 where "PTE_D = push_bit 7 1"

definition PTE_RW :: u64 where "PTE_RW = PTE_R OR PTE_W"
definition PTE_MMIO_FLAGS :: u64 where "PTE_MMIO_FLAGS = PTE_RW"
definition PTE_RO_TEXT :: u64 where "PTE_RO_TEXT = PTE_R OR PTE_X"
definition PTE_KERNEL_STACK :: u64 where "PTE_KERNEL_STACK = PTE_R OR PTE_W"
definition PTE_RW_RAM :: u64 where "PTE_RW_RAM = PTE_RW"
definition PTE_USER_RAM :: u64 where "PTE_USER_RAM = PTE_R OR PTE_W OR PTE_U"
definition PTE_MAP_DEFAULT_FLAGS :: u64 where "PTE_MAP_DEFAULT_FLAGS = PTE_V OR PTE_A OR PTE_D"

definition PXSHIFT :: "nat \<Rightarrow> nat" where "PXSHIFT level = 12 + 9 * level"

definition PT_IDX_MASK :: u64 where "PT_IDX_MASK = 0x1FF"

definition PAGE_TABLE_INDEX :: "nat \<Rightarrow> u64 \<Rightarrow> u64" where
  "PAGE_TABLE_INDEX level va = drop_bit (PXSHIFT level) va AND PT_IDX_MASK"

definition VA_FROM_PAGE_TABLE_INDEX :: "nat \<Rightarrow> u64 \<Rightarrow> u64" where
  "VA_FROM_PAGE_TABLE_INDEX level pti = push_bit (PXSHIFT level) pti"

definition MEGA_PAGE_SIZE :: u64 where "MEGA_PAGE_SIZE = push_bit (9 + 12) 1"

definition PA2PTE :: "u64 \<Rightarrow> u64" where "PA2PTE pa = push_bit 10 (drop_bit 12 pa)"
definition PTE_GET_PA :: "u64 \<Rightarrow> u64" where "PTE_GET_PA pte = push_bit 12 (drop_bit 10 pte)"
definition PTE_FLAGS :: "u64 \<Rightarrow> u64" where "PTE_FLAGS pte = pte AND 0x3FF"
definition PTE_BUILD :: "u64 \<Rightarrow> u64 \<Rightarrow> u64" where "PTE_BUILD pa flags = PA2PTE pa OR flags"

definition PTE_IS_VALID_NODE :: "u64 \<Rightarrow> bool" where "PTE_IS_VALID_NODE pte \<longleftrightarrow> pte AND PTE_V \<noteq> 0"
definition PTE_IS_WRITEABLE :: "u64 \<Rightarrow> bool" where "PTE_IS_WRITEABLE pte \<longleftrightarrow> pte AND PTE_W \<noteq> 0"
definition PTE_IS_USER_ACCESSIBLE :: "u64 \<Rightarrow> bool" where "PTE_IS_USER_ACCESSIBLE pte \<longleftrightarrow> pte AND PTE_U \<noteq> 0"

definition PTE_IS_VALID_USER :: "u64 \<Rightarrow> bool" where
  "PTE_IS_VALID_USER pte \<longleftrightarrow> PTE_IS_VALID_NODE pte \<and> PTE_IS_USER_ACCESSIBLE pte"

definition PTE_IS_LEAF :: "u64 \<Rightarrow> bool" where "PTE_IS_LEAF pte \<longleftrightarrow> pte AND (PTE_RW OR PTE_X) \<noteq> 0"

definition PTE_MAKE_VALID_LEAF :: "u64 \<Rightarrow> u64" where "PTE_MAKE_VALID_LEAF pte = pte OR PTE_V"
definition PTE_MAKE_VALID_TABLE :: "u64 \<Rightarrow> u64" where "PTE_MAKE_VALID_TABLE pte = pte OR PTE_V"

definition PAGE_OFFSET :: u64 where "PAGE_OFFSET = 0xFFFFFFC000000000"
definition USER_VA_END :: u64 where "USER_VA_END = push_bit (9 + 9 + 9 + 12 - 1) 1"
definition TRAMPOLINE :: u64 where "TRAMPOLINE = USER_VA_END - PAGE_BYTES"
definition TRAPFRAME :: u64 where "TRAPFRAME = TRAMPOLINE - PAGE_BYTES"
definition USER_STACK_HIGH :: u64 where "USER_STACK_HIGH = USER_VA_END - 16 * PAGE_BYTES"

definition VA_IS_IN_RANGE_FOR_USER :: "u64 \<Rightarrow> bool" where
  "VA_IS_IN_RANGE_FOR_USER va \<longleftrightarrow> va < USER_VA_END"

definition VA_IS_IN_RANGE_FOR_KERNEL :: "u64 \<Rightarrow> bool" where
  "VA_IS_IN_RANGE_FOR_KERNEL va \<longleftrightarrow> va \<ge> PAGE_OFFSET"

definition VA_IS_IN_RANGE :: "u64 \<Rightarrow> bool" where
  "VA_IS_IN_RANGE va \<longleftrightarrow> VA_IS_IN_RANGE_FOR_USER va \<or> VA_IS_IN_RANGE_FOR_KERNEL va"

definition virt_to_phys :: "u64 \<Rightarrow> u64 \<Rightarrow> u64" where
  "virt_to_phys phys_base va = va - PAGE_OFFSET + phys_base"

definition phys_to_virt :: "u64 \<Rightarrow> u64 \<Rightarrow> u64" where
  "phys_to_virt phys_base pa = pa - phys_base + PAGE_OFFSET"

text \<open>\<^verbatim>\<open>debug_va_sign_extend\<close> of \<^verbatim>\<open>mm/vm.c\<close>: bit 38 is copied to the bits above it.\<close>

definition debug_va_sign_extend :: "u64 \<Rightarrow> u64" where
  "debug_va_sign_extend va =
     (let used_va_bits = 12 + 3 * 9; sign_bit = used_va_bits - 1 in
      if va AND push_bit sign_bit 1 \<noteq> 0 then va OR push_bit used_va_bits (NOT 0) else va)"

section \<open>Bits of addresses and entries\<close>

lemma and_bit_iff: "x AND push_bit n 1 \<noteq> 0 \<longleftrightarrow> bit x n" for x :: u64
  by (simp add: bit_iff_and_push_bit_not_eq_0)

lemma bit_1_word: "bit (1 :: u64) n \<longleftrightarrow> n = 0"
  by (simp add: bit_1_iff)

lemmas PTE_bits = PTE_V_def PTE_R_def PTE_W_def PTE_X_def PTE_U_def PTE_A_def PTE_D_def

lemma bit_push_1: "bit (push_bit k 1 :: u64) n \<longleftrightarrow> n = k \<and> k < 64"
  unfolding bit_push_bit_iff bit_1_iff by auto

lemma bit_mask_9: "bit PT_IDX_MASK n \<longleftrightarrow> n < 9"
proof -
  have m: "PT_IDX_MASK = mask 9" by (simp add: PT_IDX_MASK_def mask_eq_exp_minus_1)
  show ?thesis unfolding m bit_mask_iff by auto
qed

lemma bit_above:
  fixes a :: u64
  assumes "unat a < 2 ^ k" "k \<le> n"
  shows "\<not> bit a n"
proof -
  have "unat a < 2 ^ n" using assms by (meson less_le_trans one_le_numeral power_increasing)
  then have "\<not> bit (unat a) n" by (simp add: bit_iff_odd)
  then show ?thesis by (simp add: bit_unsigned_iff)
qed

lemma page_mask: "PAGE_BYTES - 1 = mask 12"
  by (simp add: PAGE_BYTES_def mask_eq_exp_minus_1)

definition page_aligned :: "u64 \<Rightarrow> bool" where
  "page_aligned a \<longleftrightarrow> a mod PAGE_BYTES = 0"

lemma PAGE_BYTES_2p: "PAGE_BYTES = 2 ^ 12"
  by (simp add: PAGE_BYTES_def)

lemma page_aligned_bits: "page_aligned a \<longleftrightarrow> (\<forall>n<12. \<not> bit a n)"
proof -
  have "a mod PAGE_BYTES = take_bit 12 a" by (simp add: PAGE_BYTES_2p take_bit_eq_mod)
  then show ?thesis
    unfolding page_aligned_def by (auto simp: bit_eq_iff bit_take_bit_iff)
qed

lemma page_aligned_unat: "page_aligned a \<longleftrightarrow> 4096 dvd unat a"
proof -
  have "unat (a mod PAGE_BYTES) = unat a mod 4096" by (simp add: unat_mod PAGE_BYTES_2p)
  then show ?thesis
    unfolding page_aligned_def by (metis dvd_eq_mod_eq_0 unat_0 word_unat_eq_iff)
qed

lemma unat_inj_u64: "unat a = unat b \<longleftrightarrow> a = b" for a b :: u64
  by (simp only: word_unat_eq_iff)

lemma unat_bound_u64: "unat w < 2 ^ 64" for w :: u64
  using unsigned_less [of w] by simp

lemma unat_add_u64: "unat a + unat b < 2 ^ 64 \<Longrightarrow> unat (a + b) = unat a + unat b" for a b :: u64
  by (simp add: unat_plus_if_size word_size)

lemma unat_sub_u64: "unat b \<le> unat a \<Longrightarrow> unat (a - b) = unat a - unat b" for a b :: u64
  by (simp add: unat_sub word_le_nat_alt)

lemma page_aligned_add: "page_aligned a \<Longrightarrow> page_aligned b \<Longrightarrow> page_aligned (a + b)"
  unfolding page_aligned_unat unat_plus_if_size by (auto simp: word_size intro: dvd_diff_nat)

lemma page_aligned_diff: "page_aligned a \<Longrightarrow> page_aligned b \<Longrightarrow> page_aligned (a - b)"
  unfolding page_aligned_unat unat_sub_if_size by (auto simp: word_size intro!: dvd_diff_nat dvd_add)

lemma page_aligned_offset: "page_aligned PAGE_OFFSET"
  by (simp add: page_aligned_def PAGE_OFFSET_def PAGE_BYTES_def)

lemma page_aligned_PAGE_BYTES: "page_aligned PAGE_BYTES"
  by (simp add: page_aligned_def)

lemma and_or_nonzero: "x AND (y OR z) \<noteq> 0 \<longleftrightarrow> x AND y \<noteq> 0 \<or> x AND z \<noteq> 0" for x y z :: u64
  unfolding bit.conj_disj_distrib or_eq_0_iff by blast

lemma pte_bit_iffs:
  "PTE_IS_VALID_NODE pte \<longleftrightarrow> bit pte 0" "PTE_IS_WRITEABLE pte \<longleftrightarrow> bit pte 2"
  "PTE_IS_USER_ACCESSIBLE pte \<longleftrightarrow> bit pte 4" "PTE_IS_LEAF pte \<longleftrightarrow> bit pte 1 \<or> bit pte 2 \<or> bit pte 3"
  unfolding PTE_IS_VALID_NODE_def PTE_IS_WRITEABLE_def PTE_IS_USER_ACCESSIBLE_def PTE_IS_LEAF_def PTE_RW_def
    PTE_bits and_or_nonzero and_bit_iff by blast+

lemma bit_PTE_FLAGS: "n < 10 \<Longrightarrow> bit (PTE_FLAGS pte) n \<longleftrightarrow> bit pte n"
proof -
  have m: "(0x3FF :: u64) = mask 10" by (simp add: mask_eq_exp_minus_1)
  show "n < 10 \<Longrightarrow> bit (PTE_FLAGS pte) n \<longleftrightarrow> bit pte n"
    unfolding PTE_FLAGS_def m bit_and_iff bit_mask_iff by simp
qed

lemma PTE_GET_PA_BUILD:
  assumes "page_aligned pa" "flags < 1024"
  shows "PTE_GET_PA (PTE_BUILD pa flags) = pa" "PTE_FLAGS (PTE_BUILD pa flags) = flags"
proof -
  have fl: "\<not> bit flags n" if "10 \<le> n" for n
    using assms(2) that bit_above [of flags 10 n] by (simp add: word_less_nat_alt)
  show "PTE_GET_PA (PTE_BUILD pa flags) = pa"
  proof (rule bit_word_eqI)
    fix n assume "n < LENGTH(64)"
    show "bit (PTE_GET_PA (PTE_BUILD pa flags)) n \<longleftrightarrow> bit pa n"
    proof (cases "n < 12")
      case True
      then show ?thesis using assms(1) by (simp add: page_aligned_bits PTE_GET_PA_def bit_simps)
    next
      case False
      then show ?thesis using \<open>n < LENGTH(64)\<close> fl [of "n - 2"]
        by (auto simp: PTE_GET_PA_def PTE_BUILD_def PA2PTE_def bit_simps)
    qed
  qed
  have m: "(0x3FF :: u64) = mask 10" by (simp add: mask_eq_exp_minus_1)
  show "PTE_FLAGS (PTE_BUILD pa flags) = flags"
  proof (rule bit_word_eqI)
    fix n assume "n < LENGTH(64)"
    then show "bit (PTE_FLAGS (PTE_BUILD pa flags)) n \<longleftrightarrow> bit flags n"
      unfolding PTE_FLAGS_def m using fl [of n]
      by (cases "n < 10") (auto simp: PTE_BUILD_def PA2PTE_def bit_simps)
  qed
qed

text \<open>The three indices and the sign determine an address that is in range.\<close>

lemma kernel_va_bits:
  assumes "VA_IS_IN_RANGE_FOR_KERNEL va" "38 \<le> n" "n < 64"
  shows "bit va n"
proof -
  have "unat va \<ge> 0xFFFFFFC000000000"
    using assms(1) by (simp add: VA_IS_IN_RANGE_FOR_KERNEL_def PAGE_OFFSET_def word_le_nat_alt)
  moreover have "unat va < 2 ^ 64" using unsigned_less [of va] by simp
  ultimately have "unat va div 2 ^ 38 = 2 ^ 26 - 1" by simp
  then have "drop_bit 38 (unat va) = mask 26" by (simp add: drop_bit_eq_div mask_eq_exp_minus_1)
  then have "bit (drop_bit 38 (unat va)) (n - 38) \<longleftrightarrow> bit (mask 26 :: nat) (n - 38)" by (rule arg_cong)
  then have "bit (unat va) n" using assms(2,3) unfolding bit_drop_bit_eq bit_mask_iff by simp
  then show ?thesis by (simp add: bit_unsigned_iff)
qed

lemma user_va_bits:
  assumes "VA_IS_IN_RANGE_FOR_USER va" "38 \<le> n"
  shows "\<not> bit va n"
proof -
  have "unat va < 2 ^ 38"
    using assms(1) by (simp add: VA_IS_IN_RANGE_FOR_USER_def USER_VA_END_def word_less_nat_alt)
  then show ?thesis using assms(2) by (rule bit_above)
qed

lemma bit_index: "bit (PAGE_TABLE_INDEX level va) n \<longleftrightarrow> bit va (PXSHIFT level + n) \<and> n < 9"
  by (auto simp: PAGE_TABLE_INDEX_def bit_and_iff bit_drop_bit_eq bit_mask_9)

lemma bit_va_from_index:
  "bit (VA_FROM_PAGE_TABLE_INDEX level (PAGE_TABLE_INDEX level va)) n \<longleftrightarrow>
     bit va n \<and> PXSHIFT level \<le> n \<and> n < PXSHIFT level + 9"
  by (auto simp: VA_FROM_PAGE_TABLE_INDEX_def bit_push_bit_iff bit_index dest: bit_imp_le_length)

definition va_of_indices :: "u64 \<Rightarrow> u64 \<Rightarrow> u64 \<Rightarrow> u64" where
  "va_of_indices i2 i1 i0 = debug_va_sign_extend (VA_FROM_PAGE_TABLE_INDEX 2 i2 OR
     VA_FROM_PAGE_TABLE_INDEX 1 i1 OR VA_FROM_PAGE_TABLE_INDEX 0 i0)"

lemma va_of_indices_id:
  assumes "VA_IS_IN_RANGE va" "page_aligned va"
  shows "va_of_indices (PAGE_TABLE_INDEX 2 va) (PAGE_TABLE_INDEX 1 va) (PAGE_TABLE_INDEX 0 va) = va"
proof -
  define v where "v = VA_FROM_PAGE_TABLE_INDEX 2 (PAGE_TABLE_INDEX 2 va) OR
     VA_FROM_PAGE_TABLE_INDEX 1 (PAGE_TABLE_INDEX 1 va) OR VA_FROM_PAGE_TABLE_INDEX 0 (PAGE_TABLE_INDEX 0 va)"
  have v: "bit v n \<longleftrightarrow> bit va n \<and> 12 \<le> n \<and> n < 39" for n
    unfolding v_def bit_or_iff bit_va_from_index by (auto simp: PXSHIFT_def)
  have low: "\<not> bit va n" if "n < 12" for n using assms(2) that by (simp add: page_aligned_bits)
  have sgn: "v AND push_bit 38 1 \<noteq> 0 \<longleftrightarrow> bit va 38" unfolding and_bit_iff v by simp
  have high: "bit va n \<longleftrightarrow> bit va 38" if "39 \<le> n" "n < 64" for n
    using assms(1) that user_va_bits [of va] kernel_va_bits [of va] by (auto simp: VA_IS_IN_RANGE_def)
  have ext: "debug_va_sign_extend v = (if bit va 38 then v OR push_bit 39 (NOT 0) else v)"
    using sgn by (simp add: debug_va_sign_extend_def)
  show ?thesis
    unfolding va_of_indices_def v_def [symmetric] ext
  proof (rule bit_word_eqI)
    fix n assume n: "n < LENGTH(64)"
    have "bit (push_bit 39 (NOT 0) :: u64) n \<longleftrightarrow> 39 \<le> n" using n by (auto simp: bit_simps)
    then show "bit (if bit va 38 then v OR push_bit 39 (NOT 0) else v) n = bit va n"
      using n low [of n] high [of n] v [of n] by (auto simp: bit_or_iff)
  qed
qed

text \<open>
  C20: building a page table entry loses nothing: from the entry for an aligned physical address
  and ten bits of flags, \<^verbatim>\<open>PTE_GET_PA\<close> and \<^verbatim>\<open>PTE_FLAGS\<close> give both back; and the three
  page table indices of a virtual address in user or kernel range, put together and sign
  extended, give the address of its page, so two such pages never share all three indices.
\<close>

theorem pte_and_va_roundtrip:
  assumes "page_aligned pa" "flags < 1024" "VA_IS_IN_RANGE va" "page_aligned va"
  shows "PTE_GET_PA (PTE_BUILD pa flags) = pa \<and> PTE_FLAGS (PTE_BUILD pa flags) = flags \<and>
    debug_va_sign_extend (VA_FROM_PAGE_TABLE_INDEX 2 (PAGE_TABLE_INDEX 2 va) OR
      VA_FROM_PAGE_TABLE_INDEX 1 (PAGE_TABLE_INDEX 1 va) OR
      VA_FROM_PAGE_TABLE_INDEX 0 (PAGE_TABLE_INDEX 0 va)) = va"
  using PTE_GET_PA_BUILD [OF assms(1,2)] va_of_indices_id [OF assms(3,4)] by (simp add: va_of_indices_def)

theorem pte_and_va_roundtrip_witness:
  "PTE_GET_PA (PTE_BUILD 0x80201000 0xD7) = 0x80201000 \<and>
   debug_va_sign_extend (VA_FROM_PAGE_TABLE_INDEX 2 (PAGE_TABLE_INDEX 2 0xFFFFFFC000201000) OR
      VA_FROM_PAGE_TABLE_INDEX 1 (PAGE_TABLE_INDEX 1 0xFFFFFFC000201000) OR
      VA_FROM_PAGE_TABLE_INDEX 0 (PAGE_TABLE_INDEX 0 0xFFFFFFC000201000)) = 0xFFFFFFC000201000"
proof -
  have "page_aligned 0x80201000" "(0xD7 :: u64) < 1024" "VA_IS_IN_RANGE 0xFFFFFFC000201000"
    "page_aligned 0xFFFFFFC000201000"
    by (simp_all add: page_aligned_def PAGE_BYTES_def VA_IS_IN_RANGE_def VA_IS_IN_RANGE_FOR_KERNEL_def PAGE_OFFSET_def)
  from pte_and_va_roundtrip [OF this] show ?thesis by blast
qed

end
