(* ===== verification/Memory_Map.thy ===== *)
theory Memory_Map
  imports Pgtable
begin

text \<open>
  The memory map of a page table: \<^verbatim>\<open>kernel/mm/memory_map.c\<close> and
  \<^verbatim>\<open>memory_map.h\<close>. A map is the list of its regions, ordered by virtual address. The
  fields are 64-bit words and wrap as in C. Calls of \<^verbatim>\<open>free_pages_range\<close> are logged as
  \<open>(physical address, page count)\<close>; the code passes the same address through
  \<^verbatim>\<open>phys_to_virt\<close>. \<open>None\<close> is a panic. A failing \<^verbatim>\<open>kmalloc\<close> is an argument.
\<close>

unbundle bit_operations_syntax

section \<open>The code\<close>

datatype mm_region_type =
    MM_REGION_RESERVED | MM_REGION_EARLY_RAM | MM_REGION_USABLE_RAM | MM_REGION_KERNEL
  | MM_REGION_KERNEL_TEXT | MM_REGION_KERNEL_TEXT_PA | MM_REGION_KERNEL_RO_DATA
  | MM_REGION_KERNEL_DATA | MM_REGION_KERNEL_BSS | MM_REGION_DTB | MM_REGION_INITRD
  | MM_REGION_MMIO | MM_REGION_USER_TEXT | MM_REGION_USER_RW_TEXT | MM_REGION_USER_RO_DATA
  | MM_REGION_USER_DATA | MM_REGION_USER_BSS | MM_REGION_USER_STACK | MM_REGION_USER_KSTACK
  | MM_REGION_USER_TRAPFRAME | MM_REGION_USER_TRAMPOLINE

datatype mm_region_mapped =
    MM_REGION_NEVER_MAP | MM_REGION_MARKED_FOR_MAPPING | MM_REGION_PARTIAL_MAPPED
  | MM_REGION_MAPPED | MM_REGION_MARKED_FOR_UNMAPPING

record mm_region_attributes =
  pte_flags :: u64
  free_pages_attr :: bool
  copy_on_fork :: bool

definition attrs :: "u64 \<Rightarrow> bool \<Rightarrow> bool \<Rightarrow> mm_region_attributes" where
  "attrs pf fp cf = \<lparr>pte_flags = pf, free_pages_attr = fp, copy_on_fork = cf\<rparr>"

fun g_region_attributes :: "mm_region_type \<Rightarrow> mm_region_attributes" where
  "g_region_attributes MM_REGION_RESERVED = attrs 0 False False"
| "g_region_attributes MM_REGION_EARLY_RAM = attrs PTE_RW_RAM False False"
| "g_region_attributes MM_REGION_USABLE_RAM = attrs PTE_RW_RAM False False"
| "g_region_attributes MM_REGION_KERNEL = attrs 0 False False"
| "g_region_attributes MM_REGION_KERNEL_TEXT = attrs PTE_RO_TEXT False False"
| "g_region_attributes MM_REGION_KERNEL_TEXT_PA = attrs PTE_RO_TEXT False False"
| "g_region_attributes MM_REGION_KERNEL_RO_DATA = attrs PTE_R False False"
| "g_region_attributes MM_REGION_KERNEL_DATA = attrs PTE_RW_RAM False False"
| "g_region_attributes MM_REGION_KERNEL_BSS = attrs PTE_RW_RAM False False"
| "g_region_attributes MM_REGION_DTB = attrs PTE_R False False"
| "g_region_attributes MM_REGION_INITRD = attrs PTE_RW_RAM False False"
| "g_region_attributes MM_REGION_MMIO = attrs PTE_MMIO_FLAGS False False"
| "g_region_attributes MM_REGION_USER_TEXT = attrs (PTE_RO_TEXT OR PTE_U) True True"
| "g_region_attributes MM_REGION_USER_RW_TEXT = attrs (PTE_RO_TEXT OR PTE_RW OR PTE_U) True True"
| "g_region_attributes MM_REGION_USER_RO_DATA = attrs (PTE_R OR PTE_U) True True"
| "g_region_attributes MM_REGION_USER_DATA = attrs PTE_USER_RAM True True"
| "g_region_attributes MM_REGION_USER_BSS = attrs PTE_USER_RAM True True"
| "g_region_attributes MM_REGION_USER_STACK = attrs PTE_USER_RAM True True"
| "g_region_attributes MM_REGION_USER_KSTACK = attrs PTE_KERNEL_STACK True False"
| "g_region_attributes MM_REGION_USER_TRAPFRAME = attrs PTE_RW_RAM False False"
| "g_region_attributes MM_REGION_USER_TRAMPOLINE = attrs PTE_RO_TEXT False False"

record mm_region =
  start_pa :: u64
  start_va :: u64
  rsize :: u64
  rtype :: mm_region_type
  mapped :: mm_region_mapped
  free_on_unmap :: bool

record memory_map =
  ram :: mm_region
  kernel :: mm_region
  region_list :: "mm_region list"

type_synonym freed = "(u64 \<times> u64) list"

definition mm_region_get_pte :: "mm_region \<Rightarrow> u64" where
  "mm_region_get_pte r = pte_flags (g_region_attributes (rtype r))"

definition mm_region_init :: "u64 \<Rightarrow> u64 \<Rightarrow> u64 \<Rightarrow> mm_region_type \<Rightarrow> mm_region" where
  "mm_region_init pa va sz t =
     \<lparr>start_pa = pa, start_va = va, rsize = sz, rtype = t,
      mapped = (if t = MM_REGION_RESERVED \<or> t = MM_REGION_KERNEL then MM_REGION_NEVER_MAP
                else MM_REGION_MARKED_FOR_MAPPING),
      free_on_unmap = free_pages_attr (g_region_attributes t)\<rparr>"

definition mm_region_alloc_init ::
  "bool \<Rightarrow> u64 \<Rightarrow> u64 \<Rightarrow> u64 \<Rightarrow> mm_region_type \<Rightarrow> mm_region option" where
  "mm_region_alloc_init alloc_ok pa va sz t =
     (if \<not> alloc_ok then None else Some (mm_region_init pa va sz t))"

definition mm_regions_can_be_merged :: "mm_region \<Rightarrow> mm_region \<Rightarrow> bool" where
  "mm_regions_can_be_merged a b =
     (if rtype a \<noteq> rtype b then False
      else if rtype a = MM_REGION_MMIO then False
      else if mapped a \<noteq> mapped b then False
      else
        let a_before_b_va = (start_va a + rsize a = start_va b);
            b_before_a_va = (start_va b + rsize b = start_va a);
            a_before_b_pa = (start_pa a + rsize a = start_pa b);
            b_before_a_pa = (start_pa b + rsize b = start_pa a)
        in a_before_b_va \<and> a_before_b_pa \<or> b_before_a_va \<and> b_before_a_pa)"

definition mm_region_fits_before :: "mm_region \<Rightarrow> mm_region \<Rightarrow> bool" where
  "mm_region_fits_before a b \<longleftrightarrow> start_va a + rsize a - 1 < start_va b"

definition mm_regions_merge :: "mm_region \<Rightarrow> mm_region \<Rightarrow> mm_region" where
  "mm_regions_merge a b =
     (let merged_start_va = min (start_va a) (start_va b);
          merged_start_pa = min (start_pa a) (start_pa b);
          merged_end_va = max (start_va a + rsize a) (start_va b + rsize b)
      in a\<lparr>start_va := merged_start_va, start_pa := merged_start_pa,
           rsize := merged_end_va - merged_start_va\<rparr>)"

text \<open>\<^verbatim>\<open>list_add(&new_region->list, pos->prev)\<close> puts the new region in front of the current one.\<close>

fun memory_map_add_single_region :: "mm_region \<Rightarrow> mm_region list \<Rightarrow> mm_region list" where
  "memory_map_add_single_region new [] = [new]"
| "memory_map_add_single_region new (r # rs) =
     (if mm_regions_can_be_merged r new then mm_regions_merge r new # rs
      else if mm_region_fits_before new r then new # r # rs
      else r # memory_map_add_single_region new rs)"

fun memory_map_add_single_region_and_split ::
  "bool \<Rightarrow> mm_region \<Rightarrow> mm_region list \<Rightarrow> mm_region list option" where
  "memory_map_add_single_region_and_split alloc_ok new [] = Some [new]"
| "memory_map_add_single_region_and_split alloc_ok new (r # rs) =
     (let new_region_end = start_va new + rsize new - 1;
          region_end = start_va r + rsize r - 1 in
      if mm_regions_can_be_merged r new then Some (mm_regions_merge r new # rs)
      else if start_va new = start_va r \<and> rsize new = rsize r then Some (new # rs)
      else if mm_region_fits_before new r then Some (new # r # rs)
      else if start_va new = start_va r \<and> new_region_end < region_end then
        Some (new # r\<lparr>start_va := new_region_end + 1, start_pa := start_pa r + rsize new,
                       rsize := rsize r - rsize new\<rparr> # rs)
      else if start_va new > start_va r \<and> new_region_end < region_end then
        if \<not> alloc_ok then None
        else
          let r' = r\<lparr>rsize := start_va new - start_va r\<rparr>;
              offset = rsize new + rsize r';
              split_region = r\<lparr>start_va := start_va r + offset, start_pa := start_pa r + offset,
                               rsize := rsize r - offset\<rparr>
          in if rsize split_region > 0 then Some (r' # new # split_region # rs)
             else Some (r' # new # rs)
      else (case memory_map_add_single_region_and_split alloc_ok new rs of
              None \<Rightarrow> None | Some rs' \<Rightarrow> Some (r # rs')))"

text \<open>The first flag is the allocation of the region, the second the one for a split.\<close>

definition memory_map_add_region_and_split ::
  "bool \<Rightarrow> bool \<Rightarrow> u64 \<Rightarrow> u64 \<Rightarrow> u64 \<Rightarrow> mm_region_type \<Rightarrow> mm_region list \<Rightarrow> mm_region list option" where
  "memory_map_add_region_and_split alloc_ok split_ok pa va sz t regions =
     (if sz = 0 then Some regions
      else case mm_region_alloc_init alloc_ok pa va sz t of
             None \<Rightarrow> None
           | Some region \<Rightarrow> memory_map_add_single_region_and_split split_ok region regions)"

definition memory_map_set_ram ::
  "bool \<Rightarrow> bool \<Rightarrow> u64 \<Rightarrow> u64 \<Rightarrow> u64 \<Rightarrow> memory_map \<Rightarrow> memory_map option" where
  "memory_map_set_ram alloc_ok split_ok pa va sz map0 =
     (case memory_map_add_region_and_split alloc_ok split_ok pa va sz MM_REGION_USABLE_RAM (region_list map0) of
        None \<Rightarrow> None
      | Some rs \<Rightarrow> Some (map0\<lparr>ram := mm_region_init pa va sz MM_REGION_USABLE_RAM, region_list := rs\<rparr>))"

text \<open>The regions of the early memory map as \<open>(pa, va, size, type)\<close>; the allocations succeed or panic.\<close>

fun add_regions_and_split ::
  "(u64 \<times> u64 \<times> u64 \<times> mm_region_type) list \<Rightarrow> mm_region list \<Rightarrow> mm_region list option" where
  "add_regions_and_split [] regions = Some regions"
| "add_regions_and_split ((pa, va, sz, t) # es) regions =
     (case memory_map_add_region_and_split True True pa va sz t regions of
        None \<Rightarrow> None | Some rs \<Rightarrow> add_regions_and_split es rs)"

definition memory_map_copy_from_early_memory_map ::
  "mm_region \<Rightarrow> (u64 \<times> u64 \<times> u64 \<times> mm_region_type) list \<Rightarrow> memory_map \<Rightarrow> memory_map option" where
  "memory_map_copy_from_early_memory_map early_kernel early_regions map0 =
     (case add_regions_and_split
             ((start_pa early_kernel, start_va early_kernel, rsize early_kernel, rtype early_kernel) # early_regions)
             (region_list map0) of
        None \<Rightarrow> None
      | Some rs \<Rightarrow> Some (map0\<lparr>kernel := early_kernel, region_list := rs\<rparr>))"

text \<open>\<^verbatim>\<open>g_next_free_mmio_va\<close> is threaded through.\<close>

definition vm_get_mmio_offset :: "u64 \<Rightarrow> u64 \<Rightarrow> u64 \<Rightarrow> u64 \<times> u64" where
  "vm_get_mmio_offset new_mmio_start_pa new_mmio_size next_va =
     (next_va - new_mmio_start_pa, next_va + (new_mmio_size + PAGE_BYTES))"

text \<open>
  The inner loop of \<^verbatim>\<open>memory_map_add_device_mmio\<close> over the \<open>(start_pa, size)\<close> ranges of a
  device; it also returns the \<^verbatim>\<open>start_va\<close> given to each range.
\<close>

fun add_mmio_ranges :: "(u64 \<times> u64) list \<Rightarrow> u64 \<Rightarrow> mm_region list \<Rightarrow> u64 list \<times> u64 \<times> mm_region list" where
  "add_mmio_ranges [] next_va regions = ([], next_va, regions)"
| "add_mmio_ranges ((pa, sz) # ms) next_va regions =
     (if sz = 0 then ([], next_va, regions)
      else
        let map_start_pa = PAGE_DOWN pa;
            map_end_pa = PAGE_UP (pa + sz);
            map_size = map_end_pa - map_start_pa
        in case vm_get_mmio_offset map_start_pa map_size next_va of
             (offset, next_va1) \<Rightarrow>
               (case add_mmio_ranges ms next_va1
                       (memory_map_add_single_region
                          (mm_region_init map_start_pa (map_start_pa + offset) map_size MM_REGION_MMIO) regions) of
                  (vas, next_va2, regions2) \<Rightarrow> ((pa + offset) # vas, next_va2, regions2)))"

definition DEVICE_MAX_MEM_MAPS :: nat where "DEVICE_MAX_MEM_MAPS = 4"

fun memory_map_add_device_mmio ::
  "(bool \<times> (u64 \<times> u64) list) list \<Rightarrow> u64 \<Rightarrow> mm_region list \<Rightarrow> u64 \<times> mm_region list" where
  "memory_map_add_device_mmio [] next_va regions = (next_va, regions)"
| "memory_map_add_device_mmio ((mmu_map_memory, ranges) # devs) next_va regions =
     (if mmu_map_memory
      then case add_mmio_ranges (take DEVICE_MAX_MEM_MAPS ranges) next_va regions of
             (vas, next_va1, regions1) \<Rightarrow> memory_map_add_device_mmio devs next_va1 regions1
      else memory_map_add_device_mmio devs next_va regions)"

text \<open>What \<^verbatim>\<open>mm_region_remove\<close> frees; the caller takes the region out of the list.\<close>

definition mm_region_remove :: "mm_region \<Rightarrow> freed" where
  "mm_region_remove r = (if free_on_unmap r then [(start_pa r, rsize r div PAGE_BYTES)] else [])"

definition memory_map_free :: "mm_region list \<Rightarrow> freed \<times> mm_region list" where
  "memory_map_free regions = (concat (map mm_region_remove regions), [])"

text \<open>\<^verbatim>\<open>mm_region_resize\<close>: \<open>None\<close> as the region is its removal.\<close>

definition mm_region_resize :: "mm_region \<Rightarrow> u64 \<Rightarrow> u64 \<Rightarrow> freed \<times> mm_region option" where
  "mm_region_resize r new_start_va new_size =
     (if new_size = 0 then (mm_region_remove r, None)
      else
        let start_offset = new_start_va - start_va r;
            end_offset = (new_start_va + new_size) - (start_va r + rsize r);
            freed_start = (if free_on_unmap r \<and> sint start_offset > 0
                           then [(start_pa r, start_offset div PAGE_BYTES)] else []);
            freed_end = (if free_on_unmap r \<and> sint end_offset < 0
                         then [(start_pa r + rsize r + end_offset, (- end_offset) div PAGE_BYTES)] else [])
        in (freed_start @ freed_end,
            Some (r\<lparr>start_va := new_start_va, start_pa := start_pa r + start_offset, rsize := new_size\<rparr>)))"

definition remove_step :: "u64 \<Rightarrow> u64 \<Rightarrow> mm_region \<Rightarrow> (freed \<times> mm_region option) option" where
  "remove_step start_va0 end_va r =
     (let region_end_va = start_va r + rsize r - 1 in
      if start_va r \<ge> start_va0 \<and> region_end_va \<le> end_va then Some (mm_region_remove r, None)
      else if start_va r < start_va0 \<and> region_end_va > start_va0 \<and> region_end_va \<le> end_va
      then Some (mm_region_resize r (start_va r) (start_va0 - start_va r))
      else if start_va r \<ge> start_va0 \<and> start_va r < end_va \<and> region_end_va \<ge> end_va
      then let offset = end_va - start_va r + 1 in
           Some (mm_region_resize r (start_va r + offset) (rsize r - offset))
      else if start_va r < start_va0 \<and> region_end_va > end_va then None
      else Some ([], Some r))"

fun remove_loop :: "u64 \<Rightarrow> u64 \<Rightarrow> mm_region list \<Rightarrow> (freed \<times> mm_region list) option" where
  "remove_loop start_va0 end_va [] = Some ([], [])"
| "remove_loop start_va0 end_va (r # rs) =
     (case remove_step start_va0 end_va r of
        None \<Rightarrow> None
      | Some (fr, r') \<Rightarrow>
          (case remove_loop start_va0 end_va rs of
             None \<Rightarrow> None
           | Some (frs, rs') \<Rightarrow> Some (fr @ frs, (case r' of None \<Rightarrow> rs' | Some x \<Rightarrow> x # rs'))))"

definition memory_map_remove_regions ::
  "u64 \<Rightarrow> u64 \<Rightarrow> mm_region list \<Rightarrow> (freed \<times> mm_region list) option" where
  "memory_map_remove_regions start_va0 sz regions = remove_loop start_va0 (start_va0 + sz - 1) regions"

section \<open>Regions as intervals\<close>

definition lo :: "mm_region \<Rightarrow> nat" where "lo r = unat (start_va r)"
definition hi :: "mm_region \<Rightarrow> nat" where "hi r = unat (start_va r) + unat (rsize r)"
definition pl :: "mm_region \<Rightarrow> nat" where "pl r = unat (start_pa r)"

text \<open>
  A page-aligned region, not empty, that ends below the last virtual address and inside of the
  56-bit physical addresses and frees its pages as its type says.
\<close>

definition region_ok :: "mm_region \<Rightarrow> bool" where
  "region_ok r \<longleftrightarrow> page_aligned (start_pa r) \<and> page_aligned (start_va r) \<and> page_aligned (rsize r) \<and>
     0 < rsize r \<and> hi r < 2 ^ 64 \<and> pl r + unat (rsize r) < 2 ^ 56 \<and>
     free_on_unmap r = free_pages_attr (g_region_attributes (rtype r))"

definition map_ok :: "mm_region list \<Rightarrow> bool" where
  "map_ok rs \<longleftrightarrow> (\<forall>r\<in>set rs. region_ok r) \<and> sorted_wrt (\<lambda>a b. hi a \<le> lo b) rs"

text \<open>What a region says: virtual address, physical address, type and state of every byte.\<close>

definition region_map :: "mm_region \<Rightarrow> (nat \<times> nat \<times> mm_region_type \<times> mm_region_mapped) set" where
  "region_map r = {(va, pa, t, m). lo r \<le> va \<and> va < hi r \<and> pa + lo r = pl r + va \<and> t = rtype r \<and> m = mapped r}"

definition map_of_regions :: "mm_region list \<Rightarrow> (nat \<times> nat \<times> mm_region_type \<times> mm_region_mapped) set" where
  "map_of_regions rs = (\<Union>r\<in>set rs. region_map r)"

lemma region_okD:
  assumes "region_ok r"
  shows "lo r < hi r" "hi r < 2 ^ 64" "unat (start_va r + rsize r) = hi r"
    "unat (start_pa r + rsize r) = pl r + (hi r - lo r)" "unat (rsize r) = hi r - lo r"
    "unat (start_va r + rsize r - 1) = hi r - 1" "4096 dvd lo r" "4096 dvd hi r" "4096 dvd pl r"
proof -
  have ok: "4096 dvd unat (start_pa r)" "4096 dvd unat (start_va r)" "4096 dvd unat (rsize r)" "0 < unat (rsize r)"
      "unat (start_va r) + unat (rsize r) < 2 ^ 64" "unat (start_pa r) + unat (rsize r) < 2 ^ 56"
    using assms by (auto simp: region_ok_def page_aligned_unat hi_def pl_def word_less_nat_alt)
  show 1: "unat (start_va r + rsize r) = hi r" using ok(5) by (simp add: hi_def unat_plus_if_size word_size)
  show "unat (start_pa r + rsize r) = pl r + (hi r - lo r)"
    using ok(6) by (simp add: hi_def pl_def lo_def unat_plus_if_size word_size)
  show "unat (start_va r + rsize r - 1) = hi r - 1"
    using 1 ok(4) by (subst unat_minus_one) (auto simp: hi_def unat_eq_0)
  show "lo r < hi r" "hi r < 2 ^ 64" "unat (rsize r) = hi r - lo r" "4096 dvd lo r" "4096 dvd hi r" "4096 dvd pl r"
    using ok by (auto simp: lo_def hi_def pl_def)
qed

lemma can_be_merged_iff:
  assumes "region_ok a" "region_ok b"
  shows "mm_regions_can_be_merged a b \<longleftrightarrow> rtype a = rtype b \<and> rtype a \<noteq> MM_REGION_MMIO \<and> mapped a = mapped b \<and>
    (hi a = lo b \<and> pl a + (hi a - lo a) = pl b \<or> hi b = lo a \<and> pl b + (hi b - lo b) = pl a)"
  using region_okD(3,4) [OF assms(1)] region_okD(3,4) [OF assms(2)]
  by (auto simp: mm_regions_can_be_merged_def Let_def word_unat_eq_iff lo_def pl_def)

lemma fits_before_iff:
  assumes "region_ok a"
  shows "mm_region_fits_before a b \<longleftrightarrow> hi a \<le> lo b"
  using region_okD(1,6) [OF assms] by (auto simp: mm_region_fits_before_def word_less_nat_alt lo_def)

lemma unat_min: "unat (min a b) = min (unat a) (unat b)" for a b :: u64
  by (simp add: min_def word_le_nat_alt)

lemma unat_max: "unat (max a b) = max (unat a) (unat b)" for a b :: u64
  by (simp add: max_def word_le_nat_alt)

lemma merge_fields:
  assumes "region_ok a" "region_ok b" "mm_regions_can_be_merged a b"
  shows "lo (mm_regions_merge a b) = min (lo a) (lo b)" "hi (mm_regions_merge a b) = max (hi a) (hi b)"
    "pl (mm_regions_merge a b) = min (pl a) (pl b)" "rtype (mm_regions_merge a b) = rtype a"
    "mapped (mm_regions_merge a b) = mapped a" "free_on_unmap (mm_regions_merge a b) = free_on_unmap a"
proof -
  let ?m = "mm_regions_merge a b"
  show lo: "lo ?m = min (lo a) (lo b)" and "pl ?m = min (pl a) (pl b)"
    by (simp_all add: mm_regions_merge_def Let_def lo_def pl_def unat_min)
  show "rtype ?m = rtype a" "mapped ?m = mapped a" "free_on_unmap ?m = free_on_unmap a"
    by (simp_all add: mm_regions_merge_def Let_def)
  have "unat (max (start_va a + rsize a) (start_va b + rsize b)) = max (hi a) (hi b)"
    unfolding unat_max using region_okD(3) assms by simp
  moreover have "min (lo a) (lo b) \<le> max (hi a) (hi b)"
    using region_okD(1) [OF assms(1)] by simp
  ultimately have "unat (rsize ?m) = max (hi a) (hi b) - min (lo a) (lo b)"
    by (simp add: mm_regions_merge_def Let_def unat_sub word_le_nat_alt lo_def unat_min)
  then show "hi ?m = max (hi a) (hi b)"
    using lo \<open>min (lo a) (lo b) \<le> max (hi a) (hi b)\<close> by (simp add: hi_def lo_def)
qed

lemma region_okI:
  assumes "4096 dvd lo r" "4096 dvd hi r" "4096 dvd pl r" "lo r < hi r" "hi r < 2 ^ 64"
    "pl r + (hi r - lo r) < 2 ^ 56" "free_on_unmap r = free_pages_attr (g_region_attributes (rtype r))"
  shows "region_ok r"
proof -
  have sz: "unat (rsize r) = hi r - lo r" by (simp add: hi_def lo_def)
  have "4096 dvd unat (rsize r)" unfolding sz using assms(1,2) by (rule dvd_diff_nat [rotated])
  moreover have "0 < rsize r" using sz assms(4) by (simp add: word_less_nat_alt)
  ultimately show ?thesis
    unfolding region_ok_def page_aligned_unat sz using assms by (simp only: lo_def pl_def simp_thms)
qed

lemma merge_cases:
  assumes "region_ok a" "region_ok b" "mm_regions_can_be_merged a b"
  obtains (ab) "hi a = lo b" "pl b = pl a + (hi a - lo a)" "lo (mm_regions_merge a b) = lo a"
      "hi (mm_regions_merge a b) = hi b" "pl (mm_regions_merge a b) = pl a"
  | (ba) "hi b = lo a" "pl a = pl b + (hi b - lo b)" "lo (mm_regions_merge a b) = lo b"
      "hi (mm_regions_merge a b) = hi a" "pl (mm_regions_merge a b) = pl b"
proof -
  have lt: "lo a < hi a" "lo b < hi b" using region_okD(1) assms by auto
  consider "hi a = lo b" "pl a + (hi a - lo a) = pl b" | "hi b = lo a" "pl b + (hi b - lo b) = pl a"
    using assms(3) unfolding can_be_merged_iff [OF assms(1,2)] by blast
  then show ?thesis
  proof cases
    case 1
    then show ?thesis using ab merge_fields(1-3) [OF assms] lt by linarith
  next
    case 2
    then show ?thesis using ba merge_fields(1-3) [OF assms] lt by linarith
  qed
qed

lemma merge_ok:
  assumes "region_ok a" "region_ok b" "mm_regions_can_be_merged a b"
  shows "region_ok (mm_regions_merge a b)"
    "region_map (mm_regions_merge a b) = region_map a \<union> region_map b"
proof -
  note m = merge_fields(4-6) [OF assms]
  note A = region_okD [OF assms(1)] and B = region_okD [OF assms(2)]
  have c: "rtype a = rtype b" "mapped a = mapped b" using assms can_be_merged_iff by auto
  have lim: "pl a + (hi a - lo a) < 2 ^ 56" "pl b + (hi b - lo b) < 2 ^ 56"
    using assms(1,2) A(5) B(5) by (simp_all only: region_ok_def)
  have free: "free_on_unmap (mm_regions_merge a b) = free_pages_attr (g_region_attributes (rtype (mm_regions_merge a b)))"
    unfolding m using assms(1) by (simp only: region_ok_def)
  from assms have "region_ok (mm_regions_merge a b) \<and> region_map (mm_regions_merge a b) = region_map a \<union> region_map b"
  proof (cases rule: merge_cases)
    case ab
    have "region_ok (mm_regions_merge a b)"
      by (rule region_okI; (rule free | unfold ab(3-5), (rule A(7,9) B(8,2) | use A(1) B(1) ab lim in linarith)))
    moreover have "region_map (mm_regions_merge a b) = region_map a \<union> region_map b"
      unfolding region_map_def m ab(3-5) c using A(1) B(1) ab(1,2) by auto
    ultimately show ?thesis by blast
  next
    case ba
    have "region_ok (mm_regions_merge a b)"
      by (rule region_okI; (rule free | unfold ba(3-5), (rule B(7,9) A(8,2) | use A(1) B(1) ba lim in linarith)))
    moreover have "region_map (mm_regions_merge a b) = region_map a \<union> region_map b"
      unfolding region_map_def m ba(3-5) c using A(1) B(1) ba(1,2) by auto
    ultimately show ?thesis by blast
  qed
  then show "region_ok (mm_regions_merge a b)"
    "region_map (mm_regions_merge a b) = region_map a \<union> region_map b" by blast+
qed

lemma region_map_nonempty: "region_ok r \<Longrightarrow> lo r \<le> va \<and> va < hi r \<longleftrightarrow> (\<exists>x. (va, x) \<in> region_map r)"
  by (auto simp: region_map_def intro: exI [of _ "pl r + va - lo r"])

definition apart :: "mm_region \<Rightarrow> mm_region \<Rightarrow> bool" where
  "apart a b \<longleftrightarrow> hi a \<le> lo b \<or> hi b \<le> lo a"

text \<open>Adding a region that overlaps no other.\<close>

lemma add_single_low:
  assumes "\<forall>r\<in>set rs. region_ok r \<and> L \<le> lo r" "region_ok new" "L \<le> lo new"
  shows "\<forall>r\<in>set (memory_map_add_single_region new rs). L \<le> lo r"
  using assms(1)
proof (induction rs)
  case (Cons r rs)
  then show ?case using assms(2,3) merge_fields(1) [of r new] by auto
qed (use assms in simp)

lemma map_ok_simps [simp]:
  "map_ok []"
  "map_ok (r # rs) \<longleftrightarrow> region_ok r \<and> map_ok rs \<and> (\<forall>x\<in>set rs. hi r \<le> lo x)"
  by (auto simp: map_ok_def)

lemma map_of_regions_simps [simp]:
  "map_of_regions [] = {}"
  "map_of_regions (r # rs) = region_map r \<union> map_of_regions rs"
  by (simp_all add: map_of_regions_def)

lemma map_okD: "map_ok rs \<Longrightarrow> r \<in> set rs \<Longrightarrow> region_ok r"
  by (simp add: map_ok_def)

lemma merge_below:
  assumes "region_ok r" "region_ok new" "mm_regions_can_be_merged r new"
    "region_ok x" "hi r \<le> lo x" "apart x new"
  shows "hi (mm_regions_merge r new) \<le> lo x"
proof -
  have lt: "lo r < hi r" "lo new < hi new" "lo x < hi x" using assms(1,2,4) region_okD(1) by auto
  from assms(1-3) show ?thesis
    by (cases rule: merge_cases) (use lt assms(5,6) in \<open>unfold apart_def, linarith\<close>)+
qed

lemma add_single_region_ok:
  assumes "map_ok rs" "region_ok new" "\<forall>r\<in>set rs. apart r new"
  shows "map_ok (memory_map_add_single_region new rs) \<and>
    map_of_regions (memory_map_add_single_region new rs) = map_of_regions rs \<union> region_map new"
  using assms(1,3)
proof (induction rs)
  case Nil
  then show ?case using assms(2) by simp
next
  case (Cons r rs)
  have r: "region_ok r" "map_ok rs" "\<forall>x\<in>set rs. hi r \<le> lo x" "apart r new" "\<forall>x\<in>set rs. apart x new"
    using Cons.prems by simp_all
  have lt: "lo r < hi r" "lo new < hi new" using r(1) assms(2) region_okD(1) by auto
  consider (merge) "mm_regions_can_be_merged r new" | (before) "\<not> mm_regions_can_be_merged r new" "hi new \<le> lo r"
    | (after) "\<not> mm_regions_can_be_merged r new" "\<not> hi new \<le> lo r" by blast
  then show ?case
  proof cases
    case merge
    have "hi (mm_regions_merge r new) \<le> lo x" if "x \<in> set rs" for x
      by (rule merge_below [OF r(1) assms(2) merge]) (use that r map_okD in auto)
    then show ?thesis using merge_ok [OF r(1) assms(2) merge] r(2) merge by (simp add: Un_ac)
  next
    case before
    then have f: "mm_region_fits_before new r" using fits_before_iff [OF assms(2)] by simp
    have "hi new \<le> lo x" if "x \<in> set rs" for x
      using bspec [OF r(3) that] before(2) lt by linarith
    then show ?thesis using before f r assms(2) by (simp add: Un_ac)
  next
    case after
    then have f: "\<not> mm_region_fits_before new r" using fits_before_iff [OF assms(2)] by simp
    have "hi r \<le> lo new" using after(2) r(4) by (simp add: apart_def)
    then have "\<forall>x\<in>set (memory_map_add_single_region new rs). hi r \<le> lo x"
      using add_single_low [OF _ assms(2), of rs "hi r"] r(2,3) map_okD by blast
    then show ?thesis using after(1) f Cons.IH [OF r(2,5)] r(1) by (simp add: Un_ac)
  qed
qed

text \<open>A part of a region.\<close>

definition in_range :: "nat \<Rightarrow> nat \<Rightarrow> (nat \<times> 'a) set" where
  "in_range x y = {p. x \<le> fst p \<and> fst p < y}"

lemma sub_region:
  assumes "region_ok r" "unat sv = lo r + d" "unat sp = pl r + d" "unat sz = n" "0 < n" "lo r + d + n \<le> hi r"
    "4096 dvd d" "4096 dvd n"
  defines "q \<equiv> r\<lparr>start_va := sv, start_pa := sp, rsize := sz\<rparr>"
  shows "region_ok q" "lo q = lo r + d" "hi q = lo r + d + n"
    "region_map q = region_map r \<inter> in_range (lo r + d) (lo r + d + n)"
    "pl q = pl r + d" "free_on_unmap q = free_on_unmap r"
proof -
  note R = region_okD [OF assms(1)]
  have lim: "pl r + (hi r - lo r) < 2 ^ 56" using assms(1) R(5) by (simp only: region_ok_def)
  show q: "lo q = lo r + d" "hi q = lo r + d + n" "pl q = pl r + d"
    using assms(2-4) by (simp_all add: q_def lo_def hi_def pl_def)
  show "free_on_unmap q = free_on_unmap r" by (simp add: q_def)
  have free: "free_on_unmap q = free_pages_attr (g_region_attributes (rtype q))"
    using assms(1) by (simp add: q_def region_ok_def)
  show "region_ok q"
  proof (rule region_okI [OF _ _ _ _ _ _ free])
    show "4096 dvd lo q" "4096 dvd hi q" "4096 dvd pl q"
      unfolding q using R(7,9) assms(7,8) by (meson dvd_add)+
    show "lo q < hi q" "hi q < 2 ^ 64" "pl q + (hi q - lo q) < 2 ^ 56"
      unfolding q using assms(5,6) R(2) lim by linarith+
  qed
  have t: "rtype q = rtype r" "mapped q = mapped r" by (simp_all add: q_def)
  show "region_map q = region_map r \<inter> in_range (lo r + d) (lo r + d + n)"
    unfolding region_map_def q t in_range_def using assms(6) by auto
qed

lemma region_map_range: "region_map r \<subseteq> in_range (lo r) (hi r)"
  by (auto simp: region_map_def in_range_def)

lemma map_of_regions_range:
  "\<forall>x\<in>set rs. y \<le> lo x \<Longrightarrow> map_of_regions rs \<inter> in_range a y = {}"
proof (induction rs)
  case (Cons r rs)
  have "region_map r \<inter> in_range a y = {}"
    using Cons.prems by (auto simp: region_map_def in_range_def)
  then show ?case using Cons by (simp add: Int_Un_distrib2)
qed simp

lemma region_map_below: "hi r \<le> a \<Longrightarrow> region_map r \<inter> in_range a y = {}"
  by (auto simp: region_map_def in_range_def)

definition contains :: "mm_region \<Rightarrow> mm_region \<Rightarrow> bool" where
  "contains r new \<longleftrightarrow> lo r \<le> lo new \<and> hi new \<le> hi r \<and> (hi new = hi r \<longrightarrow> lo new = lo r)"

lemma split_compare:
  assumes "region_ok r" "region_ok new"
  shows "start_va new = start_va r \<longleftrightarrow> lo new = lo r" "rsize new = rsize r \<longleftrightarrow> hi new - lo new = hi r - lo r"
    "start_va new + rsize new - 1 < start_va r + rsize r - 1 \<longleftrightarrow> hi new < hi r"
    "start_va new > start_va r \<longleftrightarrow> lo r < lo new"
  using region_okD(1,5,6) [OF assms(1)] region_okD(1,5,6) [OF assms(2)]
  by (auto simp: word_unat_eq_iff word_less_nat_alt lo_def)

declare memory_map_add_single_region_and_split.simps(2) [simp del]

text \<open>The three ways to put a region into one that contains it.\<close>

lemma split_here:
  assumes "region_ok r" "region_ok new" "contains r new" "\<not> mm_regions_can_be_merged r new"
    "map_ok rs" "\<forall>x\<in>set rs. hi r \<le> lo x"
  shows "\<exists>qs. memory_map_add_single_region_and_split True new (r # rs) = Some (qs @ rs) \<and> map_ok (qs @ rs) \<and>
    (\<forall>q\<in>set qs. lo r \<le> lo q) \<and>
    map_of_regions qs = region_map r - in_range (lo new) (hi new) \<union> region_map new"
proof -
  note R = region_okD [OF assms(1)] and N = region_okD [OF assms(2)]
  note cmp = split_compare [OF assms(1,2)]
  have con: "lo r \<le> lo new" "hi new \<le> hi r" "hi new = hi r \<longrightarrow> lo new = lo r"
    using assms(3) by (auto simp: contains_def)
  have nf: "\<not> mm_region_fits_before new r" using fits_before_iff [OF assms(2)] con(1) N(1) by simp
  have dv: "4096 dvd hi new - lo new" "4096 dvd hi r - hi new" "4096 dvd lo new - lo r" "4096 dvd hi new - lo r"
    using R(7,8) N(7,8) by (simp_all add: dvd_diff_nat)
  have lim: "pl r + (hi r - lo r) < 2 ^ 64" using assms(1) R(5) by (simp add: region_ok_def)
  have below: "hi q \<le> lo x" if "hi q \<le> hi r" "x \<in> set rs" for q x
    using that assms(6) by fastforce
  consider (same) "lo new = lo r" "hi new = hi r" | (start) "lo new = lo r" "hi new < hi r"
    | (mid) "lo r < lo new" "hi new < hi r" using con by linarith
  then show ?thesis
  proof cases
    case same
    have "memory_map_add_single_region_and_split True new (r # rs) = Some ([new] @ rs)"
      using same assms(4) by (simp add: memory_map_add_single_region_and_split.simps cmp Let_def)
    moreover have "region_map r - in_range (lo new) (hi new) = {}" using same region_map_range [of r] by auto
    ultimately show ?thesis using same assms(2,5) below by (intro exI [of _ "[new]"]) auto
  next
    case start
    let ?q = "r\<lparr>start_va := start_va new + rsize new - 1 + 1, start_pa := start_pa r + rsize new, rsize := rsize r - rsize new\<rparr>"
    have u: "unat (start_va new + rsize new - 1 + 1) = lo r + (hi new - lo r)"
        "unat (start_pa r + rsize new) = pl r + (hi new - lo r)" "unat (rsize r - rsize new) = hi r - hi new"
      using N(1,3,5) R(1,5) start lim
      by (simp_all add: unat_plus_if_size word_size pl_def unat_sub word_le_nat_alt)
    have "0 < hi r - hi new" "lo r + (hi new - lo r) + (hi r - hi new) \<le> hi r" using start con N(1) by linarith+
    note q = sub_region [OF assms(1) u this dv(4,2)]
    have e: "lo r + (hi new - lo r) = hi new" "lo r + (hi new - lo r) + (hi r - hi new) = hi r"
      using start N(1) by linarith+
    have "hi new - lo r \<noteq> hi r - lo r" using start N(1) by linarith
    then have "memory_map_add_single_region_and_split True new (r # rs) = Some ([new, ?q] @ rs)"
      using start assms(4) nf by (simp add: memory_map_add_single_region_and_split.simps cmp Let_def)
    moreover have "map_of_regions [new, ?q] = region_map r - in_range (lo new) (hi new) \<union> region_map new"
      using q(4) region_map_range [of r] start unfolding e in_range_def by auto
    ultimately show ?thesis using q(1-3) e assms(2,5) below [of new] below [of ?q] start
      by (intro exI [of _ "[new, ?q]"]) auto
  next
    case mid
    let ?r = "r\<lparr>rsize := start_va new - start_va r\<rparr>"
    let ?off = "rsize new + rsize ?r"
    let ?q = "r\<lparr>start_va := start_va r + ?off, start_pa := start_pa r + ?off, rsize := rsize r - ?off\<rparr>"
    have ur: "unat (start_va new - start_va r) = lo new - lo r" using mid by (simp add: unat_sub word_le_nat_alt lo_def)
    have uo: "unat ?off = hi new - lo r"
      using ur N(1,2,5) mid by (simp add: unat_plus_if_size word_size)
    have u: "unat (start_va r + ?off) = lo r + (hi new - lo r)" "unat (start_pa r + ?off) = pl r + (hi new - lo r)"
        "unat (rsize r - ?off) = hi r - hi new"
      using unat_add_u64 [of "start_va r" ?off] unat_add_u64 [of "start_pa r" ?off] unat_sub_u64 [of ?off "rsize r"]
        N(1) R(1,2,5) mid lim con
      unfolding uo lo_def [symmetric] pl_def [symmetric] by linarith+
    have "0 < hi r - hi new" "lo r + (hi new - lo r) + (hi r - hi new) \<le> hi r" using mid con N(1) by linarith+
    note q = sub_region [OF assms(1) u this dv(4,2)]
    have e: "lo r + (hi new - lo r) = hi new" "lo r + (hi new - lo r) + (hi r - hi new) = hi r"
      using mid N(1) by linarith+
    have "0 < lo new - lo r" "lo r + 0 + (lo new - lo r) \<le> hi r" using mid con N(1) by linarith+
    note p = sub_region [OF assms(1) _ _ ur this _ dv(3), of "start_va r" "start_pa r"]
    have rr: "r\<lparr>start_va := start_va r, start_pa := start_pa r, rsize := start_va new - start_va r\<rparr> = ?r" by simp
    note p = p [unfolded rr, simplified lo_def [symmetric] pl_def [symmetric], simplified]
    have "rsize r - ?off > 0" using u(3) mid by (simp add: word_less_nat_alt)
    then have "memory_map_add_single_region_and_split True new (r # rs) = Some ([?r, new, ?q] @ rs)"
      using mid assms(4) nf by (simp add: memory_map_add_single_region_and_split.simps cmp Let_def)
    moreover have "map_of_regions [?r, new, ?q] = region_map r - in_range (lo new) (hi new) \<union> region_map new"
      using p(4) q(4) region_map_range [of r] mid unfolding e in_range_def by auto
    ultimately show ?thesis using p(1-3) q(1-3) e assms(2,5) below [of new] below [of ?q] below [of ?r] mid con N(1)
      by (intro exI [of _ "[?r, new, ?q]"]) auto
  qed
qed

lemma split_ok:
  assumes "map_ok rs" "region_ok new" "\<forall>r\<in>set rs. \<not> mm_regions_can_be_merged r new" "\<exists>r\<in>set rs. contains r new"
  shows "\<exists>rs'. memory_map_add_single_region_and_split True new rs = Some rs' \<and> map_ok rs' \<and>
    (\<forall>L. (\<forall>x\<in>set rs. L \<le> lo x) \<longrightarrow> (\<forall>x\<in>set rs'. L \<le> lo x)) \<and>
    map_of_regions rs' = map_of_regions rs - in_range (lo new) (hi new) \<union> region_map new"
  using assms(1,3,4)
proof (induction rs)
  case (Cons r rs)
  have r: "region_ok r" "map_ok rs" "\<forall>x\<in>set rs. hi r \<le> lo x" "\<not> mm_regions_can_be_merged r new"
    using Cons.prems by simp_all
  note R = region_okD [OF r(1)] and N = region_okD [OF assms(2)]
  show ?case
  proof (cases "contains r new")
    case True
    obtain qs where qs: "memory_map_add_single_region_and_split True new (r # rs) = Some (qs @ rs)" "map_ok (qs @ rs)"
        "\<forall>q\<in>set qs. lo r \<le> lo q" "map_of_regions qs = region_map r - in_range (lo new) (hi new) \<union> region_map new"
      using split_here [OF r(1) assms(2) True r(4) r(2,3)] by blast
    have "hi new \<le> hi r" using True by (simp add: contains_def)
    then have "\<forall>x\<in>set rs. hi new \<le> lo x" using r(3) by fastforce
    then have "map_of_regions rs \<inter> in_range (lo new) (hi new) = {}" by (rule map_of_regions_range)
    then have "map_of_regions (qs @ rs) = map_of_regions (r # rs) - in_range (lo new) (hi new) \<union> region_map new"
      using qs(4) by (auto simp: map_of_regions_def)
    moreover have "\<forall>x\<in>set (qs @ rs). L \<le> lo x" if "\<forall>x\<in>set (r # rs). L \<le> lo x" for L
      using that qs(3) by fastforce
    ultimately show ?thesis using qs(1,2) by blast
  next
    case False
    then have ex: "\<exists>r\<in>set rs. contains r new" using Cons.prems(3) by auto
    then obtain c where c: "c \<in> set rs" "lo c \<le> lo new" by (auto simp: contains_def)
    have before: "hi r \<le> lo new" using c r(3) by fastforce
    obtain rs' where rs': "memory_map_add_single_region_and_split True new rs = Some rs'" "map_ok rs'"
        "\<And>L. \<forall>x\<in>set rs. L \<le> lo x \<Longrightarrow> \<forall>x\<in>set rs'. L \<le> lo x"
        "map_of_regions rs' = map_of_regions rs - in_range (lo new) (hi new) \<union> region_map new"
      using Cons.IH [OF r(2) _ ex] Cons.prems(2) by auto
    have nf: "\<not> mm_region_fits_before new r" using fits_before_iff [OF assms(2)] before R(1) N(1) by simp
    have "lo new \<noteq> lo r" "\<not> hi new < hi r" using before R(1) N(1) by linarith+
    then have "memory_map_add_single_region_and_split True new (r # rs) = Some (r # rs')"
      using r(4) nf rs'(1)
      by (simp add: memory_map_add_single_region_and_split.simps split_compare [OF r(1) assms(2)] Let_def)
    moreover have "region_map r \<inter> in_range (lo new) (hi new) = {}" by (rule region_map_below [OF before])
    then have "map_of_regions (r # rs') = map_of_regions (r # rs) - in_range (lo new) (hi new) \<union> region_map new"
      using rs'(4) by auto
    moreover have "map_ok (r # rs')" using r(1) rs'(2) rs'(3) [OF r(3)] by simp
    ultimately show ?thesis using rs'(3) by auto
  qed
qed simp

text \<open>Without an overlap it does what \<^verbatim>\<open>memory_map_add_single_region\<close> does.\<close>

lemma split_is_add:
  assumes "map_ok rs" "region_ok new" "\<forall>r\<in>set rs. apart r new"
  shows "memory_map_add_single_region_and_split alloc_ok new rs = Some (memory_map_add_single_region new rs)"
  using assms(1,3)
proof (induction rs)
  case (Cons r rs)
  have r: "region_ok r" "map_ok rs" "apart r new" using Cons.prems by simp_all
  note R = region_okD [OF r(1)] and N = region_okD [OF assms(2)]
  have "\<not> (lo new = lo r \<and> hi new - lo new = hi r - lo r)" "hi new \<le> lo r \<or> \<not> (lo new = lo r \<and> hi new < hi r)"
    "hi new \<le> lo r \<or> \<not> (lo r < lo new \<and> hi new < hi r)"
    using r(3) R(1) N(1) unfolding apart_def by linarith+
  then show ?case
    using Cons.IH [OF r(2)] Cons.prems(2)
    by (auto simp: memory_map_add_single_region_and_split.simps split_compare [OF r(1) assms(2)] fits_before_iff [OF assms(2)] Let_def)
qed simp

section \<open>Removal\<close>

text \<open>The pages that a log of \<^verbatim>\<open>free_pages_range\<close> calls frees, as sets of bytes.\<close>

definition freed_bytes :: "freed \<Rightarrow> nat set" where
  "freed_bytes fs = (\<Union>(pa, n)\<in>set fs. {unat pa..<unat pa + 4096 * unat n})"

lemma freed_bytes_simps [simp]:
  "freed_bytes [] = {}" "freed_bytes (xs @ ys) = freed_bytes xs \<union> freed_bytes ys"
  "freed_bytes [(pa, n)] = {unat pa..<unat pa + 4096 * unat n}"
  by (auto simp: freed_bytes_def)

definition backing :: "(nat \<times> nat \<times> mm_region_type \<times> mm_region_mapped) set \<Rightarrow> nat set" where
  "backing M = {pa. \<exists>va t m. (va, pa, t, m) \<in> M \<and> free_pages_attr (g_region_attributes t)}"

lemma unat_div_page: "unat (x div PAGE_BYTES) = unat x div 4096"
  by (simp add: PAGE_BYTES_2p unat_div)

lemma region_backing:
  assumes "region_ok r" "x \<le> y" "lo r \<le> x" "y \<le> hi r"
  shows "backing (region_map r \<inter> in_range x y) =
    (if free_on_unmap r then {pl r + (x - lo r)..<pl r + (y - lo r)} else {})"
proof -
  have f: "free_on_unmap r = free_pages_attr (g_region_attributes (rtype r))" using assms(1) by (simp add: region_ok_def)
  have "{pl r + (x - lo r)..<pl r + (y - lo r)} \<subseteq> {pa. \<exists>va. lo r \<le> va \<and> va < hi r \<and> pa + lo r = pl r + va \<and> x \<le> va \<and> va < y}"
  proof
    fix pa assume "pa \<in> {pl r + (x - lo r)..<pl r + (y - lo r)}"
    then show "pa \<in> {pa. \<exists>va. lo r \<le> va \<and> va < hi r \<and> pa + lo r = pl r + va \<and> x \<le> va \<and> va < y}"
      using assms(2-4) by (auto intro!: exI [of _ "pa + lo r - pl r"])
  qed
  then show ?thesis
    unfolding backing_def region_map_def in_range_def f using assms(2-4) by auto
qed

lemma remove_frees:
  assumes "region_ok r"
  shows "freed_bytes (mm_region_remove r) = backing (region_map r)"
proof -
  note R = region_okD [OF assms]
  have "region_map r = region_map r \<inter> in_range (lo r) (hi r)" using region_map_range by blast
  moreover have "4096 * (unat (rsize r) div 4096) = hi r - lo r"
    unfolding R(5) using R(7,8) by (simp add: dvd_diff_nat)
  ultimately show ?thesis
    using region_backing [OF assms, of "lo r" "hi r"] R(1)
    by (simp add: mm_region_remove_def unat_div_page pl_def)
qed

lemma sint_u64: "sint w < 0 \<longleftrightarrow> 2 ^ 63 \<le> unat w" "0 < sint w \<longleftrightarrow> 0 < unat w \<and> unat w < 2 ^ 63" for w :: u64
proof -
  have "unat w < 2 ^ 64" using unsigned_less [of w] by simp
  then have "unat w div 2 ^ 63 = (if 2 ^ 63 \<le> unat w then 1 else 0)" by auto
  moreover have "bit w 63 \<longleftrightarrow> odd (unat w div 2 ^ 63)"
    using bit_unsigned_iff [where 'a = nat, of w 63] by (simp add: bit_iff_odd)
  ultimately have b: "bit w 63 \<longleftrightarrow> 2 ^ 63 \<le> unat w" by auto
  show neg: "sint w < 0 \<longleftrightarrow> 2 ^ 63 \<le> unat w"
    unfolding b [symmetric] using bit_last_iff [of w] by simp
  have "sint w = 0 \<longleftrightarrow> unat w = 0" by (simp add: signed_eq_0_iff unat_eq_0)
  then show "0 < sint w \<longleftrightarrow> 0 < unat w \<and> unat w < 2 ^ 63" using neg by linarith
qed

lemma aligned_less:
  fixes x y :: nat
  assumes "4096 dvd x" "4096 dvd y"
  shows "x < y - 1 \<longleftrightarrow> x < y"
proof -
  obtain i j where "x = 4096 * i" "y = 4096 * j" using assms by (auto elim!: dvdE)
  then show ?thesis by auto
qed

text \<open>What one region keeps and frees when the addresses from \<open>A\<close> to \<open>E\<close> are removed.\<close>

definition removed :: "nat \<Rightarrow> nat \<Rightarrow> mm_region \<Rightarrow> freed \<Rightarrow> mm_region option \<Rightarrow> bool" where
  "removed A E r fr r' \<longleftrightarrow> freed_bytes fr = backing (region_map r \<inter> in_range A E) \<and>
     (case r' of
        None \<Rightarrow> region_map r - in_range A E = {}
      | Some q \<Rightarrow> region_ok q \<and> lo r \<le> lo q \<and> hi q \<le> hi r \<and> region_map q = region_map r - in_range A E)"

lemma resize_end:
  assumes "region_ok r" "lo r < A" "A < hi r" "hi r \<le> E" "4096 dvd A" "unat a = A"
  shows "case mm_region_resize r (start_va r) (a - start_va r) of (fr, r') \<Rightarrow> removed A E r fr r'"
proof -
  note R = region_okD [OF assms(1)]
  have lim: "pl r + (hi r - lo r) < 2 ^ 56" using assms(1) R(5) by (simp only: region_ok_def)
  have usz: "unat (a - start_va r) = A - lo r"
    using unat_sub_u64 [of "start_va r" a] assms(2,6) by (simp add: lo_def)
  define eo where "eo = a - (start_va r + rsize r)"
  have neo: "unat (- eo) = hi r - A"
    using unat_sub_u64 [of a "start_va r + rsize r"] R(3) assms(3,6) by (simp add: eo_def)
  have eo: "unat eo = 2 ^ 64 - (hi r - A)"
    unfolding eo_def unat_sub_if_size R(3) assms(6) using assms(3) R(2) by (simp add: word_size)
  have "sint eo < 0" unfolding sint_u64 eo using lim assms(2,3) by simp
  moreover have "unat (start_pa r + rsize r + eo) = pl r + (A - lo r)"
  proof -
    have e: "start_pa r + rsize r + eo = start_pa r + rsize r - (- eo)" by simp
    show ?thesis unfolding e
      using unat_sub_u64 [of "- eo" "start_pa r + rsize r"] R(4) neo assms(2,3) by simp
  qed
  moreover have "4096 * unat ((- eo) div PAGE_BYTES) = hi r - A"
    unfolding unat_div_page neo using R(8) assms(5) by (simp add: dvd_diff_nat)
  moreover have "a - start_va r \<noteq> 0" using usz assms(2) by (auto simp: unat_eq_0 [symmetric])
  ultimately have fr: "mm_region_resize r (start_va r) (a - start_va r) =
      (if free_on_unmap r then [(start_pa r + rsize r + eo, (- eo) div PAGE_BYTES)] else [],
       Some (r\<lparr>start_va := start_va r, start_pa := start_pa r, rsize := a - start_va r\<rparr>))"
    "freed_bytes (if free_on_unmap r then [(start_pa r + rsize r + eo, (- eo) div PAGE_BYTES)] else []) =
       (if free_on_unmap r then {pl r + (A - lo r)..<pl r + (hi r - lo r)} else {})"
    using assms(2,3) by (simp_all add: mm_region_resize_def Let_def eo_def)
  have "region_map r \<inter> in_range A E = region_map r \<inter> in_range A (hi r)"
    using assms(4) region_map_range [of r] by (auto simp: in_range_def)
  then have bk: "backing (region_map r \<inter> in_range A E) = (if free_on_unmap r then {pl r + (A - lo r)..<pl r + (hi r - lo r)} else {})"
    using region_backing [OF assms(1), of A "hi r"] assms(2,3) by simp
  have n: "0 < A - lo r" "lo r + 0 + (A - lo r) \<le> hi r" "4096 dvd A - lo r"
    using assms(2,3,5) R(7) by (auto simp: dvd_diff_nat)
  note q = sub_region [OF assms(1) _ _ usz n(1,2) _ n(3), of "start_va r" "start_pa r"]
  have "region_map r \<inter> in_range (lo r) A = region_map r - in_range A E"
    using assms(2-4) region_map_range [of r] by (auto simp: in_range_def)
  then show ?thesis
    unfolding fr(1) removed_def using fr(2) bk q assms(2,3) by (simp add: lo_def [symmetric] pl_def [symmetric])
qed

lemma resize_start:
  assumes "region_ok r" "A \<le> lo r" "lo r < E" "E < hi r" "4096 dvd E" "unat off = E - lo r"
  shows "case mm_region_resize r (start_va r + off) (rsize r - off) of (fr, r') \<Rightarrow> removed A E r fr r'"
proof -
  note R = region_okD [OF assms(1)]
  have lim: "pl r + (hi r - lo r) < 2 ^ 56" using assms(1) R(5) by (simp only: region_ok_def)
  have u: "unat (start_va r + off) = lo r + (E - lo r)" "unat (start_pa r + off) = pl r + (E - lo r)"
      "unat (rsize r - off) = hi r - E"
    using unat_add_u64 [of "start_va r" off] unat_add_u64 [of "start_pa r" off] unat_sub_u64 [of off "rsize r"]
      R(1,2,5) assms(3,4) lim unfolding assms(6) lo_def [symmetric] pl_def [symmetric] by simp_all
  have so: "start_va r + off - start_va r = off" "start_va r + off + (rsize r - off) - (start_va r + rsize r) = 0"
    by simp_all
  have "0 < sint off" unfolding sint_u64 assms(6) using lim assms(3,4) by simp
  moreover have "rsize r - off \<noteq> 0" using u(3) assms(4) by (auto simp: unat_eq_0 [symmetric])
  ultimately have fr: "mm_region_resize r (start_va r + off) (rsize r - off) =
      (if free_on_unmap r then [(start_pa r, off div PAGE_BYTES)] else [],
       Some (r\<lparr>start_va := start_va r + off, start_pa := start_pa r + off, rsize := rsize r - off\<rparr>))"
    unfolding mm_region_resize_def so Let_def by simp
  have "4096 * unat (off div PAGE_BYTES) = E - lo r"
    unfolding unat_div_page assms(6) using R(7) assms(5) by (simp add: dvd_diff_nat)
  then have fb: "freed_bytes (if free_on_unmap r then [(start_pa r, off div PAGE_BYTES)] else []) =
      (if free_on_unmap r then {pl r..<pl r + (E - lo r)} else {})" by (simp add: pl_def)
  have "region_map r \<inter> in_range A E = region_map r \<inter> in_range (lo r) E"
    using assms(2) region_map_range [of r] by (auto simp: in_range_def)
  then have bk: "backing (region_map r \<inter> in_range A E) = (if free_on_unmap r then {pl r..<pl r + (E - lo r)} else {})"
    using region_backing [OF assms(1), of "lo r" E] assms(3,4) by simp
  have n: "0 < hi r - E" "lo r + (E - lo r) + (hi r - E) \<le> hi r" "4096 dvd E - lo r" "4096 dvd hi r - E"
    using assms(3,4,5) R(7,8) by (auto simp: dvd_diff_nat)
  note q = sub_region [OF assms(1) u n]
  have e: "lo r + (E - lo r) = E" "lo r + (E - lo r) + (hi r - E) = hi r" using assms(3,4) by linarith+
  have "region_map r \<inter> in_range E (hi r) = region_map r - in_range A E"
    using assms(2-4) region_map_range [of r] by (auto simp: in_range_def)
  then show ?thesis
    unfolding fr removed_def using fb bk q assms(3) e by simp
qed

lemma remove_step_ok:
  assumes "region_ok r" "4096 dvd A" "4096 dvd E" "A < E" "unat a = A" "unat e = E - 1"
    "\<not> (lo r < A \<and> E < hi r)"
  shows "\<exists>fr r'. remove_step a e r = Some (fr, r') \<and> removed A E r fr r'"
proof -
  note R = region_okD [OF assms(1)]
  have al: "hi r - 1 > A \<longleftrightarrow> A < hi r" "lo r < E - 1 \<longleftrightarrow> lo r < E"
    using aligned_less [OF assms(2) R(8)] aligned_less [OF R(7) assms(3)] by auto
  have c: "start_va r \<ge> a \<longleftrightarrow> A \<le> lo r" "start_va r + rsize r - 1 \<le> e \<longleftrightarrow> hi r \<le> E" "start_va r < a \<longleftrightarrow> lo r < A"
    "start_va r + rsize r - 1 > a \<longleftrightarrow> A < hi r" "start_va r < e \<longleftrightarrow> lo r < E" "start_va r + rsize r - 1 \<ge> e \<longleftrightarrow> E \<le> hi r"
    "start_va r + rsize r - 1 > e \<longleftrightarrow> E < hi r"
    unfolding word_le_nat_alt word_less_nat_alt assms(5,6) R(6) lo_def [symmetric] al using R(1) assms(4) by linarith+
  consider (all) "A \<le> lo r" "hi r \<le> E" | (tail) "lo r < A" "A < hi r" "hi r \<le> E"
    | (front) "A \<le> lo r" "lo r < E" "E < hi r" | (none) "hi r \<le> A \<or> E \<le> lo r"
    using assms(7) by linarith
  then show ?thesis
  proof cases
    case all
    have "region_map r \<subseteq> in_range A E" using all by (auto simp: region_map_def in_range_def)
    then have "region_map r \<inter> in_range A E = region_map r" "region_map r - in_range A E = {}" by blast+
    then show ?thesis using all remove_frees [OF assms(1)] by (simp add: remove_step_def c removed_def)
  next
    case tail
    then have "remove_step a e r = Some (mm_region_resize r (start_va r) (a - start_va r))"
      by (simp add: remove_step_def c Let_def)
    then show ?thesis using resize_end [OF assms(1) tail assms(2,5)] by (auto split: prod.splits)
  next
    case front
    define off where "off = e - start_va r + 1"
    have step: "remove_step a e r = Some (mm_region_resize r (start_va r + off) (rsize r - off))"
      using front by (simp add: remove_step_def c Let_def off_def)
    have d: "unat (e - start_va r) = E - 1 - lo r"
      using unat_sub_u64 [of "start_va r" e] front assms(6) by (simp add: lo_def)
    have "unat (e - start_va r) + unat (1 :: u64) < 2 ^ 64" unfolding d using R(2) front by simp
    then have off: "unat off = E - lo r"
      using unat_add_u64 [of "e - start_va r" 1] d front by (simp add: off_def)
    show ?thesis using step resize_start [OF assms(1) front assms(3) off] by (auto split: prod.splits)
  next
    case none
    then have "\<not> (A \<le> lo r \<and> hi r \<le> E)" "\<not> (lo r < A \<and> A < hi r \<and> hi r \<le> E)"
      "\<not> (A \<le> lo r \<and> lo r < E \<and> E \<le> hi r)" "\<not> (lo r < A \<and> E < hi r)"
      using R(1) assms(4) by linarith+
    then have "remove_step a e r = Some ([], Some r)"
      unfolding remove_step_def c Let_def by (simp only: if_False not_False_eq_True)
    moreover have "region_map r \<inter> in_range A E = {}" using none by (auto simp: region_map_def in_range_def)
    then have "removed A E r [] (Some r)" using assms(1) by (auto simp: removed_def backing_def)
    ultimately show ?thesis by blast
  qed
qed

lemma backing_Un: "backing (X \<union> Y) = backing X \<union> backing Y"
  unfolding backing_def by blast

lemma remove_loop_ok:
  assumes "map_ok rs" "4096 dvd A" "4096 dvd E" "A < E" "unat a = A" "unat e = E - 1"
    "\<forall>r\<in>set rs. \<not> (lo r < A \<and> E < hi r)"
  shows "\<exists>fr rs'. remove_loop a e rs = Some (fr, rs') \<and> map_ok rs' \<and> (\<forall>L. (\<forall>x\<in>set rs. L \<le> lo x) \<longrightarrow> (\<forall>x\<in>set rs'. L \<le> lo x)) \<and>
    map_of_regions rs' = map_of_regions rs - in_range A E \<and>
    freed_bytes fr = backing (map_of_regions rs \<inter> in_range A E)"
  using assms(1,7)
proof (induction rs)
  case Nil
  then show ?case by (simp add: backing_def)
next
  case (Cons r rs)
  have r: "region_ok r" "map_ok rs" "\<forall>x\<in>set rs. hi r \<le> lo x" using Cons.prems by simp_all
  obtain f1 r1 where 1: "remove_step a e r = Some (f1, r1)" "removed A E r f1 r1"
    using remove_step_ok [OF r(1) assms(2-6)] Cons.prems(2) by auto
  obtain f2 rs2 where 2: "remove_loop a e rs = Some (f2, rs2)" "map_ok rs2"
      "\<And>L. \<forall>x\<in>set rs. L \<le> lo x \<Longrightarrow> \<forall>x\<in>set rs2. L \<le> lo x"
      "map_of_regions rs2 = map_of_regions rs - in_range A E" "freed_bytes f2 = backing (map_of_regions rs \<inter> in_range A E)"
    using Cons.IH [OF r(2)] Cons.prems(2) by auto
  have fb: "freed_bytes (f1 @ f2) = backing (map_of_regions (r # rs) \<inter> in_range A E)"
    using 1(2) 2(5) by (simp add: removed_def Int_Un_distrib2 backing_Un)
  show ?case
  proof (cases r1)
    case None
    then have "map_of_regions rs2 = map_of_regions (r # rs) - in_range A E"
      using 1(2) 2(4) by (auto simp: removed_def)
    then show ?thesis using 1(1) 2(1-3) fb None by auto
  next
    case (Some q)
    then have q: "region_ok q" "lo r \<le> lo q" "hi q \<le> hi r" "region_map q = region_map r - in_range A E"
      using 1(2) by (auto simp: removed_def)
    have "\<forall>x\<in>set rs2. hi q \<le> lo x" using 2(3) [OF r(3)] q(3) by fastforce
    moreover have "map_of_regions (q # rs2) = map_of_regions (r # rs) - in_range A E"
      using q(4) 2(4) by auto
    ultimately show ?thesis using 1(1) 2(1-3) q(1,2) fb Some by fastforce
  qed
qed

lemma remove_regions_ok:
  assumes "map_ok regions" "page_aligned a" "page_aligned n" "0 < n" "unat a + unat n < 2 ^ 64"
    "\<forall>r\<in>set regions. \<not> (lo r < unat a \<and> unat a + unat n < hi r)"
  shows "\<exists>fr regions'. memory_map_remove_regions a n regions = Some (fr, regions') \<and> map_ok regions' \<and>
    map_of_regions regions' = map_of_regions regions - in_range (unat a) (unat a + unat n) \<and>
    freed_bytes fr = backing (map_of_regions regions \<inter> in_range (unat a) (unat a + unat n))"
proof -
  have n: "0 < unat n" using assms(4) by (simp add: word_less_nat_alt)
  have s: "unat (a + n) = unat a + unat n" using assms(5) by (rule unat_add_u64)
  then have "a + n \<noteq> 0" using n by (auto simp: unat_eq_0 [symmetric])
  then have e: "unat (a + n - 1) = unat a + unat n - 1" using s by (simp add: unat_minus_one)
  have "4096 dvd unat a" "4096 dvd unat a + unat n" "unat a < unat a + unat n"
    using assms(2,3) n by (simp_all add: page_aligned_unat)
  from remove_loop_ok [OF assms(1) this refl e assms(6)] show ?thesis
    unfolding memory_map_remove_regions_def by blast
qed

section \<open>Properties\<close>

definition example_map :: "mm_region list" where
  "example_map = [mm_region_init 0x80000000 0x1000 0x3000 MM_REGION_USER_DATA,
     mm_region_init 0x90000000 0x8000 0x4000 MM_REGION_USER_TEXT]"

definition example_region :: mm_region where
  "example_region = mm_region_init 0x80003000 0x4000 0x1000 MM_REGION_USER_DATA"

definition example_inner :: mm_region where
  "example_inner = mm_region_init 0xA0000000 0x9000 0x1000 MM_REGION_USER_RO_DATA"

lemmas example_defs = example_map_def example_region_def example_inner_def mm_region_init_def attrs_def
  region_ok_def page_aligned_def PAGE_BYTES_def lo_def hi_def pl_def apart_def contains_def

lemma example_ok: "map_ok example_map" "region_ok example_region" "\<forall>r\<in>set example_map. apart r example_region"
  by (simp_all add: example_defs)


text \<open>
  C21: adding a region that overlaps no region of an ordered map keeps the map ordered, disjoint
  and aligned, and the map then says exactly what it said before plus the new region, also when
  regions are merged: no byte changes its physical address, its type or its state.
\<close>

theorem memory_map_add_refines:
  assumes "map_ok regions" "region_ok new" "\<forall>r\<in>set regions. apart r new"
  shows "map_ok (memory_map_add_single_region new regions) \<and>
    map_of_regions (memory_map_add_single_region new regions) = map_of_regions regions \<union> region_map new \<and>
    memory_map_add_single_region_and_split alloc_ok new regions = Some (memory_map_add_single_region new regions)"
  using add_single_region_ok [OF assms] split_is_add [OF assms] by blast

theorem memory_map_add_refines_witness:
  "map_of_regions (memory_map_add_single_region example_region example_map) =
     map_of_regions example_map \<union> region_map example_region"
  using memory_map_add_refines [OF example_ok] by blast



text \<open>
  C23: a region that covers the end of an old one, but not its start, does not shrink it: both stay
  in the map and overlap.
\<close>

theorem split_at_end_overlaps:
  assumes "region_ok r" "region_ok new" "lo r < lo new" "hi new = hi r" "\<not> mm_regions_can_be_merged r new"
  shows "memory_map_add_single_region_and_split alloc_ok new [r] = Some [r, new] \<and> \<not> map_ok [r, new]"
proof -
  have "lo new < hi new" using region_okD(1) [OF assms(2)] .
  then have "\<not> mm_region_fits_before new r" "lo new \<noteq> lo r" using fits_before_iff [OF assms(2)] assms(3) by simp_all
  then show ?thesis
    using assms \<open>lo new < hi new\<close>
    by (simp add: memory_map_add_single_region_and_split.simps split_compare [OF assms(1,2)] Let_def)
qed

theorem split_at_end_overlaps_witness:
  "\<not> map_ok (the (memory_map_add_single_region_and_split True
      (mm_region_init 0x90001000 0x3000 0x1000 MM_REGION_USER_TEXT) [hd example_map]))"
proof -
  have "region_ok (hd example_map)" "region_ok (mm_region_init 0x90001000 0x3000 0x1000 MM_REGION_USER_TEXT)"
    "lo (hd example_map) < lo (mm_region_init 0x90001000 0x3000 0x1000 MM_REGION_USER_TEXT)"
    "hi (mm_region_init 0x90001000 0x3000 0x1000 MM_REGION_USER_TEXT) = hi (hd example_map)"
    "\<not> mm_regions_can_be_merged (hd example_map) (mm_region_init 0x90001000 0x3000 0x1000 MM_REGION_USER_TEXT)"
    by (simp_all add: example_defs mm_regions_can_be_merged_def)
  from split_at_end_overlaps [OF this, of True] show ?thesis by simp
qed

text \<open>
  C24: removing a page-aligned range, when no region reaches over both of its ends, gives an
  ordered map that says the same outside of the range and nothing inside; the pages it frees are
  exactly those behind the removed addresses whose type owns its pages.
\<close>

theorem memory_map_remove_refines:
  assumes "map_ok regions" "page_aligned a" "page_aligned n" "0 < n" "unat a + unat n < 2 ^ 64"
    "\<forall>r\<in>set regions. \<not> (lo r < unat a \<and> unat a + unat n < hi r)"
  shows "\<exists>fr regions'. memory_map_remove_regions a n regions = Some (fr, regions') \<and> map_ok regions' \<and>
    map_of_regions regions' = map_of_regions regions - in_range (unat a) (unat a + unat n) \<and>
    freed_bytes fr = backing (map_of_regions regions \<inter> in_range (unat a) (unat a + unat n))"
  by (rule remove_regions_ok [OF assms])

theorem memory_map_remove_refines_witness:
  "\<exists>fr regions'. memory_map_remove_regions 0x2000 0x7000 example_map = Some (fr, regions') \<and> map_ok regions'"
proof -
  have "page_aligned 0x2000" "page_aligned 0x7000" "(0 :: u64) < 0x7000"
    "unat (0x2000 :: u64) + unat (0x7000 :: u64) < 2 ^ 64"
    "\<forall>r\<in>set example_map. \<not> (lo r < unat (0x2000 :: u64) \<and> unat (0x2000 :: u64) + unat (0x7000 :: u64) < hi r)"
    by (simp_all add: example_defs)
  from memory_map_remove_refines [OF example_ok(1) this] show ?thesis by blast
qed

text \<open>An empty range inside of a region is not ignored: it is the split that the code refuses.\<close>

lemma remove_empty_range_panics:
  assumes "region_ok r" "lo r < unat a" "unat a < hi r"
  shows "memory_map_remove_regions a 0 [r] = None"
proof -
  note R = region_okD [OF assms(1)]
  have e: "unat (a + 0 - 1) = unat a - 1" using assms(2) by (subst unat_minus_one) (auto simp: unat_eq_0 [symmetric])
  have "start_va r < a" "\<not> a \<le> start_va r" "\<not> start_va r + rsize r - 1 \<le> a + 0 - 1" "start_va r + rsize r - 1 > a + 0 - 1"
    unfolding word_le_nat_alt word_less_nat_alt e R(6) lo_def [symmetric] using assms(2,3) by linarith+
  then show ?thesis by (simp add: memory_map_remove_regions_def remove_step_def Let_def)
qed

end
