(* ===== verification/Vm.thy ===== *)
theory Vm
  imports Pgtable Buddy
begin

text \<open>
  Page table trees: \<^verbatim>\<open>vm_walk\<close>, \<^verbatim>\<open>vm_map\<close>, \<^verbatim>\<open>vm_unmap\<close>,
  \<^verbatim>\<open>vm_free_pgtable\<close> and \<^verbatim>\<open>vm_trim_pagetable\<close> of \<^verbatim>\<open>kernel/mm/vm.c\<close>. The
  state has the page allocator of theory Buddy and the entries of every page used as a table, by
  the kernel address of the page. A pointer to an entry is the address of the table and the
  index. \<open>None\<close> as the result of an operation is a panic, or a loop without end. \<open>pb\<close> is
  \<^verbatim>\<open>g_kernel_memory.phys_base\<close>.
\<close>

unbundle bit_operations_syntax

section \<open>The code\<close>

record vm =
  vpages :: kernel_memory
  pt :: "u64 \<Rightarrow> nat \<Rightarrow> u64"

type_synonym pte_ptr = "u64 \<times> nat"

definition set_pte :: "pte_ptr \<Rightarrow> u64 \<Rightarrow> vm \<Rightarrow> vm" where
  "set_pte l v st = st\<lparr>pt := (pt st)(fst l := (pt st (fst l))(snd l := v))\<rparr>"

text \<open>\<^verbatim>\<open>alloc_page(ALLOC_FLAG_ZERO_MEMORY)\<close>.\<close>

definition alloc_page :: "vm \<Rightarrow> u64 option \<times> vm" where
  "alloc_page st =
     (case alloc_pages 0 (vpages st) of
        (None, g) \<Rightarrow> (None, st\<lparr>vpages := g\<rparr>)
      | (Some p, g) \<Rightarrow> (Some (of_nat p), st\<lparr>vpages := g, pt := (pt st)(of_nat p := (\<lambda>_. 0))\<rparr>))"

definition free_page :: "u64 \<Rightarrow> vm \<Rightarrow> vm option" where
  "free_page p st =
     (case free_pages (unat p) 0 (vpages st) of None \<Rightarrow> None | Some g \<Rightarrow> Some (st\<lparr>vpages := g\<rparr>))"

definition index_at :: "nat \<Rightarrow> u64 \<Rightarrow> nat" where
  "index_at level va = unat (PAGE_TABLE_INDEX level va)"

text \<open>The loop of \<^verbatim>\<open>vm_walk2\<close>, from the given level down; the flag is \<^verbatim>\<open>*is_super_page\<close>.\<close>

fun walk_levels :: "u64 \<Rightarrow> nat \<Rightarrow> u64 \<Rightarrow> u64 \<Rightarrow> bool \<Rightarrow> bool \<Rightarrow> vm \<Rightarrow> pte_ptr option \<times> bool \<times> vm" where
  "walk_levels pb 0 pgtable va is_super alloc st = (Some (pgtable, index_at 0 va), is_super, st)"
| "walk_levels pb (Suc l) pgtable va is_super alloc st =
     (let i = index_at (Suc l) va; pte = pt st pgtable i in
      if \<not> PTE_IS_VALID_NODE pte then
        if alloc then
          if Suc l = 1 \<and> is_super then (Some (pgtable, i), is_super, st)
          else case alloc_page st of
                 (None, st1) \<Rightarrow> (None, is_super, st1)
               | (Some new, st1) \<Rightarrow>
                   let entry = PTE_MAKE_VALID_TABLE (PTE_BUILD (virt_to_phys pb new) 0)
                   in walk_levels pb l new va is_super alloc (set_pte (pgtable, i) entry st1)
        else (None, is_super, st)
      else if PTE_IS_LEAF pte then (Some (pgtable, i), True, st)
      else walk_levels pb l (phys_to_virt pb (PTE_GET_PA pte)) va is_super alloc st)"

definition PAGE_TABLE_MAX_LEVELS :: nat where "PAGE_TABLE_MAX_LEVELS = 3"

text \<open>\<open>None\<close> for the flag is a NULL pointer.\<close>

definition vm_walk2 ::
  "u64 \<Rightarrow> u64 \<Rightarrow> u64 \<Rightarrow> bool option \<Rightarrow> bool \<Rightarrow> vm \<Rightarrow> (pte_ptr option \<times> bool \<times> vm) option" where
  "vm_walk2 pb root va is_super alloc st =
     (if \<not> VA_IS_IN_RANGE va then None
      else if alloc \<and> is_super = None then None
      else Some (walk_levels pb (PAGE_TABLE_MAX_LEVELS - 1) root va (is_super = Some True) alloc st))"

definition vm_walk :: "u64 \<Rightarrow> u64 \<Rightarrow> u64 \<Rightarrow> bool \<Rightarrow> vm \<Rightarrow> (pte_ptr option \<times> bool \<times> vm) option" where
  "vm_walk pb root va alloc st = vm_walk2 pb root va (Some False) alloc st"

partial_function (option) vm_map_loop ::
  "u64 \<Rightarrow> u64 \<Rightarrow> bool \<Rightarrow> u64 \<Rightarrow> u64 \<Rightarrow> u64 \<Rightarrow> u64 \<Rightarrow> vm \<Rightarrow> (int \<times> vm) option" where
  "vm_map_loop pb root allow_super perm current_va current_pa remaining st =
     (if remaining > 0 then
        let super = (allow_super \<and> current_va mod MEGA_PAGE_SIZE = 0 \<and> current_pa mod MEGA_PAGE_SIZE = 0 \<and>
                     remaining \<ge> MEGA_PAGE_SIZE);
            bytes_mapped = (if super then MEGA_PAGE_SIZE else PAGE_BYTES)
        in case vm_walk2 pb root current_va (Some super) True st of
             None \<Rightarrow> None
           | Some (None, s, st1) \<Rightarrow> Some (-1, st1)
           | Some (Some l, s, st1) \<Rightarrow>
               let new_value = PTE_MAKE_VALID_LEAF (PTE_BUILD current_pa perm);
                   old = pt st1 (fst l) (snd l)
               in if old = new_value then
                    vm_map_loop pb root allow_super perm (current_va + bytes_mapped) (current_pa + bytes_mapped)
                      (remaining - bytes_mapped) st1
                  else if PTE_IS_VALID_NODE old then None
                  else vm_map_loop pb root allow_super perm (current_va + bytes_mapped) (current_pa + bytes_mapped)
                         (remaining - bytes_mapped) (set_pte l new_value st1)
      else Some (0, st))"

definition vm_map ::
  "u64 \<Rightarrow> u64 \<Rightarrow> u64 \<Rightarrow> u64 \<Rightarrow> u64 \<Rightarrow> u64 \<Rightarrow> bool \<Rightarrow> vm \<Rightarrow> (int \<times> vm) option" where
  "vm_map pb root va pa sz perm0 allow_super st =
     (let perm = perm0 OR PTE_MAP_DEFAULT_FLAGS in
      if va mod PAGE_BYTES \<noteq> 0 then None
      else if sz mod PAGE_BYTES \<noteq> 0 then None
      else if sz = 0 then None
      else vm_map_loop pb root allow_super perm va pa sz st)"

text \<open>The loop of \<^verbatim>\<open>vm_unmap\<close>, from page \<open>page\<close> on.\<close>

function vm_unmap_loop :: "u64 \<Rightarrow> u64 \<Rightarrow> u64 \<Rightarrow> nat \<Rightarrow> nat \<Rightarrow> bool \<Rightarrow> vm \<Rightarrow> vm option" where
  "vm_unmap_loop pb root va page npages do_free st =
     (if page < npages then
        let a = va + of_nat page * PAGE_BYTES in
        case vm_walk pb root a False st of
          None \<Rightarrow> None
        | Some (None, s, st1) \<Rightarrow> None
        | Some (Some l, s, st1) \<Rightarrow>
            let pte = pt st1 (fst l) (snd l) in
            if \<not> PTE_IS_VALID_NODE pte then None
            else if \<not> PTE_IS_LEAF pte then None
            else case (if do_free then free_page (phys_to_virt pb (PTE_GET_PA pte)) st1 else Some st1) of
                   None \<Rightarrow> None
                 | Some st2 \<Rightarrow> vm_unmap_loop pb root va (Suc page) npages do_free (set_pte l 0 st2)
      else Some st)"
  by pat_completeness auto
termination
  by (relation "measure (\<lambda>(pb, root, va, page, npages, do_free, st). npages - page)") auto

definition vm_unmap :: "u64 \<Rightarrow> u64 \<Rightarrow> u64 \<Rightarrow> nat \<Rightarrow> bool \<Rightarrow> vm \<Rightarrow> vm option" where
  "vm_unmap pb root va npages do_free st =
     (if va mod PAGE_BYTES \<noteq> 0 then None else vm_unmap_loop pb root va 0 npages do_free st)"

text \<open>The two checks of pointers to pages; \<open>in_ram_pa\<close> and \<open>in_ram_kva\<close> are the tests of the RAM range.\<close>

definition vm_is_valid_page_pointer_pa :: "(u64 \<Rightarrow> bool) \<Rightarrow> u64 \<Rightarrow> bool" where
  "vm_is_valid_page_pointer_pa in_ram_pa pa \<longleftrightarrow> pa \<noteq> 0 \<and> pa mod PAGE_BYTES = 0 \<and> in_ram_pa pa"

definition vm_is_valid_page_pointer_kva :: "(u64 \<Rightarrow> bool) \<Rightarrow> u64 \<Rightarrow> bool" where
  "vm_is_valid_page_pointer_kva in_ram_kva kva \<longleftrightarrow> kva \<noteq> 0 \<and> kva mod PAGE_BYTES = 0 \<and> in_ram_kva kva"

definition MAX_PTES_PER_PAGE_TABLE :: nat where "MAX_PTES_PER_PAGE_TABLE = 512"

text \<open>The loop of \<^verbatim>\<open>vm_free_pgtable\<close> over the entries of one table; \<open>rec\<close> is the recursive call.\<close>

fun free_entries :: "(u64 \<Rightarrow> vm \<Rightarrow> vm option) \<Rightarrow> u64 \<Rightarrow> (u64 \<Rightarrow> bool) \<Rightarrow> u64 \<Rightarrow> nat list \<Rightarrow> vm \<Rightarrow> vm option" where
  "free_entries rec pb in_ram_pa pgtable [] st = Some st"
| "free_entries rec pb in_ram_pa pgtable (i # is) st =
     (let pte = pt st pgtable i; child = PTE_GET_PA pte in
      if PTE_IS_VALID_NODE pte \<and> vm_is_valid_page_pointer_pa in_ram_pa child \<and> \<not> PTE_IS_LEAF pte
      then case rec (phys_to_virt pb child) st of
             None \<Rightarrow> None
           | Some st1 \<Rightarrow> free_entries rec pb in_ram_pa pgtable is (set_pte (pgtable, i) 0 st1)
      else free_entries rec pb in_ram_pa pgtable is (set_pte (pgtable, i) 0 st))"

text \<open>The fuel bounds the depth of the recursion.\<close>

primrec vm_free_pgtable ::
  "nat \<Rightarrow> u64 \<Rightarrow> (u64 \<Rightarrow> bool) \<Rightarrow> (u64 \<Rightarrow> bool) \<Rightarrow> u64 \<Rightarrow> vm \<Rightarrow> vm option" where
  "vm_free_pgtable 0 pb in_ram_pa in_ram_kva pgtable st = None"
| "vm_free_pgtable (Suc fuel) pb in_ram_pa in_ram_kva pgtable st =
     (if pgtable = 0 then Some st
      else if \<not> vm_is_valid_page_pointer_kva in_ram_kva pgtable then None
      else case free_entries (vm_free_pgtable fuel pb in_ram_pa in_ram_kva) pb in_ram_pa pgtable
                  [0..<MAX_PTES_PER_PAGE_TABLE] st of
             None \<Rightarrow> None
           | Some st1 \<Rightarrow> free_page pgtable st1)"

text \<open>\<^verbatim>\<open>vm_trim_pagetable\<close>: the way down to the last table, and the scan of its entries.\<close>

fun trim_levels :: "u64 \<Rightarrow> nat \<Rightarrow> u64 \<Rightarrow> pte_ptr option \<Rightarrow> u64 \<Rightarrow> vm \<Rightarrow> (u64 \<times> pte_ptr option) option" where
  "trim_levels pb 0 pgtable par va st = Some (pgtable, par)"
| "trim_levels pb (Suc l) pgtable par va st =
     (let i = index_at (Suc l) va; pte = pt st pgtable i in
      if \<not> PTE_IS_VALID_NODE pte then None
      else if PTE_IS_LEAF pte then None
      else trim_levels pb l (phys_to_virt pb (PTE_GET_PA pte)) (Some (pgtable, i)) va st)"

text \<open>
  \<^verbatim>\<open>kfree\<close> of a page address is \<^verbatim>\<open>free_pages(kva, 0)\<close>; its test that the address lies in RAM is
  left out, the address being that of a table, a page that the allocator gave.
\<close>

definition vm_trim_pagetable :: "u64 \<Rightarrow> u64 \<Rightarrow> u64 \<Rightarrow> vm \<Rightarrow> (bool \<times> vm) option" where
  "vm_trim_pagetable pb root va_removed st =
     (case trim_levels pb (PAGE_TABLE_MAX_LEVELS - 1) root None va_removed st of
        None \<Rightarrow> Some (False, st)
      | Some (table, None) \<Rightarrow> None
      | Some (table, Some par) \<Rightarrow>
          if \<exists>i\<in>set [0..<MAX_PTES_PER_PAGE_TABLE]. PTE_IS_VALID_NODE (pt st table i) then Some (False, st)
          else case free_page table st of
                 None \<Rightarrow> None
               | Some st1 \<Rightarrow> Some (True, set_pte par 0 st1))"

section \<open>The tree\<close>

definition is_node :: "vm \<Rightarrow> u64 \<Rightarrow> nat \<Rightarrow> bool" where
  "is_node st t i \<longleftrightarrow> i < 512 \<and> PTE_IS_VALID_NODE (pt st t i) \<and> \<not> PTE_IS_LEAF (pt st t i)"

definition child_of :: "u64 \<Rightarrow> vm \<Rightarrow> u64 \<Rightarrow> nat \<Rightarrow> u64" where
  "child_of pb st t i = phys_to_virt pb (PTE_GET_PA (pt st t i))"

text \<open>The table at the end of a path of indices.\<close>

fun descend :: "u64 \<Rightarrow> vm \<Rightarrow> u64 \<Rightarrow> nat list \<Rightarrow> u64 option" where
  "descend pb st t [] = Some t"
| "descend pb st t (i # p) = (if is_node st t i then descend pb st (child_of pb st t i) p else None)"

text \<open>
  A tree of three levels: different paths lead to different tables, and the entries of the upper
  two levels point to tables.
\<close>

definition tree_ok :: "u64 \<Rightarrow> vm \<Rightarrow> u64 \<Rightarrow> bool" where
  "tree_ok pb st root \<longleftrightarrow>
     (\<forall>p q t. length p \<le> 2 \<and> length q \<le> 2 \<and> descend pb st root p = Some t \<and> descend pb st root q = Some t \<longrightarrow> p = q) \<and>
     (\<forall>p t i. length p < 2 \<and> descend pb st root p = Some t \<and> PTE_IS_VALID_NODE (pt st t i) \<longrightarrow>
        \<not> PTE_IS_LEAF (pt st t i))"

text \<open>The entry of the last level for three indices; 0 where a table is missing.\<close>

definition flat :: "u64 \<Rightarrow> vm \<Rightarrow> u64 \<Rightarrow> nat \<Rightarrow> nat \<Rightarrow> nat \<Rightarrow> u64" where
  "flat pb st root a b c = (case descend pb st root [a, b] of None \<Rightarrow> 0 | Some t \<Rightarrow> pt st t c)"

lemma tree_okD:
  assumes "tree_ok pb st root"
  shows "length p \<le> 2 \<Longrightarrow> length q \<le> 2 \<Longrightarrow> descend pb st root p = Some t \<Longrightarrow> descend pb st root q = Some t \<Longrightarrow> p = q"
    "length p < 2 \<Longrightarrow> descend pb st root p = Some t \<Longrightarrow> PTE_IS_VALID_NODE (pt st t i) \<Longrightarrow> \<not> PTE_IS_LEAF (pt st t i)"
    "length p < 2 \<Longrightarrow> descend pb st root p = Some t \<Longrightarrow> PTE_IS_VALID_NODE (pt st t i) \<Longrightarrow> i < 512 \<Longrightarrow> is_node st t i"
  using assms unfolding tree_ok_def is_node_def by blast+

lemma tree_okI:
  assumes "\<And>p q t. length p \<le> 2 \<Longrightarrow> length q \<le> 2 \<Longrightarrow> descend pb st root p = Some t \<Longrightarrow> descend pb st root q = Some t \<Longrightarrow> p = q"
    "\<And>p t i. length p < 2 \<Longrightarrow> descend pb st root p = Some t \<Longrightarrow> PTE_IS_VALID_NODE (pt st t i) \<Longrightarrow> \<not> PTE_IS_LEAF (pt st t i)"
  shows "tree_ok pb st root"
  using assms unfolding tree_ok_def by blast

lemma descend_append:
  "descend pb st root (p @ [i]) =
     (case descend pb st root p of None \<Rightarrow> None
      | Some t \<Rightarrow> if is_node st t i then Some (child_of pb st t i) else None)"
  by (induction p arbitrary: root) auto

lemma short_path: "length p \<le> 2 \<Longrightarrow> p = [] \<or> (\<exists>x. p = [x]) \<or> (\<exists>x y. p = [x, y])"
  by (cases p; cases "tl p"; auto)

text \<open>Tables of the upper levels decide where a path leads.\<close>

lemma descend_cong:
  assumes "\<And>q s. length q < 2 \<Longrightarrow> descend pb st root q = Some s \<Longrightarrow> pt st' s = pt st s" "length p \<le> 2"
  shows "descend pb st' root p = descend pb st root p"
proof -
  have r: "pt st' root = pt st root" using assms(1) [of "[]"] by simp
  have s: "pt st' (child_of pb st root x) = pt st (child_of pb st root x)" if "is_node st root x" for x
    using assms(1) [of "[x]"] that by simp
  show ?thesis
    using short_path [OF assms(2)] r s by (auto simp: is_node_def child_of_def)
qed

lemma pt_set_pte [simp]: "pt (set_pte (t, i) v st) = (pt st)(t := (pt st t)(i := v))" "vpages (set_pte l v st) = vpages st"
  by (simp_all add: set_pte_def)

text \<open>Writing an entry of the last level.\<close>

lemma set_leaf:
  assumes "tree_ok pb st root" "descend pb st root [a, b] = Some t"
  shows "length p \<le> 2 \<Longrightarrow> descend pb (set_pte (t, c) v st) root p = descend pb st root p"
    "tree_ok pb (set_pte (t, c) v st) root"
    "flat pb (set_pte (t, c) v st) root x y z = (if (x, y, z) = (a, b, c) then v else flat pb st root x y z)"
proof -
  have ne: "s \<noteq> t" if "length q < 2" "descend pb st root q = Some s" for q s
    using tree_okD(1) [OF assms(1), of q "[a, b]" t] that assms(2) by auto
  show d: "descend pb (set_pte (t, c) v st) root p = descend pb st root p" if "length p \<le> 2" for p
    by (rule descend_cong [OF _ that]) (use ne in auto)
  show "tree_ok pb (set_pte (t, c) v st) root"
  proof (rule tree_okI)
    fix p q s assume "length p \<le> 2" "length q \<le> 2" "descend pb (set_pte (t, c) v st) root p = Some s"
      "descend pb (set_pte (t, c) v st) root q = Some s"
    then show "p = q" using tree_okD(1) [OF assms(1), of p q s] d by simp
  next
    fix p s i assume "length p < 2" "descend pb (set_pte (t, c) v st) root p = Some s"
      "PTE_IS_VALID_NODE (pt (set_pte (t, c) v st) s i)"
    then have "descend pb st root p = Some s" "s \<noteq> t" using d [of p] ne [of p] by auto
    then show "\<not> PTE_IS_LEAF (pt (set_pte (t, c) v st) s i)"
      using tree_okD(2) [OF assms(1) \<open>length p < 2\<close>, of s i] \<open>PTE_IS_VALID_NODE _\<close> by simp
  qed
  show "flat pb (set_pte (t, c) v st) root x y z = (if (x, y, z) = (a, b, c) then v else flat pb st root x y z)"
  proof (cases "descend pb st root [x, y]")
    case None
    then show ?thesis using d [of "[x, y]"] assms(2) by (auto simp: flat_def simp del: descend.simps)
  next
    case (Some s)
    have "s = t \<longleftrightarrow> x = a \<and> y = b"
      using tree_okD(1) [OF assms(1), of "[x, y]" "[a, b]" t] Some assms(2) by (auto simp del: descend.simps)
    then show ?thesis using d [of "[x, y]"] Some assms(2) by (auto simp: flat_def simp del: descend.simps)
  qed
qed

text \<open>Linking a new, empty table into an entry of the upper levels.\<close>

lemma link_table:
  assumes ok: "tree_ok pb st root" and p: "descend pb st root p = Some t" "length p < 2"
    and i: "\<not> PTE_IS_VALID_NODE (pt st t i)" "i < 512"
    and f: "\<And>q. length q \<le> 2 \<Longrightarrow> descend pb st root q \<noteq> Some f" "\<And>k. \<not> PTE_IS_VALID_NODE (pt st f k)"
    and v: "PTE_IS_VALID_NODE v" "\<not> PTE_IS_LEAF v" "phys_to_virt pb (PTE_GET_PA v) = f"
  defines "st' \<equiv> set_pte (t, i) v st"
  shows "length q \<le> 2 \<Longrightarrow> descend pb st' root q = (if q = p @ [i] then Some f else descend pb st root q)"
proof -
  assume q: "length q \<le> 2"
  have ft: "f \<noteq> t" using f(1) p by auto
  have no: "\<not> is_node st t i" "\<And>k. \<not> is_node st f k" using i(1) f(2) by (auto simp: is_node_def)
  have new: "is_node st' t i" "child_of pb st' t i = f" using v i(2) by (simp_all add: st'_def is_node_def child_of_def)
  have same: "is_node st' s k = is_node st s k \<and> child_of pb st' s k = child_of pb st s k" if "(s, k) \<noteq> (t, i)" for s k
    using that by (auto simp: st'_def is_node_def child_of_def)
  have nof: "\<not> is_node st' f k" for k using no(2) same [of f k] ft by auto
  consider (root) "p = []" "t = root" | (one) a where "p = [a]" "is_node st root a" "t = child_of pb st root a"
    using p by (cases p; cases "tl p") (auto split: if_splits)
  then show ?thesis
  proof cases
    case root
    have rc: "child_of pb st root x \<noteq> root" if "is_node st root x" for x
      using tree_okD(1) [OF ok, of "[]" "[x]" root] that by auto
    have 1: "descend pb st' root [x] = (if x = i then Some f else descend pb st root [x])" for x
      using same [of root x] new root by auto
    have "descend pb st' root [x, y] = descend pb st root [x, y]" for x y
    proof (cases "x = i")
      case True
      then show ?thesis using new nof no root by simp
    next
      case False
      then show ?thesis using same [of root x] same [of "child_of pb st root x" y] rc [of x] root by auto
    qed
    then show ?thesis using short_path [OF q] 1 root by (auto simp del: descend.simps(2) split: if_splits)
  next
    case one
    have rt: "root \<noteq> t" using tree_okD(1) [OF ok, of "[]" p t] p one by auto
    have ca: "child_of pb st root x = t \<longleftrightarrow> x = a" if "is_node st root x" for x
      using tree_okD(1) [OF ok, of "[x]" "[a]" t] that one by auto
    have 1: "descend pb st' root [x] = descend pb st root [x]" for x using same [of root x] rt by auto
    have "descend pb st' root [x, y] = (if x = a \<and> y = i then Some f else descend pb st root [x, y])" for x y
    proof (cases "x = a \<and> y = i")
      case True
      then show ?thesis using same [of root a] rt one new by auto
    next
      case False
      then show ?thesis using same [of root x] same [of "child_of pb st root x" y] rt ca [of x] by auto
    qed
    then show ?thesis using short_path [OF q] 1 one by (auto simp del: descend.simps(2) split: if_splits)
  qed
qed

lemma tree_link_table:
  assumes ok: "tree_ok pb st root" and p: "descend pb st root p = Some t" "length p < 2"
    and i: "\<not> PTE_IS_VALID_NODE (pt st t i)" "i < 512"
    and f: "\<And>q. length q \<le> 2 \<Longrightarrow> descend pb st root q \<noteq> Some f" "pt st f = (\<lambda>_. 0)"
    and v: "PTE_IS_VALID_NODE v" "\<not> PTE_IS_LEAF v" "phys_to_virt pb (PTE_GET_PA v) = f"
  defines "st' \<equiv> set_pte (t, i) v st"
  shows "tree_ok pb st' root" "flat pb st' root a b c = flat pb st root a b c"
proof -
  have v0: "\<not> PTE_IS_VALID_NODE 0" by (simp add: PTE_IS_VALID_NODE_def)
  have d: "descend pb st' root q = (if q = p @ [i] then Some f else descend pb st root q)" if "length q \<le> 2" for q
    unfolding st'_def by (rule link_table [OF ok p i f(1) _ v that]) (simp_all add: f(2) v0)
  have ft: "f \<noteq> t" using f(1) p by auto
  have old: "descend pb st root (p @ [i]) = None" using p i by (simp add: descend_append is_node_def)
  show "tree_ok pb st' root"
  proof (rule tree_okI)
    fix q r s assume "length q \<le> 2" "length r \<le> 2" "descend pb st' root q = Some s" "descend pb st' root r = Some s"
    then show "q = r" using d f(1) tree_okD(1) [OF ok, of q r s] by (auto split: if_splits)
  next
    fix q s k assume q: "length q < 2" "descend pb st' root q = Some s" "PTE_IS_VALID_NODE (pt st' s k)"
    show "\<not> PTE_IS_LEAF (pt st' s k)"
    proof (cases "q = p @ [i]")
      case True
      then have "s = f" using q(1,2) d [of q] by auto
      then show ?thesis using q(3) ft f(2) v0 by (simp add: st'_def)
    next
      case False
      then have "descend pb st root q = Some s" using q(1,2) d [of q] by auto
      then show ?thesis using q v(2) tree_okD(2) [OF ok q(1), of s k] by (auto simp: st'_def split: if_splits)
    qed
  qed
  show "flat pb st' root a b c = flat pb st root a b c"
  proof (cases "[a, b] = p @ [i]")
    case True
    then have "descend pb st' root [a, b] = Some f" "descend pb st root [a, b] = None"
      using d [of "[a, b]"] old [folded True] by (simp_all del: descend.simps)
    then show ?thesis using ft f(2) by (simp add: flat_def st'_def del: descend.simps)
  next
    case False
    have "pt st' s = pt st s" if "descend pb st root [a, b] = Some s" for s
    proof -
      have "s \<noteq> t" using tree_okD(1) [OF ok, of "[a, b]" p t] that p by auto
      then show ?thesis by (simp add: st'_def)
    qed
    then show ?thesis using False d [of "[a, b]"] by (auto simp: flat_def simp del: descend.simps split: option.splits)
  qed
qed

section \<open>The tree and the page allocator\<close>

text \<open>
  \<open>L\<close> are the blocks taken from the page allocator over the memory \<open>U\<close>; every table is one of
  them.
\<close>

definition vm_inv :: "u64 \<Rightarrow> nat set \<Rightarrow> u64 \<Rightarrow> vm \<Rightarrow> (nat \<times> nat) set \<Rightarrow> bool" where
  "vm_inv pb U root st L \<longleftrightarrow> tree_ok pb st root \<and> balloc.consistent U (vpages st) L \<and> U \<subseteq> {..<2 ^ 64} \<and>
     page_aligned pb \<and> (\<forall>p t. length p \<le> 2 \<and> descend pb st root p = Some t \<longrightarrow> (unat t, 0) \<in> L)"

lemma vm_invD:
  assumes "vm_inv pb U root st L"
  shows "tree_ok pb st root" "balloc.consistent U (vpages st) L" "U \<subseteq> {..<2 ^ 64}" "page_aligned pb"
    "length p \<le> 2 \<Longrightarrow> descend pb st root p = Some t \<Longrightarrow> (unat t, 0) \<in> L"
  using assms unfolding vm_inv_def by blast+

lemma table_entry:
  assumes "page_aligned f" "page_aligned pb"
  defines "v \<equiv> PTE_MAKE_VALID_TABLE (PTE_BUILD (virt_to_phys pb f) 0)"
  shows "PTE_IS_VALID_NODE v" "\<not> PTE_IS_LEAF v" "phys_to_virt pb (PTE_GET_PA v) = f"
proof -
  have v: "v = PTE_BUILD (virt_to_phys pb f) 1"
    by (simp add: v_def PTE_MAKE_VALID_TABLE_def PTE_BUILD_def PTE_V_def)
  have "page_aligned (virt_to_phys pb f)"
    unfolding virt_to_phys_def using assms(1,2) by (intro page_aligned_add page_aligned_diff page_aligned_offset)
  then have pa: "PTE_GET_PA v = virt_to_phys pb f" and fl: "PTE_FLAGS v = 1"
    unfolding v by (simp_all add: PTE_GET_PA_BUILD)
  show "phys_to_virt pb (PTE_GET_PA v) = f" unfolding pa by (simp add: phys_to_virt_def virt_to_phys_def)
  show "PTE_IS_VALID_NODE v" "\<not> PTE_IS_LEAF v"
    using bit_PTE_FLAGS [of 0 v] bit_PTE_FLAGS [of 1 v] bit_PTE_FLAGS [of 2 v] bit_PTE_FLAGS [of 3 v]
    unfolding pte_bit_iffs fl bit_1_iff by simp_all
qed

definition tables :: "u64 \<Rightarrow> vm \<Rightarrow> u64 \<Rightarrow> (nat \<times> nat) set" where
  "tables pb st root = {(unat t, 0) | t. \<exists>p. length p \<le> 2 \<and> descend pb st root p = Some t}"

lemma tablesI: "length p \<le> 2 \<Longrightarrow> descend pb st root p = Some t \<Longrightarrow> (unat t, 0) \<in> tables pb st root"
  by (auto simp: tables_def)

lemma vm_invI:
  assumes "tree_ok pb st root" "balloc.consistent U (vpages st) L" "U \<subseteq> {..<2 ^ 64}" "page_aligned pb"
    "tables pb st root \<subseteq> L"
  shows "vm_inv pb U root st L"
  using assms tablesI unfolding vm_inv_def by blast

lemma vm_inv_tables: "vm_inv pb U root st L \<Longrightarrow> tables pb st root \<subseteq> L"
  by (auto simp: vm_inv_def tables_def)

lemma alloc_page_cases:
  assumes inv: "vm_inv pb U root st L"
  obtains (none) "alloc_page st = (None, st)" "free_set (vpages st) = {}"
  | (page) f g where "alloc_page st = (Some f, st\<lparr>vpages := g, pt := (pt st)(f := (\<lambda>_. 0))\<rparr>)" "page_aligned f"
      "balloc.consistent U g (insert (unat f, 0) L)" "(unat f, 0) \<notin> L"
proof -
  note I = vm_invD [OF inv]
  have bi: "buddy_inv (vpages st)" using I(2) by (rule balloc.consistent_inv)
  obtain r g where r: "alloc_pages 0 (vpages st) = (r, g)" by fastforce
  show ?thesis
  proof (cases r)
    case None
    then have "g = vpages st" "free_set (vpages st) = {}"
      using alloc_pages_None [OF bi] r by (auto simp: free_set_def)
    then show ?thesis using none r None by (simp add: alloc_page_def)
  next
    case (Some p)
    have al: "buddy_alloc (vpages st) (p, 0) g" using r Some by (simp add: buddy_alloc_def)
    note c = balloc.consistent_alloc [OF I(2) al]
    have P: "SZ 0 dvd p" "block p 0 \<subseteq> free_set (vpages st)" using alloc_pages_Some [OF bi] r Some by auto
    have "p \<in> block p 0" using P(1) by (simp add: block_def SZ_def)
    then have "p \<in> U" using P(2) balloc.consistentD(6) [OF I(2)] by auto
    then have u: "unat (of_nat p :: u64) = p" using I(3) by (auto simp: unat_of_nat)
    have "page_aligned (of_nat p)" using P(1) u by (simp add: page_aligned_unat SZ_def)
    then show ?thesis using page [of "of_nat p" g] c u r Some by (simp add: alloc_page_def)
  qed
qed

text \<open>Other tables do not see the new page.\<close>

lemma new_page_tree:
  assumes inv: "vm_inv pb U root st L" and f: "(unat f, 0) \<notin> L"
    and st1_def: "st1 = st\<lparr>vpages := g, pt := (pt st)(f := (\<lambda>_. 0))\<rparr>"
  shows "length q \<le> 2 \<Longrightarrow> descend pb st1 root q = descend pb st root q" "tree_ok pb st1 root"
    "length q \<le> 2 \<Longrightarrow> descend pb st root q \<noteq> Some f" "flat pb st1 root a b c = flat pb st root a b c"
proof -
  note I = vm_invD [OF inv]
  show nf: "descend pb st root q \<noteq> Some f" if "length q \<le> 2" for q using I(5) [OF that] f by auto
  have same: "pt st1 s = pt st s" if "length q \<le> 2" "descend pb st root q = Some s" for q s
    using nf [OF that(1)] that(2) by (auto simp: st1_def)
  show d: "descend pb st1 root q = descend pb st root q" if "length q \<le> 2" for q
    by (rule descend_cong [OF _ that]) (rule same, simp_all)
  show "tree_ok pb st1 root"
  proof (rule tree_okI)
    fix p q t assume "length p \<le> 2" "length q \<le> 2" "descend pb st1 root p = Some t" "descend pb st1 root q = Some t"
    then show "p = q" using d tree_okD(1) [OF I(1), of p q t] by simp
  next
    fix p t i assume "length p < 2" "descend pb st1 root p = Some t" "PTE_IS_VALID_NODE (pt st1 t i)"
    then show "\<not> PTE_IS_LEAF (pt st1 t i)"
      using d [of p] same [of p t] tree_okD(2) [OF I(1), of p t i] by simp
  qed
  show "flat pb st1 root a b c = flat pb st root a b c"
    using d [of "[a, b]"] same [of "[a, b]"] by (simp add: flat_def del: descend.simps split: option.splits)
qed

lemma index_at_less: "index_at l va < 512"
proof -
  have "PAGE_TABLE_INDEX l va \<le> PT_IDX_MASK" by (simp add: PAGE_TABLE_INDEX_def word_and_le1)
  then show ?thesis by (simp add: index_at_def PT_IDX_MASK_def word_le_nat_alt)
qed

definition vpath :: "nat \<Rightarrow> u64 \<Rightarrow> nat list" where
  "vpath l va = (if l = 0 then [index_at 2 va, index_at 1 va] else if l = 1 then [index_at 2 va] else [])"

lemma vpath_facts:
  "length (vpath l va) \<le> 2" "0 < l \<Longrightarrow> length (vpath l va) < 2"
  "l < 2 \<Longrightarrow> vpath l va = vpath (Suc l) va @ [index_at (Suc l) va]"
  by (auto simp: vpath_def numeral_2_eq_2 less_Suc_eq)

text \<open>What a walk that may allocate does: it only adds tables, and no entry of the last level changes.\<close>

definition walked :: "u64 \<Rightarrow> nat set \<Rightarrow> u64 \<Rightarrow> vm \<Rightarrow> (nat \<times> nat) set \<Rightarrow> vm \<Rightarrow> bool" where
  "walked pb U root st L st' \<longleftrightarrow> vm_inv pb U root st' (L \<union> tables pb st' root) \<and>
     flat pb st' root = flat pb st root"

lemma link_new_table:
  assumes inv: "vm_inv pb U root st L" and p: "descend pb st root p = Some t" "length p < 2"
    and i: "\<not> PTE_IS_VALID_NODE (pt st t i)" "i < 512"
    and al: "alloc_page st = (Some f, st1)"
  defines "st2 \<equiv> set_pte (t, i) (PTE_MAKE_VALID_TABLE (PTE_BUILD (virt_to_phys pb f) 0)) st1"
  shows "walked pb U root st L st2" "descend pb st2 root (p @ [i]) = Some f"
    "tables pb st root \<subseteq> tables pb st2 root"
proof -
  note I = vm_invD [OF inv]
  obtain g where g: "st1 = st\<lparr>vpages := g, pt := (pt st)(f := (\<lambda>_. 0))\<rparr>" "page_aligned f"
      "balloc.consistent U g (insert (unat f, 0) L)" "(unat f, 0) \<notin> L"
    using inv al by (cases rule: alloc_page_cases) auto
  note N = new_page_tree [OF inv g(4,1)]
  note v = table_entry [OF g(2) I(4)]
  have p1: "descend pb st1 root p = Some t" using N(1) p by simp
  have "t \<noteq> f" using N(3) [of p] p by auto
  then have i1: "\<not> PTE_IS_VALID_NODE (pt st1 t i)" "pt st1 f = (\<lambda>_. 0)" using i by (simp_all add: g(1))
  have f1: "descend pb st1 root q \<noteq> Some f" if "length q \<le> 2" for q using N(1,3) that by simp
  note T = tree_link_table [OF N(2) p1 p(2) i1(1) i(2) f1 i1(2) v, folded st2_def]
  have z: "\<not> PTE_IS_VALID_NODE (pt st1 f k)" for k unfolding i1(2) by (simp add: PTE_IS_VALID_NODE_def)
  note D = link_table [OF N(2) p1 p(2) i1(1) i(2) f1 z v, folded st2_def]
  show "descend pb st2 root (p @ [i]) = Some f" using D [of "p @ [i]"] p(2) by simp
  have old: "descend pb st root (p @ [i]) = None" using p i by (simp add: descend_append is_node_def)
  show "tables pb st root \<subseteq> tables pb st2 root"
  proof
    fix x assume "x \<in> tables pb st root"
    then obtain q u where q: "x = (unat u, 0)" "length q \<le> 2" "descend pb st root q = Some u" by (auto simp: tables_def)
    then have "descend pb st2 root q = Some u" using D [of q] N(1) [of q] q(2) old by auto
    then show "x \<in> tables pb st2 root" using q tablesI by blast
  qed
  have "tables pb st2 root \<subseteq> insert (unat f, 0) (tables pb st root)"
    using D N(1) by (fastforce simp: tables_def split: if_splits)
  moreover have "tables pb st root \<subseteq> L" by (rule vm_inv_tables [OF inv])
  moreover have "(unat f, 0) \<in> tables pb st2 root"
    by (rule tablesI [of "p @ [i]"]) (use D [of "p @ [i]"] p(2) in simp_all)
  ultimately have L: "L \<union> tables pb st2 root = insert (unat f, 0) L" by blast
  have "vm_inv pb U root st2 (L \<union> tables pb st2 root)"
    by (rule vm_invI) (use T(1) g I L in \<open>auto simp: st2_def\<close>)
  moreover have "flat pb st2 root = flat pb st root" using T(2) N(4) by (intro ext) simp
  ultimately show "walked pb U root st L st2" by (simp add: walked_def)
qed

lemma walked_trans:
  assumes "walked pb U root st L st1" "walked pb U root st1 (L \<union> tables pb st1 root) st2"
    "tables pb st1 root \<subseteq> tables pb st2 root"
  shows "walked pb U root st L st2"
proof -
  have "L \<union> tables pb st1 root \<union> tables pb st2 root = L \<union> tables pb st2 root" using assms(3) by blast
  then show ?thesis using assms by (simp add: walked_def)
qed

lemma walked_refl: "vm_inv pb U root st L \<Longrightarrow> walked pb U root st L st"
  using vm_inv_tables [of pb U root st L] by (simp add: walked_def Un_absorb2)

lemma walk_alloc:
  assumes "vm_inv pb U root st L" "descend pb st root (vpath l va) = Some t" "l \<le> 2"
    "walk_levels pb l t va False True st = (r, s, st')"
  shows "walked pb U root st L st' \<and> tables pb st root \<subseteq> tables pb st' root \<and>
    (case r of None \<Rightarrow> free_set (vpages st') = {}
     | Some ptr \<Rightarrow> snd ptr = index_at 0 va \<and> descend pb st' root (vpath 0 va) = Some (fst ptr))"
  using assms
proof (induction l arbitrary: st L t)
  case 0
  then show ?case using walked_refl by auto
next
  case (Suc l)
  let ?i = "index_at (Suc l) va"
  let ?p = "vpath (Suc l) va"
  have p: "vpath l va = ?p @ [?i]" "length ?p < 2" using Suc.prems(3) vpath_facts(2,3) by auto
  note I = vm_invD [OF Suc.prems(1)]
  show ?case
  proof (cases "PTE_IS_VALID_NODE (pt st t ?i)")
    case True
    then have nd: "is_node st t ?i" using tree_okD(3) [OF I(1) p(2) Suc.prems(2)] index_at_less by simp
    then have "walk_levels pb l (child_of pb st t ?i) va False True st = (r, s, st')"
      using Suc.prems(4) True by (simp add: Let_def is_node_def child_of_def)
    moreover have "descend pb st root (vpath l va) = Some (child_of pb st t ?i)"
      using Suc.prems(2) nd unfolding p(1) descend_append by simp
    ultimately show ?thesis using Suc.IH [OF Suc.prems(1)] Suc.prems(3) by simp
  next
    case False
    from Suc.prems(1) show ?thesis
    proof (cases rule: alloc_page_cases)
      case none
      then have "r = None" "st' = st" using Suc.prems(4) False by (auto simp: Let_def)
      then show ?thesis using walked_refl [OF Suc.prems(1)] none(2) by simp
    next
      case (page f g)
      define st2 where "st2 = set_pte (t, ?i) (PTE_MAKE_VALID_TABLE (PTE_BUILD (virt_to_phys pb f) 0))
        (st\<lparr>vpages := g, pt := (pt st)(f := (\<lambda>_. 0))\<rparr>)"
      note N = link_new_table [OF Suc.prems(1,2) p(2) False index_at_less page(1), folded st2_def]
      have w: "walk_levels pb l f va False True st2 = (r, s, st')"
        using Suc.prems(4) False page(1) by (simp add: Let_def st2_def)
      have inv2: "vm_inv pb U root st2 (L \<union> tables pb st2 root)" using N(1) by (simp add: walked_def)
      have d2: "descend pb st2 root (vpath l va) = Some f" using N(2) p(1) by simp
      note sub = N(3)
      note IH = Suc.IH [OF inv2 d2 _ w]
      then have IH: "walked pb U root st2 (L \<union> tables pb st2 root) st'" "tables pb st2 root \<subseteq> tables pb st' root"
          "case r of None \<Rightarrow> free_set (vpages st') = {}
           | Some ptr \<Rightarrow> snd ptr = index_at 0 va \<and> descend pb st' root (vpath 0 va) = Some (fst ptr)"
        using Suc.prems(3) by auto
      have "walked pb U root st L st'" by (rule walked_trans [OF N(1) IH(1,2)])
      then show ?thesis using IH(2,3) sub by auto
    qed
  qed
qed

lemma walk_no_alloc:
  assumes "tree_ok pb st root" "descend pb st root (vpath l va) = Some t" "l \<le> 2"
  shows "walk_levels pb l t va s False st =
    (case descend pb st root (vpath 0 va) of None \<Rightarrow> (None, s, st) | Some t0 \<Rightarrow> (Some (t0, index_at 0 va), s, st))"
  using assms(2,3)
proof (induction l arbitrary: t)
  case (Suc l)
  let ?i = "index_at (Suc l) va"
  have p: "vpath l va = vpath (Suc l) va @ [?i]" "length (vpath (Suc l) va) < 2" using Suc.prems(2) vpath_facts(2,3) by auto
  show ?case
  proof (cases "PTE_IS_VALID_NODE (pt st t ?i)")
    case True
    then have nd: "is_node st t ?i" using tree_okD(3) [OF assms(1) p(2) Suc.prems(1)] index_at_less by simp
    then have "descend pb st root (vpath l va) = Some (child_of pb st t ?i)"
      using Suc.prems(1) unfolding p(1) descend_append by simp
    then show ?thesis using Suc.IH Suc.prems(2) nd by (simp add: Let_def is_node_def child_of_def)
  next
    case False
    then have "descend pb st root (vpath l va) = None" using Suc.prems(1) unfolding p(1) descend_append is_node_def by simp
    then have "descend pb st root (vpath 0 va) = None"
    proof (cases l)
      case (Suc k)
      then have "vpath 0 va = vpath l va @ [index_at 1 va]" using Suc.prems(2) vpath_facts(3) [of 0 va] by simp
      then show ?thesis using \<open>descend pb st root (vpath l va) = None\<close> by (simp add: descend_append)
    qed simp
    then show ?thesis using False by (simp add: Let_def)
  qed
qed simp

text \<open>The entry of an address.\<close>

definition entry :: "u64 \<Rightarrow> vm \<Rightarrow> u64 \<Rightarrow> u64 \<Rightarrow> u64" where
  "entry pb st root va = flat pb st root (index_at 2 va) (index_at 1 va) (index_at 0 va)"

lemma index_inj:
  assumes "VA_IS_IN_RANGE va" "page_aligned va" "VA_IS_IN_RANGE va'" "page_aligned va'"
    "index_at 2 va = index_at 2 va'" "index_at 1 va = index_at 1 va'" "index_at 0 va = index_at 0 va'"
  shows "va = va'"
proof -
  have i: "PAGE_TABLE_INDEX l va = PAGE_TABLE_INDEX l va'" if "index_at l va = index_at l va'" for l
    using that unfolding index_at_def by (simp only: word_unat_eq_iff)
  show ?thesis
    using va_of_indices_id [OF assms(1,2)] va_of_indices_id [OF assms(3,4)]
    unfolding i [OF assms(5)] i [OF assms(6)] i [OF assms(7)] by (rule trans [OF sym])
qed

lemma set_leaf_inv:
  assumes inv: "vm_inv pb U root st L" and d: "descend pb st root (vpath 0 va) = Some t"
    and va: "VA_IS_IN_RANGE va" "page_aligned va" and st'_def: "st' = set_pte (t, index_at 0 va) v st"
  shows "vm_inv pb U root st' L" "tables pb st' root = tables pb st root"
    "VA_IS_IN_RANGE va' \<Longrightarrow> page_aligned va' \<Longrightarrow> entry pb st' root va' = (if va' = va then v else entry pb st root va')"
proof -
  note I = vm_invD [OF inv]
  have d2: "descend pb st root [index_at 2 va, index_at 1 va] = Some t" using d by (simp add: vpath_def)
  note S = set_leaf [OF I(1) d2, where c = "index_at 0 va" and v = v, folded st'_def]
  show t: "tables pb st' root = tables pb st root" using S(1) unfolding tables_def by (metis (no_types, lifting))
  show "vm_inv pb U root st' L"
    by (rule vm_invI) (use S(2) I t vm_inv_tables [OF inv] in \<open>auto simp: st'_def\<close>)
  show "entry pb st' root va' = (if va' = va then v else entry pb st root va')"
    if "VA_IS_IN_RANGE va'" "page_aligned va'"
    using index_inj [OF that va] unfolding entry_def S(3) by auto
qed

section \<open>Mapping and unmapping\<close>

text \<open>The \<open>n\<close> pages from \<open>va\<close> on.\<close>

definition in_pages :: "u64 \<Rightarrow> nat \<Rightarrow> u64 \<Rightarrow> bool" where
  "in_pages va n va' \<longleftrightarrow> unat (va' - va) < 4096 * n"

definition leaf_value :: "u64 \<Rightarrow> u64 \<Rightarrow> u64" where
  "leaf_value pa perm = PTE_MAKE_VALID_LEAF (PTE_BUILD pa perm)"

lemma in_pages_0 [simp]: "\<not> in_pages va 0 va'"
  by (simp add: in_pages_def)

lemma in_pages_Suc:
  assumes "page_aligned va" "page_aligned va'" "4096 * Suc n \<le> 2 ^ 64"
  shows "in_pages va (Suc n) va' \<longleftrightarrow> va' = va \<or> in_pages (va + PAGE_BYTES) n va'"
proof -
  define d where "d = va' - va"
  have d: "va' - (va + PAGE_BYTES) = d - PAGE_BYTES" by (simp add: d_def)
  have P: "unat PAGE_BYTES = 4096" by (simp add: PAGE_BYTES_def)
  have al: "4096 dvd unat d" using page_aligned_diff [OF assms(2,1)] by (simp add: d_def page_aligned_unat)
  show ?thesis
  proof (cases "d = 0")
    case True
    then show ?thesis by (simp add: in_pages_def d_def)
  next
    case False
    then have "unat d \<noteq> 0" by (simp add: unat_eq_0)
    then have "4096 \<le> unat d" using al by (auto dest: dvd_imp_le)
    then have "unat (d - PAGE_BYTES) = unat d - 4096" using unat_sub_u64 [of PAGE_BYTES d] P by simp
    then show ?thesis using \<open>4096 \<le> unat d\<close> False unfolding in_pages_def d d_def [symmetric] by (auto simp: d_def)
  qed
qed

lemma in_pages_self: "0 < n \<Longrightarrow> in_pages va n va"
  by (simp add: in_pages_def)

text \<open>All pages of the range have addresses that the tree can hold.\<close>

definition range_ok :: "u64 \<Rightarrow> nat \<Rightarrow> bool" where
  "range_ok va n \<longleftrightarrow> page_aligned va \<and> 4096 * n < 2 ^ 64 \<and>
     (\<forall>va'. page_aligned va' \<and> in_pages va n va' \<longrightarrow> VA_IS_IN_RANGE va')"

lemma range_okD:
  assumes "range_ok va (Suc n)"
  shows "page_aligned va" "VA_IS_IN_RANGE va" "range_ok (va + PAGE_BYTES) n"
    "page_aligned va' \<Longrightarrow> in_pages va (Suc n) va' \<longleftrightarrow> va' = va \<or> in_pages (va + PAGE_BYTES) n va'"
    "\<not> in_pages (va + PAGE_BYTES) n va"
proof -
  have A: "page_aligned va" "4096 * Suc n < 2 ^ 64"
    "\<And>va'. page_aligned va' \<Longrightarrow> in_pages va (Suc n) va' \<Longrightarrow> VA_IS_IN_RANGE va'"
    using assms by (auto simp: range_ok_def)
  show "page_aligned va" by (rule A(1))
  show S: "in_pages va (Suc n) va' \<longleftrightarrow> va' = va \<or> in_pages (va + PAGE_BYTES) n va'" if "page_aligned va'" for va'
    by (rule in_pages_Suc [OF A(1) that]) (use A(2) in simp)
  show "VA_IS_IN_RANGE va" using A(1,3) in_pages_self by simp
  show "range_ok (va + PAGE_BYTES) n"
    unfolding range_ok_def using A S page_aligned_add [OF A(1) page_aligned_PAGE_BYTES] by auto
  have "unat (va - (va + PAGE_BYTES)) = 2 ^ 64 - 4096" by (simp add: PAGE_BYTES_def)
  then show "\<not> in_pages (va + PAGE_BYTES) n va" using A(2) by (simp add: in_pages_def)
qed

text \<open>The entries of all addresses when \<open>m\<close> pages from \<open>va\<close> on get new ones.\<close>

definition entries_set :: "u64 \<Rightarrow> u64 \<Rightarrow> vm \<Rightarrow> u64 \<Rightarrow> nat \<Rightarrow> (u64 \<Rightarrow> u64) \<Rightarrow> vm \<Rightarrow> bool" where
  "entries_set pb root st va m val st' \<longleftrightarrow> (\<forall>va'. VA_IS_IN_RANGE va' \<and> page_aligned va' \<longrightarrow>
     entry pb st' root va' = (if in_pages va m va' then val va' else entry pb st root va'))"

lemma entries_set_step:
  assumes "range_ok va (Suc m)"
    "\<And>va'. VA_IS_IN_RANGE va' \<Longrightarrow> page_aligned va' \<Longrightarrow> entry pb st1 root va' = (if va' = va then val va else entry pb st root va')"
    "entries_set pb root st1 (va + PAGE_BYTES) m val st2"
  shows "entries_set pb root st va (Suc m) val st2"
proof -
  have "entry pb st2 root va' = (if in_pages va (Suc m) va' then val va' else entry pb st root va')"
    if "VA_IS_IN_RANGE va'" "page_aligned va'" for va'
    using assms(3) that assms(2) [OF that] range_okD(4) [OF assms(1) that(2)] by (auto simp: entries_set_def)
  then show ?thesis by (simp add: entries_set_def)
qed

lemma range_ok_less: "range_ok va n \<Longrightarrow> m \<le> n \<Longrightarrow> range_ok va m"
  by (auto simp: range_ok_def in_pages_def)

lemma walk2_alloc:
  assumes inv: "vm_inv pb U root st L" and va: "VA_IS_IN_RANGE va" "page_aligned va"
  obtains (none) s st1 where "vm_walk2 pb root va (Some False) True st = Some (None, s, st1)"
      "walked pb U root st L st1" "tables pb st root \<subseteq> tables pb st1 root" "free_set (vpages st1) = {}"
  | (some) t s st1 where "vm_walk2 pb root va (Some False) True st = Some (Some (t, index_at 0 va), s, st1)"
      "walked pb U root st L st1" "tables pb st root \<subseteq> tables pb st1 root"
      "descend pb st1 root (vpath 0 va) = Some t" "pt st1 t (index_at 0 va) = entry pb st root va"
proof -
  obtain r s st1 where w: "walk_levels pb 2 root va False True st = (r, s, st1)" by (metis prod_cases3)
  have d: "descend pb st root (vpath 2 va) = Some root" by (simp add: vpath_def)
  note W = walk_alloc [OF inv d _ w]
  have w2: "vm_walk2 pb root va (Some False) True st = Some (r, s, st1)"
    using va(1) w by (simp add: vm_walk2_def PAGE_TABLE_MAX_LEVELS_def)
  show ?thesis
  proof (cases r)
    case None
    then show ?thesis using none w2 W by simp
  next
    case (Some ptr)
    obtain t k where ptr: "ptr = (t, k)" by (cases ptr)
    have f: "flat pb st1 root = flat pb st root" "descend pb st1 root (vpath 0 va) = Some t" "k = index_at 0 va"
      using W Some ptr by (simp_all add: walked_def)
    then have "pt st1 t k = entry pb st root va"
      unfolding entry_def f(1) [symmetric] using f(2,3) by (simp add: flat_def vpath_def)
    then show ?thesis using some [of t s st1] w2 W Some ptr f by simp
  qed
qed

lemma entry_walked: "walked pb U root st L st1 \<Longrightarrow> entry pb st1 root va = entry pb st root va"
  by (simp add: walked_def entry_def)

text \<open>The result of mapping: \<open>m\<close> of the \<open>n\<close> pages are mapped, all of them unless memory ran out.\<close>

definition map_result ::
  "u64 \<Rightarrow> nat set \<Rightarrow> u64 \<Rightarrow> vm \<Rightarrow> (nat \<times> nat) set \<Rightarrow> u64 \<Rightarrow> nat \<Rightarrow> (u64 \<Rightarrow> u64) \<Rightarrow> int \<Rightarrow> vm \<Rightarrow> bool" where
  "map_result pb U root st L va n val r st' \<longleftrightarrow>
     vm_inv pb U root st' (L \<union> tables pb st' root) \<and> tables pb st root \<subseteq> tables pb st' root \<and>
     (\<exists>m\<le>n. entries_set pb root st va m val st' \<and> (r = 0 \<and> m = n \<or> r = -1 \<and> m < n \<and> free_set (vpages st') = {}))"

lemma map_result_step:
  assumes "walked pb U root st L st1" "tables pb st root \<subseteq> tables pb st1 root"
    "vm_inv pb U root st2 (L \<union> tables pb st1 root)" "tables pb st2 root = tables pb st1 root"
    "range_ok va (Suc n)"
    "\<And>va'. VA_IS_IN_RANGE va' \<Longrightarrow> page_aligned va' \<Longrightarrow> entry pb st2 root va' = (if va' = va then val va else entry pb st root va')"
    "map_result pb U root st2 (L \<union> tables pb st1 root) (va + PAGE_BYTES) n val r st'"
  shows "map_result pb U root st L va (Suc n) val r st'"
proof -
  obtain m where m: "m \<le> n" "entries_set pb root st2 (va + PAGE_BYTES) m val st'"
      "r = 0 \<and> m = n \<or> r = -1 \<and> m < n \<and> free_set (vpages st') = {}"
    using assms(7) unfolding map_result_def by blast
  have "range_ok va (Suc m)" using range_ok_less [OF assms(5)] m(1) by simp
  then have "entries_set pb root st va (Suc m) val st'" by (rule entries_set_step [OF _ assms(6) m(2)])
  moreover have sub: "tables pb st1 root \<subseteq> tables pb st' root" using assms(4,7) by (simp add: map_result_def)
  then have "L \<union> tables pb st1 root \<union> tables pb st' root = L \<union> tables pb st' root" by blast
  then have "vm_inv pb U root st' (L \<union> tables pb st' root)" using assms(7) by (simp add: map_result_def)
  ultimately show ?thesis using assms(2) sub m(1,3) unfolding map_result_def by (metis Suc_le_mono Suc_less_eq subset_trans)
qed

lemma vm_map_loop_ok:
  assumes "vm_inv pb U root st L" "range_ok va n" "unat remaining = 4096 * n"
    "\<And>va'. VA_IS_IN_RANGE va' \<Longrightarrow> page_aligned va' \<Longrightarrow> in_pages va n va' \<Longrightarrow>
       \<not> PTE_IS_VALID_NODE (entry pb st root va') \<or> entry pb st root va' = leaf_value (pa + (va' - va)) perm"
  shows "\<exists>r st'. vm_map_loop pb root False perm va pa remaining st = Some (r, st') \<and>
    map_result pb U root st L va n (\<lambda>va'. leaf_value (pa + (va' - va)) perm) r st'"
  using assms
proof (induction n arbitrary: va pa remaining st L)
  case 0
  then have "remaining = 0" by (simp add: unat_eq_0)
  then have "vm_map_loop pb root False perm va pa remaining st = Some (0, st)" by (simp add: vm_map_loop.simps)
  moreover have "L \<union> tables pb st root = L" using vm_inv_tables [OF "0.prems"(1)] by blast
  ultimately show ?case using "0.prems"(1) by (auto simp: map_result_def entries_set_def)
next
  case (Suc n)
  note R = range_okD [OF Suc.prems(2)]
  let ?val = "\<lambda>va'. leaf_value (pa + (va' - va)) perm"
  have pos: "remaining > 0" using Suc.prems(3) by (simp add: word_less_nat_alt)
  have rem: "unat (remaining - PAGE_BYTES) = 4096 * n"
    using unat_sub_u64 [of PAGE_BYTES remaining] Suc.prems(3) by (simp add: PAGE_BYTES_def)
  have val: "leaf_value (pa + PAGE_BYTES + (va' - (va + PAGE_BYTES))) perm = ?val va'" for va' by simp
  from Suc.prems(1) R(2,1) show ?case
  proof (cases rule: walk2_alloc)
    case (none s st1)
    have "vm_map_loop pb root False perm va pa remaining st = Some (-1, st1)"
      using none(1) pos by (simp add: vm_map_loop.simps Let_def)
    moreover have "entries_set pb root st va 0 ?val st1" using entry_walked [OF none(2)] by (simp add: entries_set_def)
    ultimately show ?thesis using none by (auto simp: map_result_def walked_def intro!: exI [of _ 0])
  next
    case (some t s st1)
    let ?old = "pt st1 t (index_at 0 va)"
    have inv1: "vm_inv pb U root st1 (L \<union> tables pb st1 root)" using some(2) by (simp add: walked_def)
    obtain st2 where st2: "vm_map_loop pb root False perm va pa remaining st =
          vm_map_loop pb root False perm (va + PAGE_BYTES) (pa + PAGE_BYTES) (remaining - PAGE_BYTES) st2"
        "vm_inv pb U root st2 (L \<union> tables pb st1 root)" "tables pb st2 root = tables pb st1 root"
        "\<And>va'. VA_IS_IN_RANGE va' \<Longrightarrow> page_aligned va' \<Longrightarrow>
           entry pb st2 root va' = (if va' = va then ?val va else entry pb st root va')"
    proof (cases "?old = leaf_value pa perm")
      case True
      show ?thesis
      proof (rule that [of st1])
        show "vm_map_loop pb root False perm va pa remaining st =
            vm_map_loop pb root False perm (va + PAGE_BYTES) (pa + PAGE_BYTES) (remaining - PAGE_BYTES) st1"
          using some(1) pos True by (subst vm_map_loop.simps) (simp add: Let_def leaf_value_def)
        show "entry pb st1 root va' = (if va' = va then ?val va else entry pb st root va')" for va'
          using entry_walked [OF some(2)] some(5) True by simp
      qed (use inv1 in simp_all)
    next
      case False
      have "\<not> PTE_IS_VALID_NODE ?old"
        using Suc.prems(4) [OF R(2,1) in_pages_self] some(5) False by simp
      show ?thesis
      proof (rule that [of "set_pte (t, index_at 0 va) (leaf_value pa perm) st1"])
        show "vm_map_loop pb root False perm va pa remaining st =
            vm_map_loop pb root False perm (va + PAGE_BYTES) (pa + PAGE_BYTES) (remaining - PAGE_BYTES)
              (set_pte (t, index_at 0 va) (leaf_value pa perm) st1)"
          using some(1) pos False \<open>\<not> PTE_IS_VALID_NODE ?old\<close>
          by (subst vm_map_loop.simps) (simp add: Let_def leaf_value_def)
        note S = set_leaf_inv [OF inv1 some(4) R(2,1) refl, where v = "leaf_value pa perm"]
        show "vm_inv pb U root (set_pte (t, index_at 0 va) (leaf_value pa perm) st1) (L \<union> tables pb st1 root)"
          "tables pb (set_pte (t, index_at 0 va) (leaf_value pa perm) st1) root = tables pb st1 root"
          using S(1,2) .
        show "entry pb (set_pte (t, index_at 0 va) (leaf_value pa perm) st1) root va' =
            (if va' = va then ?val va else entry pb st root va')" if "VA_IS_IN_RANGE va'" "page_aligned va'" for va'
          using S(3) [OF that] entry_walked [OF some(2)] by simp
      qed
    qed
    have "\<exists>r st'. vm_map_loop pb root False perm (va + PAGE_BYTES) (pa + PAGE_BYTES) (remaining - PAGE_BYTES) st2 = Some (r, st') \<and>
        map_result pb U root st2 (L \<union> tables pb st1 root) (va + PAGE_BYTES) n
          (\<lambda>va'. leaf_value (pa + PAGE_BYTES + (va' - (va + PAGE_BYTES))) perm) r st'"
    proof (rule Suc.IH [OF st2(2) R(3) rem])
      fix va' assume va': "VA_IS_IN_RANGE va'" "page_aligned va'" "in_pages (va + PAGE_BYTES) n va'"
      then have "va' \<noteq> va" "in_pages va (Suc n) va'" using R(4,5) by auto
      then show "\<not> PTE_IS_VALID_NODE (entry pb st2 root va') \<or>
          entry pb st2 root va' = leaf_value (pa + PAGE_BYTES + (va' - (va + PAGE_BYTES))) perm"
        using Suc.prems(4) [OF va'(1,2)] st2(4) [OF va'(1,2)] val by simp
    qed
    then obtain r st' where r: "vm_map_loop pb root False perm (va + PAGE_BYTES) (pa + PAGE_BYTES) (remaining - PAGE_BYTES) st2 = Some (r, st')"
        "map_result pb U root st2 (L \<union> tables pb st1 root) (va + PAGE_BYTES) n ?val r st'"
      unfolding val by blast
    show ?thesis
      using map_result_step [OF some(2,3) st2(2,3) Suc.prems(2) st2(4) r(2)] r(1) st2(1) by auto
  qed
qed

text \<open>Unmapping, without freeing the pages.\<close>

lemma walk_lookup:
  assumes inv: "vm_inv pb U root st L" and va: "VA_IS_IN_RANGE va"
    and e: "PTE_IS_VALID_NODE (entry pb st root va)"
  obtains t s where "vm_walk pb root va False st = Some (Some (t, index_at 0 va), s, st)"
    "descend pb st root (vpath 0 va) = Some t" "pt st t (index_at 0 va) = entry pb st root va"
proof -
  have "\<not> PTE_IS_VALID_NODE 0" by (simp add: PTE_IS_VALID_NODE_def)
  then obtain t where t: "descend pb st root (vpath 0 va) = Some t"
    using e by (auto simp: entry_def flat_def vpath_def simp del: descend.simps split: option.splits)
  have "descend pb st root (vpath 2 va) = Some root" by (simp add: vpath_def)
  from walk_no_alloc [OF vm_invD(1) [OF inv] this, of False] t va
  have "vm_walk pb root va False st = Some (Some (t, index_at 0 va), False, st)"
    by (simp add: vm_walk_def vm_walk2_def PAGE_TABLE_MAX_LEVELS_def)
  moreover have "pt st t (index_at 0 va) = entry pb st root va"
    using t by (simp add: entry_def flat_def vpath_def del: descend.simps)
  ultimately show ?thesis using that t by blast
qed

lemma vm_unmap_loop_ok:
  assumes "vm_inv pb U root st L" "range_ok va n" "page + n = npages"
    "\<And>va'. VA_IS_IN_RANGE va' \<Longrightarrow> page_aligned va' \<Longrightarrow> in_pages va n va' \<Longrightarrow>
       PTE_IS_VALID_NODE (entry pb st root va') \<and> PTE_IS_LEAF (entry pb st root va')"
    "va = va0 + of_nat page * PAGE_BYTES"
  shows "\<exists>st'. vm_unmap_loop pb root va0 page npages False st = Some st' \<and> vm_inv pb U root st' L \<and>
    tables pb st' root = tables pb st root \<and> entries_set pb root st va n (\<lambda>_. 0) st' \<and> vpages st' = vpages st"
  using assms
proof (induction n arbitrary: va page st)
  case 0
  then show ?case by (subst vm_unmap_loop.simps) (simp add: entries_set_def)
next
  case (Suc n)
  note R = range_okD [OF Suc.prems(2)]
  have e: "PTE_IS_VALID_NODE (entry pb st root va)" "PTE_IS_LEAF (entry pb st root va)"
    using Suc.prems(4) [OF R(2,1) in_pages_self] by simp_all
  obtain t s where t: "vm_walk pb root va False st = Some (Some (t, index_at 0 va), s, st)"
      "descend pb st root (vpath 0 va) = Some t" "pt st t (index_at 0 va) = entry pb st root va"
    using walk_lookup [OF Suc.prems(1) R(2) e(1)] .
  let ?st = "set_pte (t, index_at 0 va) 0 st"
  note S = set_leaf_inv [OF Suc.prems(1) t(2) R(2,1) refl, where v = 0]
  have va: "va0 + (1 + of_nat page) * PAGE_BYTES = va + PAGE_BYTES" unfolding Suc.prems(5) by (simp add: algebra_simps)
  have step: "vm_unmap_loop pb root va0 page npages False st = vm_unmap_loop pb root va0 (Suc page) npages False ?st"
    using t e Suc.prems(3,5) by (subst vm_unmap_loop.simps) (simp add: Let_def)
  have "\<exists>st'. vm_unmap_loop pb root va0 (Suc page) npages False ?st = Some st' \<and> vm_inv pb U root st' L \<and>
    tables pb st' root = tables pb ?st root \<and> entries_set pb root ?st (va + PAGE_BYTES) n (\<lambda>_. 0) st' \<and> vpages st' = vpages ?st"
  proof (rule Suc.IH [OF S(1) R(3)])
    fix va' assume va': "VA_IS_IN_RANGE va'" "page_aligned va'" "in_pages (va + PAGE_BYTES) n va'"
    then have "va' \<noteq> va" "in_pages va (Suc n) va'" using R(4,5) by auto
    then show "PTE_IS_VALID_NODE (entry pb ?st root va') \<and> PTE_IS_LEAF (entry pb ?st root va')"
      using Suc.prems(4) [OF va'(1,2)] S(3) [OF va'(1,2)] by simp
  qed (use Suc.prems(3) va in simp_all)
  then obtain st' where st': "vm_unmap_loop pb root va0 (Suc page) npages False ?st = Some st'" "vm_inv pb U root st' L"
      "tables pb st' root = tables pb st root" "entries_set pb root ?st (va + PAGE_BYTES) n (\<lambda>_. 0) st'" "vpages st' = vpages st"
    using S(2) by auto
  have "entries_set pb root st va (Suc n) (\<lambda>_. 0) st'"
    by (rule entries_set_step [OF Suc.prems(2) _ st'(4)]) (rule S(3))
  then show ?case using step st' by auto
qed

section \<open>Freeing the tree\<close>

definition subtree :: "u64 \<Rightarrow> vm \<Rightarrow> nat \<Rightarrow> u64 \<Rightarrow> u64 set" where
  "subtree pb st d t = {s. \<exists>p. length p \<le> d \<and> descend pb st t p = Some s}"

definition sub_ok :: "u64 \<Rightarrow> vm \<Rightarrow> nat \<Rightarrow> u64 \<Rightarrow> bool" where
  "sub_ok pb st d t \<longleftrightarrow>
     (\<forall>p q s. length p \<le> d \<and> length q \<le> d \<and> descend pb st t p = Some s \<and> descend pb st t q = Some s \<longrightarrow> p = q) \<and>
     (\<forall>p s i. length p \<le> d \<and> descend pb st t p = Some s \<and> i < 512 \<and> PTE_IS_VALID_NODE (pt st s i) \<longrightarrow>
        (PTE_IS_LEAF (pt st s i) \<longleftrightarrow> length p = d))"

definition page_blocks :: "u64 set \<Rightarrow> (nat \<times> nat) set" where
  "page_blocks S = (\<lambda>s. (unat s, 0)) ` S"

lemma sub_okD:
  assumes "sub_ok pb st d t"
  shows "length p \<le> d \<Longrightarrow> length q \<le> d \<Longrightarrow> descend pb st t p = Some s \<Longrightarrow> descend pb st t q = Some s \<Longrightarrow> p = q"
    "length p \<le> d \<Longrightarrow> descend pb st t p = Some s \<Longrightarrow> i < 512 \<Longrightarrow> PTE_IS_VALID_NODE (pt st s i) \<Longrightarrow>
       (PTE_IS_LEAF (pt st s i) \<longleftrightarrow> length p = d)"
  using assms unfolding sub_ok_def by blast+

lemma subtree_self: "t \<in> subtree pb st d t"
  by (auto simp: subtree_def intro: exI [of _ "[]"])

lemma subtree_0: "subtree pb st 0 t = {t}"
  by (auto simp: subtree_def)

lemma subtree_Suc:
  "subtree pb st (Suc d) t = insert t (\<Union>i\<in>{i. is_node st t i}. subtree pb st d (child_of pb st t i))" (is "?A = ?B")
proof
  show "?A \<subseteq> ?B"
  proof
    fix s assume "s \<in> ?A"
    then obtain p where p: "length p \<le> Suc d" "descend pb st t p = Some s" by (auto simp: subtree_def)
    then show "s \<in> ?B" by (cases p) (auto simp: subtree_def split: if_splits)
  qed
  show "?B \<subseteq> ?A"
  proof
    fix s assume "s \<in> ?B"
    then consider "s = t" | i p where "is_node st t i" "length p \<le> d" "descend pb st (child_of pb st t i) p = Some s"
      by (auto simp: subtree_def)
    then show "s \<in> ?A"
    proof cases
      case 1
      then show ?thesis using subtree_self by simp
    next
      case 2
      then show ?thesis unfolding subtree_def by (intro CollectI exI [of _ "i # p"]) simp
    qed
  qed
qed

lemma sub_ok_child:
  assumes "sub_ok pb st (Suc d) t" "is_node st t i"
  shows "sub_ok pb st d (child_of pb st t i)"
proof -
  have d: "descend pb st t (i # p) = descend pb st (child_of pb st t i) p" for p using assms(2) by simp
  have "p = q" if "length p \<le> d" "length q \<le> d" "descend pb st (child_of pb st t i) p = Some s"
    "descend pb st (child_of pb st t i) q = Some s" for p q s
    using sub_okD(1) [OF assms(1), of "i # p" "i # q" s] that d by simp
  moreover have "PTE_IS_LEAF (pt st s k) \<longleftrightarrow> length p = d" if "length p \<le> d"
    "descend pb st (child_of pb st t i) p = Some s" "k < 512" "PTE_IS_VALID_NODE (pt st s k)" for p s k
    using sub_okD(2) [OF assms(1), of "i # p" s k] that d by simp
  ultimately show ?thesis unfolding sub_ok_def by blast
qed

lemma children_apart:
  assumes "sub_ok pb st (Suc d) t" "is_node st t i"
  shows "t \<notin> subtree pb st d (child_of pb st t i)"
    "is_node st t j \<Longrightarrow> i \<noteq> j \<Longrightarrow> subtree pb st d (child_of pb st t i) \<inter> subtree pb st d (child_of pb st t j) = {}"
proof -
  have d: "descend pb st t (i # p) = descend pb st (child_of pb st t i) p" if "is_node st t i" for p i using that by simp
  show "t \<notin> subtree pb st d (child_of pb st t i)"
    using sub_okD(1) [OF assms(1), of "[]" "i # _" t] d [OF assms(2)] by (auto simp: subtree_def)
  show "subtree pb st d (child_of pb st t i) \<inter> subtree pb st d (child_of pb st t j) = {}" if "is_node st t j" "i \<noteq> j"
    using sub_okD(1) [OF assms(1), of "i # _" "j # _"] d [OF assms(2)] d [OF that(1)] that(2)
    by (fastforce simp: subtree_def)
qed

lemma descend_same:
  assumes "\<forall>s\<in>subtree pb st d t. pt st' s = pt st s" "length p \<le> d"
  shows "descend pb st' t p = descend pb st t p"
  using assms
proof (induction p arbitrary: t d)
  case (Cons i p)
  then obtain e where e: "d = Suc e" by (cases d) auto
  have "pt st' t = pt st t" using Cons.prems(1) subtree_self by blast
  then have n: "is_node st' t i = is_node st t i" "child_of pb st' t i = child_of pb st t i"
    by (simp_all add: is_node_def child_of_def)
  show ?case
  proof (cases "is_node st t i")
    case True
    then have "\<forall>s\<in>subtree pb st e (child_of pb st t i). pt st' s = pt st s"
      using Cons.prems(1) unfolding e subtree_Suc by blast
    then show ?thesis using Cons.IH Cons.prems(2) n True e by simp
  next
    case False
    then show ?thesis using n by simp
  qed
qed simp

lemma subtree_same:
  assumes "\<forall>s\<in>subtree pb st d t. pt st' s = pt st s"
  shows "subtree pb st' d t = subtree pb st d t" "sub_ok pb st d t \<Longrightarrow> sub_ok pb st' d t"
proof -
  note D = descend_same [OF assms]
  show "subtree pb st' d t = subtree pb st d t" using D by (auto simp: subtree_def)
  assume ok: "sub_ok pb st d t"
  have "p = q" if "length p \<le> d" "length q \<le> d" "descend pb st' t p = Some s" "descend pb st' t q = Some s" for p q s
    using sub_okD(1) [OF ok, of p q s] that D by simp
  moreover have "PTE_IS_LEAF (pt st' s k) \<longleftrightarrow> length p = d" if "length p \<le> d"
    "descend pb st' t p = Some s" "k < 512" "PTE_IS_VALID_NODE (pt st' s k)" for p s k
  proof -
    have "descend pb st t p = Some s" using that D by simp
    then have "pt st' s = pt st s" using assms that(1) by (auto simp: subtree_def)
    then show ?thesis using sub_okD(2) [OF ok that(1) \<open>descend pb st t p = Some s\<close> that(3)] that(4) by simp
  qed
  ultimately show "sub_ok pb st' d t" unfolding sub_ok_def by blast
qed

text \<open>What freeing the tables \<open>S\<close> does.\<close>

definition freed_tables :: "nat set \<Rightarrow> (nat \<times> nat) set \<Rightarrow> u64 set \<Rightarrow> vm \<Rightarrow> vm \<Rightarrow> bool" where
  "freed_tables U M S st st' \<longleftrightarrow> balloc.consistent U (vpages st') (M - page_blocks S) \<and>
     (\<forall>s. s \<notin> S \<longrightarrow> pt st' s = pt st s)"

lemma page_blocks_simps:
  "page_blocks {} = {}" "page_blocks (insert s S) = insert (unat s, 0) (page_blocks S)"
  "page_blocks (S \<union> T) = page_blocks S \<union> page_blocks T"
  by (auto simp: page_blocks_def)

lemma page_blocks_mem: "(unat s, 0) \<in> page_blocks S \<longleftrightarrow> s \<in> S"
  by (auto simp: page_blocks_def unat_inj_u64)

lemma page_blocks_disjoint: "S \<inter> T = {} \<Longrightarrow> page_blocks S \<inter> page_blocks T = {}"
  by (auto simp: page_blocks_def unat_inj_u64)

lemma free_page_block:
  assumes "balloc.consistent U (vpages st) M" "(unat t, 0) \<in> M"
  shows "\<exists>g. free_page t st = Some (st\<lparr>vpages := g\<rparr>) \<and> balloc.consistent U g (M - {(unat t, 0)})"
proof -
  note c = balloc.consistentD [OF assms(1)]
  have "valid_block (unat t, 0)" "extent (unat t, 0) \<inter> free_set (vpages st) = {}" using c(3,4) assms(2) by blast+
  then obtain g where g: "free_pages (unat t) 0 (vpages st) = Some g"
    using free_pages_Some [OF c(1), of 0 "unat t"] by (auto simp: valid_block_def extent_def)
  then have "buddy_free (vpages st) (unat t, 0) g" by (simp add: buddy_free_def)
  from balloc.consistent_release [OF assms this] g show ?thesis by (intro exI [of _ g]) (simp add: free_page_def)
qed

text \<open>\<open>C i\<close> are the tables below entry \<open>i\<close>.\<close>

lemma free_entries_ok:
  assumes "\<And>i st1 M. i \<in> set is \<Longrightarrow> is_node st0 t i \<Longrightarrow> \<forall>s\<in>C i. pt st1 s = pt st0 s \<Longrightarrow>
      balloc.consistent U (vpages st1) M \<Longrightarrow> page_blocks (C i) \<subseteq> M \<Longrightarrow>
      \<exists>st2. rec (child_of pb st0 t i) st1 = Some st2 \<and> freed_tables U M (C i) st1 st2"
    "\<And>i. i \<in> set is \<Longrightarrow> is_node st0 t i \<Longrightarrow> vm_is_valid_page_pointer_pa in_ram_pa (PTE_GET_PA (pt st0 t i))"
    "\<And>i. \<not> is_node st0 t i \<Longrightarrow> C i = {}" "\<And>i. t \<notin> C i" "\<And>i j. i \<noteq> j \<Longrightarrow> C i \<inter> C j = {}"
    "distinct is" "set is \<subseteq> {..<512}" "balloc.consistent U (vpages st) M" "page_blocks (\<Union>i\<in>set is. C i) \<subseteq> M"
    "\<forall>i\<in>set is. pt st t i = pt st0 t i \<and> (\<forall>s\<in>C i. pt st s = pt st0 s)"
  shows "\<exists>st'. free_entries rec pb in_ram_pa t is st = Some st' \<and>
    balloc.consistent U (vpages st') (M - page_blocks (\<Union>i\<in>set is. C i)) \<and>
    (\<forall>s. s \<noteq> t \<longrightarrow> s \<notin> (\<Union>i\<in>set is. C i) \<longrightarrow> pt st' s = pt st s)"
  using assms(1,2,6-10)
proof (induction "is" arbitrary: st M)
  case Nil
  then show ?case by (simp add: page_blocks_simps)
next
  case (Cons i js)
  let ?e = "pt st t i"
  have e: "?e = pt st0 t i" using Cons.prems(7) by simp
  have i512: "i < 512" using Cons.prems(4) by simp
  have sub: "page_blocks (C i) \<subseteq> M" "page_blocks (\<Union>j\<in>set js. C j) \<subseteq> M"
    using Cons.prems(6) unfolding page_blocks_def by auto
  have dj: "distinct js" "set js \<subseteq> {..<512}" using Cons.prems(3,4) by simp_all
  have dis: "C i \<inter> (\<Union>j\<in>set js. C j) = {}"
  proof -
    have "C i \<inter> C j = {}" if "j \<in> set js" for j using assms(5) [of i j] that Cons.prems(3) by auto
    then show ?thesis by blast
  qed
  obtain st1 where st1: "free_entries rec pb in_ram_pa t (i # js) st = free_entries rec pb in_ram_pa t js (set_pte (t, i) 0 st1)"
      "freed_tables U M (C i) st st1"
  proof (cases "is_node st0 t i")
    case True
    have "\<forall>s\<in>C i. pt st s = pt st0 s" using Cons.prems(7) by simp
    then obtain st2 where st2: "rec (child_of pb st0 t i) st = Some st2" "freed_tables U M (C i) st st2"
      using Cons.prems(1) [OF list.set_intros(1) True _ Cons.prems(5) sub(1)] by blast
    have "vm_is_valid_page_pointer_pa in_ram_pa (PTE_GET_PA ?e)" using Cons.prems(2) [of i] True e by simp
    then have "free_entries rec pb in_ram_pa t (i # js) st = free_entries rec pb in_ram_pa t js (set_pte (t, i) 0 st2)"
      using st2(1) True by (simp add: Let_def e is_node_def child_of_def)
    then show ?thesis using that st2(2) by blast
  next
    case False
    then have "\<not> (PTE_IS_VALID_NODE ?e \<and> \<not> PTE_IS_LEAF ?e)" using i512 e by (simp add: is_node_def)
    then have "free_entries rec pb in_ram_pa t (i # js) st = free_entries rec pb in_ram_pa t js (set_pte (t, i) 0 st)"
      by (auto simp: Let_def)
    moreover have "freed_tables U M (C i) st st"
      using Cons.prems(5) assms(3) [OF False] by (simp add: freed_tables_def page_blocks_simps)
    ultimately show ?thesis using that by blast
  qed
  let ?st = "set_pte (t, i) 0 st1"
  have c1: "balloc.consistent U (vpages ?st) (M - page_blocks (C i))" and p1: "\<And>s. s \<notin> C i \<Longrightarrow> pt st1 s = pt st s"
    using st1(2) by (auto simp: freed_tables_def)
  have keep: "\<forall>j\<in>set js. pt ?st t j = pt st0 t j \<and> (\<forall>s\<in>C j. pt ?st s = pt st0 s)"
  proof
    fix j assume j: "j \<in> set js"
    have "pt ?st s = pt st0 s" if s: "s \<in> C j" for s
    proof -
      have "s \<noteq> t" "s \<notin> C i" using s assms(4) dis j by blast+
      then show ?thesis using p1 Cons.prems(7) j s by simp
    qed
    moreover have "pt ?st t j = pt st0 t j"
      using p1 [OF assms(4) [of i]] Cons.prems(3,7) j by auto
    ultimately show "pt ?st t j = pt st0 t j \<and> (\<forall>s\<in>C j. pt ?st s = pt st0 s)" by blast
  qed
  have "page_blocks (\<Union>j\<in>set js. C j) \<subseteq> M - page_blocks (C i)"
    using sub(2) page_blocks_disjoint [OF dis] by blast
  note blk = this
  have "\<exists>st'. free_entries rec pb in_ram_pa t js ?st = Some st' \<and>
      balloc.consistent U (vpages st') (M - page_blocks (C i) - page_blocks (\<Union>j\<in>set js. C j)) \<and>
      (\<forall>s. s \<noteq> t \<longrightarrow> s \<notin> (\<Union>j\<in>set js. C j) \<longrightarrow> pt st' s = pt ?st s)"
    by (rule Cons.IH [OF _ _ dj c1 blk keep])
      (rule Cons.prems(1), rule list.set_intros(2), assumption+, rule Cons.prems(2), rule list.set_intros(2), assumption+)
  then obtain st' where st': "free_entries rec pb in_ram_pa t js ?st = Some st'"
      "balloc.consistent U (vpages st') (M - page_blocks (C i) - page_blocks (\<Union>j\<in>set js. C j))"
      "\<forall>s. s \<noteq> t \<longrightarrow> s \<notin> (\<Union>j\<in>set js. C j) \<longrightarrow> pt st' s = pt ?st s" by blast
  have "M - page_blocks (C i) - page_blocks (\<Union>j\<in>set js. C j) = M - page_blocks (\<Union>j\<in>set (i # js). C j)"
    unfolding page_blocks_def by auto
  moreover have "pt st' s = pt st s" if "s \<noteq> t" "s \<notin> (\<Union>j\<in>set (i # js). C j)" for s
    using st'(3) p1 [of s] that by simp
  ultimately show ?case using st1(1) st'(1,2) by (intro exI [of _ st']) simp
qed

lemma lessThan_MAX_PTES: "{..<MAX_PTES_PER_PAGE_TABLE} = {..<512}"
  by (simp add: MAX_PTES_PER_PAGE_TABLE_def)

lemma vm_free_pgtable_ok:
  assumes "sub_ok pb st d t" "balloc.consistent U (vpages st) M" "page_blocks (subtree pb st d t) \<subseteq> M" "d < fuel"
    "\<And>s. s \<in> subtree pb st d t \<Longrightarrow> vm_is_valid_page_pointer_kva in_ram_kva s \<and>
       vm_is_valid_page_pointer_pa in_ram_pa (virt_to_phys pb s)"
  shows "\<exists>st'. vm_free_pgtable fuel pb in_ram_pa in_ram_kva t st = Some st' \<and>
    freed_tables U M (subtree pb st d t) st st'"
  using assms
proof (induction d arbitrary: fuel t st M rule: less_induct)
  case (less d)
  obtain f where f: "fuel = Suc f" using less.prems(4) by (cases fuel) auto
  define C where "C i = (if is_node st t i then subtree pb st (d - 1) (child_of pb st t i) else {})" for i
  have v: "vm_is_valid_page_pointer_kva in_ram_kva t" using less.prems(5) subtree_self by blast
  have leaf: "\<not> is_node st t i" if "d = 0" for i
    using sub_okD(2) [OF less.prems(1), of "[]" t i] that by (auto simp: is_node_def)
  have sub: "subtree pb st d t = insert t (\<Union>i\<in>set [0..<MAX_PTES_PER_PAGE_TABLE]. C i)"
  proof (cases d)
    case 0
    then show ?thesis using leaf by (simp add: subtree_0 C_def)
  next
    case (Suc e)
    have "i < MAX_PTES_PER_PAGE_TABLE" if "is_node st t i" for i
      using that by (simp add: is_node_def MAX_PTES_PER_PAGE_TABLE_def)
    then show ?thesis unfolding Suc subtree_Suc by (auto simp: C_def Suc split: if_splits)
  qed
  have apart: "t \<notin> C i" "i \<noteq> j \<Longrightarrow> C i \<inter> C j = {}" for i j
    using leaf children_apart [of pb st "d - 1" t] less.prems(1) by (cases d; auto simp: C_def)+
  have "\<exists>st1. free_entries (vm_free_pgtable f pb in_ram_pa in_ram_kva) pb in_ram_pa t [0..<MAX_PTES_PER_PAGE_TABLE] st = Some st1 \<and>
    balloc.consistent U (vpages st1) (M - page_blocks (\<Union>i\<in>set [0..<MAX_PTES_PER_PAGE_TABLE]. C i)) \<and>
    (\<forall>s. s \<noteq> t \<longrightarrow> s \<notin> (\<Union>i\<in>set [0..<MAX_PTES_PER_PAGE_TABLE]. C i) \<longrightarrow> pt st1 s = pt st s)"
  proof (rule free_entries_ok [where ?st0.0 = st and C = C])
    fix i and st1 :: vm and N assume i: "is_node st t i" "\<forall>s\<in>C i. pt st1 s = pt st s"
      "balloc.consistent U (vpages st1) N" "page_blocks (C i) \<subseteq> N"
    then obtain e where e: "d = Suc e" using leaf by (cases d) auto
    have Ci: "C i = subtree pb st e (child_of pb st t i)" using i(1) e by (simp add: C_def)
    note S = subtree_same [OF i(2) [unfolded Ci]]
    have "\<exists>st2. vm_free_pgtable f pb in_ram_pa in_ram_kva (child_of pb st t i) st1 = Some st2 \<and>
        freed_tables U N (subtree pb st1 e (child_of pb st t i)) st1 st2"
    proof (rule less.IH)
      show "sub_ok pb st1 e (child_of pb st t i)" using S(2) sub_ok_child less.prems(1) i(1) e by simp
      show "page_blocks (subtree pb st1 e (child_of pb st t i)) \<subseteq> N" using S(1) Ci i(4) by simp
      show "vm_is_valid_page_pointer_kva in_ram_kva s \<and> vm_is_valid_page_pointer_pa in_ram_pa (virt_to_phys pb s)"
        if "s \<in> subtree pb st1 e (child_of pb st t i)" for s
        using less.prems(5) [of s] that S(1) i(1) unfolding e subtree_Suc by auto
    qed (use e f less.prems(4) i(3) in simp_all)
    then show "\<exists>st2. vm_free_pgtable f pb in_ram_pa in_ram_kva (child_of pb st t i) st1 = Some st2 \<and>
        freed_tables U N (C i) st1 st2" using S(1) Ci by simp
  next
    fix i assume i: "is_node st t i"
    then obtain e where e: "d = Suc e" using leaf by (cases d) auto
    have "child_of pb st t i \<in> subtree pb st d t" using i subtree_self unfolding e subtree_Suc by blast
    then have "vm_is_valid_page_pointer_pa in_ram_pa (virt_to_phys pb (child_of pb st t i))" using less.prems(5) by blast
    then show "vm_is_valid_page_pointer_pa in_ram_pa (PTE_GET_PA (pt st t i))"
      by (simp add: child_of_def virt_to_phys_def phys_to_virt_def)
  next
    show "page_blocks (\<Union>i\<in>set [0..<MAX_PTES_PER_PAGE_TABLE]. C i) \<subseteq> M"
      using less.prems(3) unfolding sub page_blocks_simps by blast
  qed (use apart less.prems(2) in \<open>simp_all add: C_def atLeast0LessThan lessThan_MAX_PTES\<close>)
  then obtain st1 where st1: "free_entries (vm_free_pgtable f pb in_ram_pa in_ram_kva) pb in_ram_pa t [0..<MAX_PTES_PER_PAGE_TABLE] st = Some st1"
      "balloc.consistent U (vpages st1) (M - page_blocks (\<Union>i\<in>set [0..<MAX_PTES_PER_PAGE_TABLE]. C i))"
      "\<forall>s. s \<noteq> t \<longrightarrow> s \<notin> (\<Union>i\<in>set [0..<MAX_PTES_PER_PAGE_TABLE]. C i) \<longrightarrow> pt st1 s = pt st s" by blast
  have "t \<notin> (\<Union>i\<in>set [0..<MAX_PTES_PER_PAGE_TABLE]. C i)" using apart(1) by blast
  then have "(unat t, 0) \<in> M - page_blocks (\<Union>i\<in>set [0..<MAX_PTES_PER_PAGE_TABLE]. C i)"
    using less.prems(3) unfolding sub page_blocks_simps by (simp add: page_blocks_mem)
  then obtain g where g: "free_page t st1 = Some (st1\<lparr>vpages := g\<rparr>)"
      "balloc.consistent U g (M - page_blocks (\<Union>i\<in>set [0..<MAX_PTES_PER_PAGE_TABLE]. C i) - {(unat t, 0)})"
    using free_page_block [OF st1(2)] by blast
  have "vm_free_pgtable fuel pb in_ram_pa in_ram_kva t st = Some (st1\<lparr>vpages := g\<rparr>)"
    using v st1(1) g(1) unfolding f by (simp add: vm_is_valid_page_pointer_kva_def)
  moreover have "M - page_blocks (\<Union>i\<in>set [0..<MAX_PTES_PER_PAGE_TABLE]. C i) - {(unat t, 0)} = M - page_blocks (subtree pb st d t)"
    unfolding sub page_blocks_simps by blast
  ultimately show ?case using g(2) st1(3) unfolding freed_tables_def sub by auto
qed

section \<open>Trimming\<close>

lemma trim_levels_eq:
  assumes "tree_ok pb st root" "descend pb st root (vpath l va) = Some t" "l \<le> 2"
  shows "case trim_levels pb l t par va st of
      None \<Rightarrow> descend pb st root (vpath 0 va) = None
    | Some (t0, q) \<Rightarrow> descend pb st root (vpath 0 va) = Some t0 \<and>
        (l = 0 \<and> q = par \<or> (\<exists>t1. descend pb st root (vpath 1 va) = Some t1 \<and> q = Some (t1, index_at 1 va) \<and>
           is_node st t1 (index_at 1 va) \<and> child_of pb st t1 (index_at 1 va) = t0))"
  using assms(2,3)
proof (induction l arbitrary: t par)
  case (Suc l)
  let ?i = "index_at (Suc l) va"
  have p: "vpath l va = vpath (Suc l) va @ [?i]" "length (vpath (Suc l) va) < 2" using Suc.prems(2) vpath_facts(2,3) by auto
  show ?case
  proof (cases "PTE_IS_VALID_NODE (pt st t ?i)")
    case True
    then have nd: "is_node st t ?i" using tree_okD(3) [OF assms(1) p(2) Suc.prems(1)] index_at_less by simp
    then have d: "descend pb st root (vpath l va) = Some (child_of pb st t ?i)"
      using Suc.prems(1) unfolding p(1) descend_append by simp
    have e: "trim_levels pb (Suc l) t par va st = trim_levels pb l (child_of pb st t ?i) (Some (t, ?i)) va st"
      using nd by (simp add: Let_def is_node_def child_of_def)
    show ?thesis
    proof (cases l)
      case 0
      then show ?thesis using e d nd Suc.prems(1) by simp
    next
      case (Suc k)
      then show ?thesis using Suc.IH [OF d] Suc.prems(2) e by (auto split: option.splits prod.splits)
    qed
  next
    case False
    then have "descend pb st root (vpath l va) = None" using Suc.prems(1) unfolding p(1) descend_append is_node_def by simp
    then have "descend pb st root (vpath 0 va) = None"
      using Suc.prems(2) vpath_facts(3) [of 0 va] by (cases l) (auto simp: descend_append numeral_2_eq_2)
    then show ?thesis using False by (simp add: Let_def)
  qed
qed simp

text \<open>Taking an entry of the upper levels out of the tree.\<close>

lemma unlink_table:
  assumes ok: "tree_ok pb st root" and p: "descend pb st root [a] = Some t" and i: "is_node st t i"
  defines "st' \<equiv> set_pte (t, i) 0 st"
  shows "length q \<le> 2 \<Longrightarrow> descend pb st' root q = (if q = [a, i] then None else descend pb st root q)"
proof -
  assume q: "length q \<le> 2"
  have a: "is_node st root a" "child_of pb st root a = t" using p by (auto split: if_splits)
  have rt: "root \<noteq> t" using tree_okD(1) [OF ok, of "[]" "[a]" t] p by auto
  have gone: "\<not> is_node st' t i" by (simp add: st'_def is_node_def PTE_IS_VALID_NODE_def)
  have same: "is_node st' s k = is_node st s k \<and> child_of pb st' s k = child_of pb st s k" if "(s, k) \<noteq> (t, i)" for s k
    using that by (auto simp: st'_def is_node_def child_of_def)
  have ca: "child_of pb st root x = t \<longleftrightarrow> x = a" if "is_node st root x" for x
    using tree_okD(1) [OF ok, of "[x]" "[a]" t] that a by auto
  have 1: "descend pb st' root [x] = descend pb st root [x]" for x using same [of root x] rt by auto
  have "descend pb st' root [x, y] = (if x = a \<and> y = i then None else descend pb st root [x, y])" for x y
  proof (cases "x = a \<and> y = i")
    case True
    then show ?thesis using same [of root a] rt a gone by auto
  next
    case False
    then show ?thesis using same [of root x] same [of "child_of pb st root x" y] rt ca [of x] by auto
  qed
  then show ?thesis using short_path [OF q] 1 by (auto simp del: descend.simps(2) split: if_splits)
qed

lemma vm_trim_none:
  assumes "vm_inv pb U root st L" "descend pb st root (vpath 0 va) = None"
  shows "vm_trim_pagetable pb root va st = Some (False, st)"
proof -
  have d2: "descend pb st root (vpath 2 va) = Some root" by (simp add: vpath_def)
  show ?thesis
    using trim_levels_eq [OF vm_invD(1) [OF assms(1)] d2, of None] assms(2)
    by (auto simp: vm_trim_pagetable_def PAGE_TABLE_MAX_LEVELS_def split: option.splits)
qed

lemma vm_trim_levels:
  assumes "vm_inv pb U root st L" "descend pb st root (vpath 0 va) = Some t0"
  shows "\<exists>t1. descend pb st root [index_at 2 va] = Some t1 \<and> is_node st t1 (index_at 1 va) \<and>
    child_of pb st t1 (index_at 1 va) = t0 \<and> trim_levels pb 2 root None va st = Some (t0, Some (t1, index_at 1 va))"
proof -
  have d2: "descend pb st root (vpath 2 va) = Some root" by (simp add: vpath_def)
  have d1: "vpath 1 va = [index_at 2 va]" by (simp add: vpath_def)
  show ?thesis
    using trim_levels_eq [OF vm_invD(1) [OF assms(1)] d2, of None] assms(2) unfolding d1
    by (auto simp del: descend.simps split: option.splits)
qed

lemma vm_trim_used:
  assumes "vm_inv pb U root st L" "descend pb st root (vpath 0 va) = Some t0" "c < 512" "PTE_IS_VALID_NODE (pt st t0 c)"
  shows "vm_trim_pagetable pb root va st = Some (False, st)"
proof -
  have "c \<in> set [0..<MAX_PTES_PER_PAGE_TABLE]" using assms(3) by (simp add: MAX_PTES_PER_PAGE_TABLE_def)
  then have "\<exists>i\<in>set [0..<MAX_PTES_PER_PAGE_TABLE]. PTE_IS_VALID_NODE (pt st t0 i)" using assms(4) by blast
  then show ?thesis
    using vm_trim_levels [OF assms(1,2)] by (auto simp: vm_trim_pagetable_def PAGE_TABLE_MAX_LEVELS_def)
qed

lemma vm_trim_unused:
  assumes inv: "vm_inv pb U root st L" and d0: "descend pb st root (vpath 0 va) = Some t0"
    and un: "\<forall>c<512. \<not> PTE_IS_VALID_NODE (pt st t0 c)"
  shows "\<exists>st'. vm_trim_pagetable pb root va st = Some (True, st') \<and>
    tables pb st' root = tables pb st root - {(unat t0, 0)} \<and> vm_inv pb U root st' (L - {(unat t0, 0)}) \<and>
    (\<forall>a b c. c < 512 \<longrightarrow> PTE_IS_VALID_NODE (flat pb st root a b c) \<or> PTE_IS_VALID_NODE (flat pb st' root a b c) \<longrightarrow>
       flat pb st' root a b c = flat pb st root a b c)"
proof -
  note I = vm_invD [OF inv]
  let ?a = "index_at 2 va" and ?i = "index_at 1 va"
  obtain t1 where t1: "descend pb st root [?a, ?i] = Some t0" "descend pb st root [?a] = Some t1"
      "trim_levels pb 2 root None va st = Some (t0, Some (t1, ?i))"
      "is_node st t1 ?i" "child_of pb st t1 ?i = t0"
    using vm_trim_levels [OF inv d0] d0 by (auto simp: vpath_def simp del: descend.simps)
  have unused: "\<not> (\<exists>i\<in>set [0..<MAX_PTES_PER_PAGE_TABLE]. PTE_IS_VALID_NODE (pt st t0 i))"
    using un by (simp add: MAX_PTES_PER_PAGE_TABLE_def)
  have L0: "(unat t0, 0) \<in> L" using I(5) [OF _ t1(1)] by simp
  obtain g where g: "free_page t0 st = Some (st\<lparr>vpages := g\<rparr>)" "balloc.consistent U g (L - {(unat t0, 0)})"
    using free_page_block [OF I(2) L0] by blast
  define st' where "st' = set_pte (t1, ?i) 0 (st\<lparr>vpages := g\<rparr>)"
  have res: "vm_trim_pagetable pb root va st = Some (True, st')"
    using unused t1(3) g(1) by (simp add: vm_trim_pagetable_def PAGE_TABLE_MAX_LEVELS_def st'_def)
  have eq: "descend pb st' root q = descend pb (set_pte (t1, ?i) 0 st) root q" if "length q \<le> 2" for q
    by (rule descend_cong [OF _ that]) (simp add: st'_def)
  have D: "descend pb st' root q = (if q = [?a, ?i] then None else descend pb st root q)" if "length q \<le> 2" for q
    using eq [OF that] unlink_table [OF I(1) t1(2,4) that] by (simp del: descend.simps)
  have uniq: "q = [?a, ?i]" if "length q \<le> 2" "descend pb st root q = Some t0" for q
    using tree_okD(1) [OF I(1) that(1) _ that(2) t1(1)] by simp
  have T: "tables pb st' root = tables pb st root - {(unat t0, 0)}"
  proof -
    have "descend pb st' root q = Some t \<longleftrightarrow> descend pb st root q = Some t \<and> t \<noteq> t0" if "length q \<le> 2" for q t
    proof (cases "q = [?a, ?i]")
      case True
      then show ?thesis using D [OF that] t1(1) by (simp del: descend.simps)
    next
      case ne: False
      then have "t \<noteq> t0" if "descend pb st root q = Some t" using uniq [OF \<open>length q \<le> 2\<close>] that by blast
      then show ?thesis using D [OF that] ne by (simp del: descend.simps) blast
    qed
    then have "(\<exists>q. length q \<le> 2 \<and> descend pb st' root q = Some t) \<longleftrightarrow>
        (\<exists>q. length q \<le> 2 \<and> descend pb st root q = Some t) \<and> t \<noteq> t0" for t by blast
    then show ?thesis unfolding tables_def by (auto simp: unat_inj_u64)
  qed
  have "tree_ok pb st' root"
  proof (rule tree_okI)
    fix p q s assume "length p \<le> 2" "length q \<le> 2" "descend pb st' root p = Some s" "descend pb st' root q = Some s"
    then show "p = q" using D [of p] D [of q] tree_okD(1) [OF I(1), of p q s] by (simp del: descend.simps split: if_splits)
  next
    fix p s k assume p: "length p < 2" "descend pb st' root p = Some s" "PTE_IS_VALID_NODE (pt st' s k)"
    then have "descend pb st root p = Some s" using D [of p] by (simp del: descend.simps split: if_splits)
    then show "\<not> PTE_IS_LEAF (pt st' s k)"
      using tree_okD(2) [OF I(1) p(1), of s k] p(3) by (auto simp: st'_def PTE_IS_LEAF_def split: if_splits)
  qed
  then have "vm_inv pb U root st' (L - {(unat t0, 0)})"
    by (intro vm_invI) (use g(2) I T vm_inv_tables [OF inv] in \<open>auto simp: st'_def\<close>)
  moreover have "flat pb st' root a b c = flat pb st root a b c"
    if c: "c < 512" "PTE_IS_VALID_NODE (flat pb st root a b c) \<or> PTE_IS_VALID_NODE (flat pb st' root a b c)" for a b c
  proof (cases "[a, b] = [?a, ?i]")
    case True
    then have "flat pb st' root a b c = 0" "flat pb st root a b c = pt st t0 c"
      using D [of "[a, b]"] t1(1) by (simp_all add: flat_def del: descend.simps)
    moreover have "c \<in> set [0..<MAX_PTES_PER_PAGE_TABLE]" using c(1) by (simp add: MAX_PTES_PER_PAGE_TABLE_def)
    ultimately show ?thesis using c(2) unused by (auto simp: PTE_IS_VALID_NODE_def)
  next
    case ne: False
    have "pt st' s = pt st s" if "descend pb st root [a, b] = Some s" for s
      using tree_okD(1) [OF I(1), of "[a, b]" "[?a]" t1] that t1(2) by (auto simp: st'_def simp del: descend.simps)
    then show ?thesis using D [of "[a, b]"] ne by (auto simp: flat_def simp del: descend.simps split: option.splits)
  qed
  ultimately show ?thesis using res T by blast
qed

section \<open>New trees\<close>

lemma vm_map_range:
  assumes "vm_inv pb U root st L" "range_ok va n" "unat sz = 4096 * n" "0 < n"
    "\<forall>va'. page_aligned va' \<and> in_pages va n va' \<longrightarrow> \<not> PTE_IS_VALID_NODE (entry pb st root va')"
  shows "\<exists>r st' m. vm_map pb root va pa sz perm False st = Some (r, st') \<and>
    vm_inv pb U root st' (L \<union> tables pb st' root) \<and> m \<le> n \<and>
    (r = 0 \<and> m = n \<or> r = -1 \<and> m < n \<and> free_set (vpages st') = {}) \<and>
    (\<forall>va'. VA_IS_IN_RANGE va' \<and> page_aligned va' \<longrightarrow>
       entry pb st' root va' =
         (if in_pages va m va' then PTE_MAKE_VALID_LEAF (PTE_BUILD (pa + (va' - va)) (perm OR PTE_MAP_DEFAULT_FLAGS))
          else entry pb st root va'))"
proof -
  have al: "page_aligned va" using assms(2) by (simp add: range_ok_def)
  have sz: "page_aligned sz" "sz \<noteq> 0" using assms(3,4) by (auto simp: page_aligned_unat unat_eq_0 [symmetric])
  have m: "vm_map pb root va pa sz perm False st =
      vm_map_loop pb root False (perm OR PTE_MAP_DEFAULT_FLAGS) va pa sz st"
    using al sz by (simp add: vm_map_def page_aligned_def)
  have "\<exists>r st'. vm_map_loop pb root False (perm OR PTE_MAP_DEFAULT_FLAGS) va pa sz st = Some (r, st') \<and>
      map_result pb U root st L va n (\<lambda>va'. leaf_value (pa + (va' - va)) (perm OR PTE_MAP_DEFAULT_FLAGS)) r st'"
    by (rule vm_map_loop_ok [OF assms(1-3)]) (use assms(5) in blast)
  then obtain r st' k where r: "vm_map_loop pb root False (perm OR PTE_MAP_DEFAULT_FLAGS) va pa sz st = Some (r, st')"
      "vm_inv pb U root st' (L \<union> tables pb st' root)" "k \<le> n"
      "entries_set pb root st va k (\<lambda>va'. leaf_value (pa + (va' - va)) (perm OR PTE_MAP_DEFAULT_FLAGS)) st'"
      "r = 0 \<and> k = n \<or> r = -1 \<and> k < n \<and> free_set (vpages st') = {}"
    unfolding map_result_def by blast
  then show ?thesis
    unfolding m entries_set_def leaf_value_def by (intro exI [of _ r] exI [of _ st'] exI [of _ k]) simp
qed

lemma vm_unmap_range:
  assumes "vm_inv pb U root st L" "range_ok va n"
    "\<forall>va'. page_aligned va' \<and> in_pages va n va' \<longrightarrow>
       PTE_IS_VALID_NODE (entry pb st root va') \<and> PTE_IS_LEAF (entry pb st root va')"
  shows "\<exists>st'. vm_unmap pb root va n False st = Some st' \<and> vm_inv pb U root st' L \<and> vpages st' = vpages st \<and>
    (\<forall>va'. VA_IS_IN_RANGE va' \<and> page_aligned va' \<longrightarrow>
       entry pb st' root va' = (if in_pages va n va' then 0 else entry pb st root va'))"
proof -
  have al: "va mod PAGE_BYTES = 0" using assms(2) by (simp add: range_ok_def page_aligned_def)
  have "\<exists>st'. vm_unmap_loop pb root va 0 n False st = Some st' \<and> vm_inv pb U root st' L \<and>
      tables pb st' root = tables pb st root \<and> entries_set pb root st va n (\<lambda>_. 0) st' \<and> vpages st' = vpages st"
    by (rule vm_unmap_loop_ok [OF assms(1,2)]) (use assms(3) in \<open>simp_all add: PAGE_BYTES_def\<close>)
  then show ?thesis using al unfolding vm_unmap_def entries_set_def by auto
qed

lemma new_root:
  assumes "balloc.consistent U (vpages st) L" "U \<subseteq> {..<2 ^ 64}" "page_aligned pb" "alloc_page st = (Some root, st')"
  shows "vm_inv pb U root st' (insert (unat root, 0) L)" "tables pb st' root = {(unat root, 0)}"
    "flat pb st' root a b c = 0" "page_aligned root" "(unat root, 0) \<notin> L"
proof -
  note c = balloc.consistentD [OF assms(1)]
  obtain p g where p: "alloc_pages 0 (vpages st) = (Some p, g)" "root = of_nat p"
      "st' = st\<lparr>vpages := g, pt := (pt st)(root := (\<lambda>_. 0))\<rparr>"
    using assms(4) by (auto simp: alloc_page_def split: prod.splits option.splits)
  have al: "buddy_alloc (vpages st) (p, 0) g" using p by (simp add: buddy_alloc_def)
  note ca = balloc.consistent_alloc [OF assms(1) al]
  have P: "SZ 0 dvd p" "block p 0 \<subseteq> free_set (vpages st)" using alloc_pages_Some [OF c(1) p(1)] by auto
  have "p \<in> U" using P c(6) by (auto simp: block_def SZ_def)
  then have u: "unat root = p" using assms(2) p(2) by (auto simp: unat_of_nat)
  show "page_aligned root" using P(1) u by (simp add: page_aligned_unat SZ_def)
  show "(unat root, 0) \<notin> L" using ca(2) u by simp
  have pz: "pt st' root = (\<lambda>_. 0)" by (simp add: p(3))
  have no: "\<not> is_node st' root i" for i by (simp add: pz is_node_def PTE_IS_VALID_NODE_def)
  have D: "descend pb st' root q = (if q = [] then Some root else None)" for q using no by (cases q) auto
  show T: "tables pb st' root = {(unat root, 0)}" by (auto simp: tables_def D)
  show "flat pb st' root a b c = 0" by (simp add: flat_def D del: descend.simps)
  have "tree_ok pb st' root"
    by (rule tree_okI) (auto simp: D pz PTE_IS_VALID_NODE_def split: if_splits)
  then show "vm_inv pb U root st' (insert (unat root, 0) L)"
    by (rule vm_invI) (use ca(1) u assms(2,3) T p(3) in auto)
qed

text \<open>Addresses of user space.\<close>

lemma user_range_ok:
  assumes "page_aligned va" "unat va + 4096 * n \<le> 2 ^ 38"
  shows "range_ok va n"
proof -
  have "VA_IS_IN_RANGE va'" if "in_pages va n va'" for va'
  proof -
    have d: "unat (va' - va) < 4096 * n" using that by (simp add: in_pages_def)
    then have "unat va + unat (va' - va) < 2 ^ 38" using assms(2) by linarith
    then have "unat (va + (va' - va)) < 2 ^ 38" by (subst unat_add_u64) simp_all
    then show ?thesis
      by (simp add: VA_IS_IN_RANGE_def VA_IS_IN_RANGE_FOR_USER_def USER_VA_END_def word_less_nat_alt)
  qed
  then show ?thesis using assms by (auto simp: range_ok_def)
qed

lemma example_tree:
  "\<exists>st root. vm_inv 0x80000000 {0x1000..<0x5000} root st {(unat root, 0)} \<and> tables 0x80000000 st root = {(unat root, 0)} \<and>
     (\<forall>a b c. flat 0x80000000 st root a b c = 0) \<and> page_aligned root \<and> root \<noteq> 0 \<and> unat root < 0x5000"
proof -
  define st0 where "st0 = \<lparr>vpages = boot_memory, pt = (\<lambda>_ _. 0)\<rparr>"
  have cons: "balloc.consistent {0x1000..<0x5000} (vpages st0) {}"
    using buddy_run_inv [OF boot_memory_run] by (simp add: st0_def)
  have fs: "free_set (vpages st0) = {0x1000..<0x5000}" using balloc.consistentD(6) [OF cons] by simp
  obtain r st1 where r: "alloc_page st0 = (r, st1)" by fastforce
  have "r \<noteq> None"
  proof
    assume "r = None"
    then have "fst (alloc_pages 0 (vpages st0)) = None" using r by (auto simp: alloc_page_def split: prod.splits option.splits)
    then have "free_set (vpages st0) = {}"
      using alloc_pages_None [OF balloc.consistent_inv [OF cons], of 0] by (cases "alloc_pages 0 (vpages st0)") (auto simp: free_set_def)
    then show False using fs by simp
  qed
  then obtain root where root: "alloc_page st0 = (Some root, st1)" using r by auto
  have al: "page_aligned 0x80000000" by (simp add: page_aligned_def PAGE_BYTES_def)
  have U: "{0x1000..<0x5000} \<subseteq> {..<2 ^ 64 :: nat}" by auto
  note N = new_root [OF cons U al root, simplified]
  have "(unat root, 0) \<in> insert (unat root, 0) {}" by simp
  from balloc.consistentD(3,6) [OF vm_invD(2) [OF N(1)]] this
  have "extent (unat root, 0) \<subseteq> {0x1000..<0x5000}" by blast
  then have "unat root \<in> {0x1000..<0x5000}" by (auto simp: extent_def block_def SZ_def)
  then have "root \<noteq> 0" "unat root < 0x5000" by auto
  then show ?thesis using N by blast
qed

text \<open>The same tree with the two tables and the entry that map one user page at \<open>0x400000\<close>.\<close>

lemma two_pages_left:
  assumes "balloc.consistent {0x1000..<0x5000} g L" "L \<subseteq> {(p, 0), (q, 0)}"
  shows "free_set g \<noteq> {}"
proof
  assume "free_set g = {}"
  moreover have "(\<Union>x\<in>L. extent x) \<subseteq> block p 0 \<union> block q 0" using assms(2) by (force simp: extent_def)
  ultimately have "{0x1000..<0x5000} \<subseteq> block p 0 \<union> block q 0"
    using balloc.consistentD(6) [OF assms(1)] by simp
  then have "card {0x1000..<0x5000 :: nat} \<le> card (block p 0 \<union> block q 0)"
    by (intro card_mono) (simp_all add: block_def SZ_def)
  also have "\<dots> \<le> card (block p 0) + card (block q 0)" by (rule card_Un_le)
  finally show False by (simp add: block_def SZ_def)
qed

definition example_leaf :: u64 where
  "example_leaf = PTE_MAKE_VALID_LEAF (PTE_BUILD 0x90000000 (PTE_USER_RAM OR PTE_MAP_DEFAULT_FLAGS))"

text \<open>A tree with the tables for the address \<^verbatim>\<open>0x400000\<close> that maps nothing, and one that maps it.\<close>

lemma example_tables:
  "\<exists>st root L t. vm_inv 0x80000000 {0x1000..<0x5000} root st L \<and> (\<forall>a b c. flat 0x80000000 st root a b c = 0) \<and>
     descend 0x80000000 st root (vpath 0 0x400000) = Some t"
proof -
  let ?U = "{0x1000..<0x5000 :: nat}" and ?pb = "0x80000000 :: u64" and ?va = "0x400000 :: u64"
  obtain st root where t: "vm_inv ?pb ?U root st {(unat root, 0)}" "\<forall>a b c. flat ?pb st root a b c = 0"
      "tables ?pb st root = {(unat root, 0)}"
    using example_tree by (elim exE conjE)
  have no: "\<not> is_node st root i" if "i < 512" for i
  proof
    assume "is_node st root i"
    then obtain s where s: "descend ?pb st root [i] = Some s" by simp
    then have "(unat s, 0) \<in> tables ?pb st root" by (intro tablesI [of "[i]"]) simp_all
    then have "s = root" using t(3) by (simp add: unat_inj_u64)
    then show False using tree_okD(1) [OF vm_invD(1) [OF t(1)], of "[i]" "[]" root] s by simp
  qed
  have "free_set (vpages st) \<noteq> {}" by (rule two_pages_left [OF vm_invD(2) [OF t(1)]]) auto
  then obtain f g where f: "alloc_page st = (Some f, st\<lparr>vpages := g, pt := (pt st)(f := (\<lambda>_. 0))\<rparr>)"
      "balloc.consistent ?U g {(unat f, 0), (unat root, 0)}"
    by (cases rule: alloc_page_cases [OF t(1)]) simp_all
  define s1 where "s1 = set_pte (root, index_at 2 ?va) (PTE_MAKE_VALID_TABLE (PTE_BUILD (virt_to_phys ?pb f) 0))
      (st\<lparr>vpages := g, pt := (pt st)(f := (\<lambda>_. 0))\<rparr>)"
  have nv: "\<not> PTE_IS_VALID_NODE (pt st root (index_at 2 ?va))"
    using no [OF index_at_less, of 2 ?va] index_at_less [of 2 ?va]
      tree_okD(2) [OF vm_invD(1) [OF t(1)], of "[]" root "index_at 2 ?va"] unfolding is_node_def by auto
  have "descend ?pb st root [] = Some root" "length ([] :: nat list) < 2" by simp_all
  note l1 = link_new_table [OF t(1) this nv index_at_less f(1), folded s1_def]
  obtain L1 where i1: "vm_inv ?pb ?U root s1 L1" using l1(1) unfolding walked_def by blast
  have d1: "descend ?pb s1 root [index_at 2 ?va] = Some f" using l1(2) by (simp del: descend.simps)
  have "f \<noteq> root" using tree_okD(1) [OF vm_invD(1) [OF i1], of "[index_at 2 ?va]" "[]" root] d1 by auto
  then have z: "\<not> PTE_IS_VALID_NODE (pt s1 f (index_at 1 ?va))" by (simp add: s1_def PTE_IS_VALID_NODE_def)
  have "free_set (vpages s1) \<noteq> {}" by (rule two_pages_left) (use f(2) in \<open>auto simp: s1_def\<close>)
  then obtain f2 s2 where f2: "alloc_page s1 = (Some f2, s2)"
    by (cases rule: alloc_page_cases [OF i1]) simp_all
  define s3 where "s3 = set_pte (f, index_at 1 ?va) (PTE_MAKE_VALID_TABLE (PTE_BUILD (virt_to_phys ?pb f2) 0)) s2"
  have "length [index_at 2 ?va] < 2" by simp
  note l2 = link_new_table [OF i1 d1 this z index_at_less f2, folded s3_def]
  obtain L2 where i2: "vm_inv ?pb ?U root s3 L2" using l2(1) unfolding walked_def by blast
  have d2: "descend ?pb s3 root (vpath 0 ?va) = Some f2" using l2(2) by (simp add: vpath_def del: descend.simps)
  have "flat ?pb s3 root = flat ?pb st root" using l1(1) l2(1) by (simp add: walked_def)
  then have "\<forall>a b c. flat ?pb s3 root a b c = 0" using t(2) by simp
  then show ?thesis using i2 d2 by blast
qed

lemma example_mapped:
  "\<exists>st root L. vm_inv 0x80000000 {0x1000..<0x5000} root st L \<and> entry 0x80000000 st root 0x400000 = example_leaf \<and>
     (\<forall>va. VA_IS_IN_RANGE va \<and> page_aligned va \<longrightarrow> va \<noteq> 0x400000 \<longrightarrow> entry 0x80000000 st root va = 0)"
proof -
  let ?U = "{0x1000..<0x5000 :: nat}" and ?pb = "0x80000000 :: u64" and ?va = "0x400000 :: u64"
  obtain st root L t where t: "vm_inv ?pb ?U root st L" "\<forall>a b c. flat ?pb st root a b c = 0"
      "descend ?pb st root (vpath 0 ?va) = Some t"
    using example_tables by (elim exE conjE)
  have va: "VA_IS_IN_RANGE ?va" "page_aligned ?va"
    by (simp_all add: VA_IS_IN_RANGE_def VA_IS_IN_RANGE_FOR_USER_def USER_VA_END_def page_aligned_def PAGE_BYTES_def)
  note S = set_leaf_inv [OF t(1,3) va refl]
  have "entry ?pb st root va' = 0" for va' using t(2) by (simp add: entry_def)
  then have "entry ?pb (set_pte (t, index_at 0 ?va) example_leaf st) root va' = (if va' = ?va then example_leaf else 0)"
    if "VA_IS_IN_RANGE va'" "page_aligned va'" for va' using S(3) [OF that, of example_leaf] by simp
  then show ?thesis using S(1) [of example_leaf] va
    by (intro exI [of _ "set_pte (t, index_at 0 ?va) example_leaf st"] exI [of _ root] exI [of _ L]) simp
qed

section \<open>Properties\<close>

text \<open>
  C25: \<^verbatim>\<open>vm_map\<close> of a range of unmapped pages returns without a panic, and then either 0 and
  every page of the range has the entry for its physical page with the permissions asked for, or
  -1 and memory is used up and only a first part of the range is mapped. No entry outside of the
  range changes, and the pages taken from the allocator are exactly the tables of the tree.
\<close>

theorem vm_map_maps_range:
  assumes "vm_inv pb U root st L" "range_ok va n" "unat sz = 4096 * n" "0 < n"
    "\<forall>va'. page_aligned va' \<and> in_pages va n va' \<longrightarrow> \<not> PTE_IS_VALID_NODE (entry pb st root va')"
  shows "\<exists>r st' m. vm_map pb root va pa sz perm False st = Some (r, st') \<and>
    vm_inv pb U root st' (L \<union> tables pb st' root) \<and> m \<le> n \<and>
    (r = 0 \<and> m = n \<or> r = -1 \<and> m < n \<and> free_set (vpages st') = {}) \<and>
    (\<forall>va'. VA_IS_IN_RANGE va' \<and> page_aligned va' \<longrightarrow>
       entry pb st' root va' =
         (if in_pages va m va' then PTE_MAKE_VALID_LEAF (PTE_BUILD (pa + (va' - va)) (perm OR PTE_MAP_DEFAULT_FLAGS))
          else entry pb st root va'))"
  by (rule vm_map_range [OF assms])

theorem vm_map_maps_range_witness:
  "\<exists>st root r st'. vm_map 0x80000000 root 0x400000 0x90000000 0x2000 PTE_USER_RAM False st = Some (r, st') \<and> (r = 0 \<or> r = -1)"
proof -
  obtain st root where t: "vm_inv 0x80000000 {0x1000..<0x5000} root st {(unat root, 0)}" "\<forall>a b c. flat 0x80000000 st root a b c = 0"
    using example_tree by (elim exE conjE)
  have "range_ok 0x400000 2" by (rule user_range_ok) (simp_all add: page_aligned_def PAGE_BYTES_def)
  moreover have "unat (0x2000 :: u64) = 4096 * 2" "0 < (2 :: nat)" by simp_all
  moreover have "\<forall>va'. page_aligned va' \<and> in_pages 0x400000 2 va' \<longrightarrow> \<not> PTE_IS_VALID_NODE (entry 0x80000000 st root va')"
    using t(2) by (simp add: entry_def PTE_IS_VALID_NODE_def)
  ultimately show ?thesis
    using vm_map_maps_range [OF t(1), where va = "0x400000" and n = 2 and sz = "0x2000" and pa = "0x90000000" and perm = PTE_USER_RAM]
    by blast
qed

text \<open>
  C26: \<^verbatim>\<open>vm_unmap\<close> of a mapped range returns without a panic, clears exactly the entries of the
  range and takes no table away.
\<close>

theorem vm_unmap_clears_range:
  assumes "vm_inv pb U root st L" "range_ok va n"
    "\<forall>va'. page_aligned va' \<and> in_pages va n va' \<longrightarrow>
       PTE_IS_VALID_NODE (entry pb st root va') \<and> PTE_IS_LEAF (entry pb st root va')"
  shows "\<exists>st'. vm_unmap pb root va n False st = Some st' \<and> vm_inv pb U root st' L \<and> vpages st' = vpages st \<and>
    (\<forall>va'. VA_IS_IN_RANGE va' \<and> page_aligned va' \<longrightarrow>
       entry pb st' root va' = (if in_pages va n va' then 0 else entry pb st root va'))"
  by (rule vm_unmap_range [OF assms])

theorem vm_unmap_clears_range_witness:
  "\<exists>st root st'. vm_unmap 0x80000000 root 0x400000 1 False st = Some st' \<and>
     entry 0x80000000 st root 0x400000 = example_leaf \<and> entry 0x80000000 st' root 0x400000 = 0"
proof -
  obtain st root L where t: "vm_inv 0x80000000 {0x1000..<0x5000} root st L" "entry 0x80000000 st root 0x400000 = example_leaf"
    using example_mapped by (elim exE conjE)
  have r: "range_ok 0x400000 1" by (rule user_range_ok) (simp_all add: page_aligned_def PAGE_BYTES_def)
  have "va' = 0x400000" if "page_aligned va'" "in_pages 0x400000 1 va'" for va'
    using that in_pages_Suc [of "0x400000" va' 0] by (simp add: page_aligned_def PAGE_BYTES_def)
  moreover have "PTE_IS_VALID_NODE example_leaf \<and> PTE_IS_LEAF example_leaf"
    unfolding example_leaf_def by code_simp
  ultimately have m: "\<forall>va'. page_aligned va' \<and> in_pages 0x400000 1 va' \<longrightarrow>
      PTE_IS_VALID_NODE (entry 0x80000000 st root va') \<and> PTE_IS_LEAF (entry 0x80000000 st root va')"
    using t(2) by metis
  have "VA_IS_IN_RANGE 0x400000" "page_aligned 0x400000" "in_pages 0x400000 1 0x400000"
    by (simp_all add: VA_IS_IN_RANGE_def VA_IS_IN_RANGE_FOR_USER_def USER_VA_END_def page_aligned_def PAGE_BYTES_def in_pages_def)
  then show ?thesis using vm_unmap_clears_range [OF t(1) r m] t(2) by fastforce
qed

text \<open>
  C27: freeing a page table whose last level holds only leaves returns with a recursion depth of
  three and gives back exactly the pages of its tables, each of them once; the pages that are
  mapped stay taken, and no other table changes.
\<close>

theorem vm_free_pgtable_frees_tree:
  assumes "vm_inv pb U root st L" "3 \<le> fuel"
    "\<forall>a b c. c < 512 \<and> PTE_IS_VALID_NODE (flat pb st root a b c) \<longrightarrow> PTE_IS_LEAF (flat pb st root a b c)"
    "\<forall>t. (unat t, 0) \<in> tables pb st root \<longrightarrow> vm_is_valid_page_pointer_kva in_ram_kva t \<and>
       vm_is_valid_page_pointer_pa in_ram_pa (virt_to_phys pb t)"
  shows "\<exists>st'. vm_free_pgtable fuel pb in_ram_pa in_ram_kva root st = Some st' \<and>
    balloc.consistent U (vpages st') (L - tables pb st root) \<and>
    (\<forall>t. (unat t, 0) \<notin> tables pb st root \<longrightarrow> pt st' t = pt st t)"
proof -
  note I = vm_invD [OF assms(1)]
  have T: "page_blocks (subtree pb st 2 root) = tables pb st root" by (auto simp: page_blocks_def subtree_def tables_def)
  have mem: "(unat t, 0) \<in> tables pb st root \<longleftrightarrow> t \<in> subtree pb st 2 root" for t
    unfolding T [symmetric] by (rule page_blocks_mem)
  have "PTE_IS_LEAF (pt st s i) \<longleftrightarrow> length p = 2"
    if p: "length p \<le> 2" "descend pb st root p = Some s" "i < 512" "PTE_IS_VALID_NODE (pt st s i)" for p s i
  proof (cases "length p = 2")
    case True
    then obtain a b where ab: "p = [a, b]" using short_path [of p] by auto
    have "flat pb st root a b i = pt st s i" using p(2) unfolding ab flat_def by simp
    then show ?thesis using assms(3) p(3,4) True by metis
  next
    case False
    then show ?thesis using tree_okD(2) [OF I(1), of p s i] p by auto
  qed
  then have "sub_ok pb st 2 root" unfolding sub_ok_def using tree_okD(1) [OF I(1)] by blast
  moreover have "page_blocks (subtree pb st 2 root) \<subseteq> L" unfolding T by (rule vm_inv_tables [OF assms(1)])
  ultimately have "\<exists>st'. vm_free_pgtable fuel pb in_ram_pa in_ram_kva root st = Some st' \<and>
      freed_tables U L (subtree pb st 2 root) st st'"
    by (rule vm_free_pgtable_ok [OF _ I(2)]) (use assms(2,4) mem in auto)
  then show ?thesis unfolding freed_tables_def T mem by blast
qed

theorem vm_free_pgtable_frees_tree_witness:
  "\<exists>st root st' L. vm_free_pgtable 3 0x80000000 (\<lambda>_. True) (\<lambda>_. True) root st = Some st' \<and>
     balloc.consistent {0x1000..<0x5000} (vpages st') (L - {(unat root, 0)})"
proof -
  obtain st root L where t: "vm_inv 0x80000000 {0x1000..<0x5000} root st L" "tables 0x80000000 st root = {(unat root, 0)}"
      "\<forall>a b c. flat 0x80000000 st root a b c = 0" "page_aligned root" "root \<noteq> 0" "unat root < 0x5000"
    using example_tree by blast
  have "page_aligned (virt_to_phys 0x80000000 root)"
    unfolding virt_to_phys_def using t(4)
    by (intro page_aligned_add page_aligned_diff page_aligned_offset) (simp_all add: page_aligned_def PAGE_BYTES_def)
  moreover have "virt_to_phys 0x80000000 root \<noteq> 0"
  proof
    assume "virt_to_phys 0x80000000 root = 0"
    then have "root = PAGE_OFFSET - 0x80000000" by (simp add: virt_to_phys_def algebra_simps)
    then show False using t(6) by (simp add: PAGE_OFFSET_def)
  qed
  ultimately have ptr: "\<forall>x. (unat x, 0) \<in> tables 0x80000000 st root \<longrightarrow>
      vm_is_valid_page_pointer_kva (\<lambda>_. True) x \<and> vm_is_valid_page_pointer_pa (\<lambda>_. True) (virt_to_phys 0x80000000 x)"
    using t(2,4,5)
    by (auto simp: vm_is_valid_page_pointer_kva_def vm_is_valid_page_pointer_pa_def page_aligned_def unat_inj_u64)
  have lf: "\<forall>a b c. c < 512 \<and> PTE_IS_VALID_NODE (flat 0x80000000 st root a b c) \<longrightarrow> PTE_IS_LEAF (flat 0x80000000 st root a b c)"
    using t(3) by (simp add: PTE_IS_VALID_NODE_def)
  have "3 \<le> (3 :: nat)" by simp
  from vm_free_pgtable_frees_tree [OF t(1) this lf ptr] show ?thesis unfolding t(2) by blast
qed

text \<open>
  C28: \<^verbatim>\<open>vm_trim_pagetable\<close> does not panic. Let the table be the one of the last level on the
  path of the address. Where there is none, or one of its 512 entries is valid, nothing changes and
  the result is false. Otherwise exactly this one table leaves the tree and goes back to the
  allocator, the result is true, every valid translation is kept and none is made.
\<close>

theorem vm_trim_keeps_translations:
  assumes "vm_inv pb U root st L"
  shows "case descend pb st root [index_at 2 va, index_at 1 va] of
      None \<Rightarrow> vm_trim_pagetable pb root va st = Some (False, st)
    | Some t \<Rightarrow>
        if \<exists>c<512. PTE_IS_VALID_NODE (pt st t c) then vm_trim_pagetable pb root va st = Some (False, st)
        else \<exists>st'. vm_trim_pagetable pb root va st = Some (True, st') \<and>
          tables pb st' root = tables pb st root - {(unat t, 0)} \<and>
          (unat t, 0) \<in> tables pb st root \<and> vm_inv pb U root st' (L - {(unat t, 0)}) \<and>
          (\<forall>va'. PTE_IS_VALID_NODE (entry pb st root va') \<or> PTE_IS_VALID_NODE (entry pb st' root va') \<longrightarrow>
             entry pb st' root va' = entry pb st root va')"
proof (cases "descend pb st root (vpath 0 va)")
  case None
  then have d: "descend pb st root [index_at 2 va, index_at 1 va] = None" by (simp add: vpath_def del: descend.simps)
  show ?thesis unfolding d option.case by (rule vm_trim_none [OF assms None])
next
  case (Some t)
  then have d: "descend pb st root [index_at 2 va, index_at 1 va] = Some t" by (simp add: vpath_def del: descend.simps)
  have k: "(unat t, 0) \<in> tables pb st root" using Some by (intro tablesI [of "vpath 0 va"]) (simp add: vpath_def)
  show ?thesis
  proof (cases "\<exists>c<512. PTE_IS_VALID_NODE (pt st t c)")
    case True
    then have "vm_trim_pagetable pb root va st = Some (False, st)" using vm_trim_used [OF assms Some] by blast
    then show ?thesis unfolding d option.case using True by (simp only: if_True)
  next
    case False
    then have un: "\<forall>c<512. \<not> PTE_IS_VALID_NODE (pt st t c)" by blast
    obtain st' where r: "vm_trim_pagetable pb root va st = Some (True, st')"
        "tables pb st' root = tables pb st root - {(unat t, 0)}" "vm_inv pb U root st' (L - {(unat t, 0)})"
        "\<forall>a b c. c < 512 \<longrightarrow> PTE_IS_VALID_NODE (flat pb st root a b c) \<or> PTE_IS_VALID_NODE (flat pb st' root a b c) \<longrightarrow>
           flat pb st' root a b c = flat pb st root a b c"
      using vm_trim_unused [OF assms Some un] by (elim exE conjE)
    have e: "\<forall>va'. PTE_IS_VALID_NODE (entry pb st root va') \<or> PTE_IS_VALID_NODE (entry pb st' root va') \<longrightarrow>
         entry pb st' root va' = entry pb st root va'"
      unfolding entry_def by (intro allI impI) (erule r(4) [rule_format, OF index_at_less])
    show ?thesis unfolding d option.case if_not_P [OF False] using r(1,2) k r(3) e by (intro exI [of _ st'] conjI)
  qed
qed

theorem vm_trim_keeps_translations_witness:
  "(\<exists>st root (t :: u64) st' L. vm_trim_pagetable 0x80000000 root 0x400000 st = Some (True, st') \<and> (unat t, 0) \<in> tables 0x80000000 st root \<and>
      tables 0x80000000 st' root = tables 0x80000000 st root - {(unat t, 0)} \<and>
      vm_inv 0x80000000 {0x1000..<0x5000} root st' (L - {(unat t, 0)})) \<and>
   (\<exists>st root. entry 0x80000000 st root 0x400000 = example_leaf \<and>
      vm_trim_pagetable 0x80000000 root 0x400000 st = Some (False, st))"
proof
  obtain st root L t where t: "vm_inv 0x80000000 {0x1000..<0x5000} root st L" "\<forall>a b c. flat 0x80000000 st root a b c = 0"
      "descend 0x80000000 st root [index_at 2 0x400000, index_at 1 0x400000] = Some t"
    using example_tables unfolding vpath_def if_P [OF refl] by (elim exE conjE)
  have "pt st t c = 0" for c
    using t(2) [rule_format, of "index_at 2 0x400000" "index_at 1 0x400000" c] t(3) by (simp add: flat_def del: descend.simps)
  then have "\<not> (\<exists>c<512. PTE_IS_VALID_NODE (pt st t c))" by (simp add: PTE_IS_VALID_NODE_def)
  note un = this
  obtain st' where r: "vm_trim_pagetable 0x80000000 root 0x400000 st = Some (True, st')"
      "tables 0x80000000 st' root = tables 0x80000000 st root - {(unat t, 0)}" "(unat t, 0) \<in> tables 0x80000000 st root"
      "vm_inv 0x80000000 {0x1000..<0x5000} root st' (L - {(unat t, 0)})"
    using vm_trim_keeps_translations [OF t(1), of "0x400000"] unfolding t(3) option.case if_not_P [OF un] by (elim exE conjE)
  show "\<exists>st root (t :: u64) st' L. vm_trim_pagetable 0x80000000 root 0x400000 st = Some (True, st') \<and> (unat t, 0) \<in> tables 0x80000000 st root \<and>
      tables 0x80000000 st' root = tables 0x80000000 st root - {(unat t, 0)} \<and>
      vm_inv 0x80000000 {0x1000..<0x5000} root st' (L - {(unat t, 0)})"
    by (intro exI [of _ st] exI [of _ root] exI [of _ t] exI [of _ st'] exI [of _ L] conjI) (fact r)+
next
  obtain st root L where t: "vm_inv 0x80000000 {0x1000..<0x5000} root st L" "entry 0x80000000 st root 0x400000 = example_leaf"
    using example_mapped by (elim exE conjE)
  have v: "PTE_IS_VALID_NODE example_leaf" unfolding example_leaf_def by code_simp
  then have n: "example_leaf \<noteq> 0" by (auto simp: PTE_IS_VALID_NODE_def)
  then obtain s where s: "descend 0x80000000 st root [index_at 2 0x400000, index_at 1 0x400000] = Some s"
      "pt st s (index_at 0 0x400000) = example_leaf"
    using t(2) by (auto simp: entry_def flat_def simp del: descend.simps split: option.splits)
  then have "\<exists>c<512. PTE_IS_VALID_NODE (pt st s c)" using v index_at_less [of 0 "0x400000"] by metis
  then have "vm_trim_pagetable 0x80000000 root 0x400000 st = Some (False, st)"
    using vm_trim_keeps_translations [OF t(1), of "0x400000"] 
    unfolding s(1) option.case if_P [OF \<open>\<exists>c<512. PTE_IS_VALID_NODE (pt st s c)\<close>] by blast
  then show "\<exists>st root. entry 0x80000000 st root 0x400000 = example_leaf \<and>
      vm_trim_pagetable 0x80000000 root 0x400000 st = Some (False, st)"
    using t(2) by blast
qed

end
