(* ===== verification/Uvm.thy ===== *)
theory Uvm
  imports Vm
begin

text \<open>
  Access to the memory of a user process: address translation and the copy routines
  \<^verbatim>\<open>uvm_copy_out\<close>, \<^verbatim>\<open>uvm_copy_in\<close> and \<^verbatim>\<open>uvm_copy_in_str\<close> of
  \<^verbatim>\<open>kernel/mm/vm.c\<close>. The bytes of memory are a function of the kernel address; pages that are
  used as page tables are kept apart, in the state of theory Vm. A pointer is its address.
\<close>

section \<open>The code\<close>

type_synonym kbytes = "u64 \<Rightarrow> byte"

text \<open>\<^verbatim>\<open>memmove\<close> on this memory; theory Kstring has its loops and shows this result.\<close>

definition move_bytes :: "u64 \<Rightarrow> u64 \<Rightarrow> u64 \<Rightarrow> kbytes \<Rightarrow> kbytes" where
  "move_bytes dst src n m = (\<lambda>a. if a - dst < n then m (src + (a - dst)) else m a)"

text \<open>\<open>w\<close> is the value of \<^verbatim>\<open>*is_writeable\<close> before the call; the result has the value after it.\<close>

definition uvm_get_physical_paddr :: "u64 \<Rightarrow> u64 \<Rightarrow> u64 \<Rightarrow> bool \<Rightarrow> vm \<Rightarrow> (u64 \<times> bool) option" where
  "uvm_get_physical_paddr pb root va w st =
     (if \<not> VA_IS_IN_RANGE_FOR_USER va then Some (0, w)
      else case vm_walk2 pb root va None False st of
             None \<Rightarrow> None
           | Some (None, s, st1) \<Rightarrow> Some (0, w)
           | Some (Some l, s, st1) \<Rightarrow>
               let pte = pt st1 (fst l) (snd l) in
               if \<not> PTE_IS_VALID_USER pte then Some (0, w)
               else Some (PTE_GET_PA pte, PTE_IS_WRITEABLE pte))"

definition uvm_get_physical_addr :: "u64 \<Rightarrow> u64 \<Rightarrow> u64 \<Rightarrow> bool \<Rightarrow> vm \<Rightarrow> (u64 \<times> bool) option" where
  "uvm_get_physical_addr pb root va w st =
     (let offset = va mod PAGE_BYTES; va_page = va - offset in
      case uvm_get_physical_paddr pb root va_page w st of
        None \<Rightarrow> None
      | Some (pa_page, w1) \<Rightarrow> if pa_page = 0 then Some (0, w1) else Some (pa_page + offset, w1))"

definition kvm_get_physical_paddr :: "u64 \<Rightarrow> u64 \<Rightarrow> u64 \<Rightarrow> vm \<Rightarrow> u64 option" where
  "kvm_get_physical_paddr pb kernel_root va st =
     (case vm_walk2 pb kernel_root va None False st of
        None \<Rightarrow> None
      | Some (None, s, st1) \<Rightarrow> Some 0
      | Some (Some l, s, st1) \<Rightarrow>
          let pte = pt st1 (fst l) (snd l) in
          if \<not> PTE_IS_VALID_NODE pte then Some 0 else Some (PTE_GET_PA pte))"

text \<open>The number of bytes up to the end of the page of \<open>va\<close>, at most \<open>len\<close>.\<close>

definition bytes_in_page :: "u64 \<Rightarrow> u64 \<Rightarrow> u64" where
  "bytes_in_page va len = (let n = PAGE_BYTES - (va - PAGE_DOWN va) in if n > len then len else n)"

lemma PAGE_DOWN_eq: "PAGE_DOWN a = a - a mod PAGE_BYTES"
proof -
  have "a AND NOT (PAGE_BYTES - 1) = push_bit 12 (drop_bit 12 a)"
  proof -
    have m: "PAGE_BYTES - 1 = mask 12" by (simp add: PAGE_BYTES_def mask_eq_decr_exp)
    show ?thesis unfolding m
      by (rule bit_word_eqI) (auto simp: bit_and_iff bit_not_iff bit_mask_iff bit_push_bit_iff bit_drop_bit_eq)
  qed
  moreover have "push_bit 12 (drop_bit 12 a) + take_bit 12 a = a" by (rule bits_ident)
  moreover have "take_bit 12 a = a mod PAGE_BYTES" by (simp add: PAGE_BYTES_2p take_bit_eq_mod)
  ultimately show ?thesis unfolding PAGE_DOWN_def by (simp add: eq_diff_eq)
qed

lemma page_offset: "va - PAGE_DOWN va = va mod PAGE_BYTES" "unat (va mod PAGE_BYTES) = unat va mod 4096"
  by (simp_all add: PAGE_DOWN_eq unat_mod PAGE_BYTES_2p)

lemma unat_bytes_in_page: "unat (bytes_in_page va len) = min (4096 - unat va mod 4096) (unat len)"
proof -
  have "unat (PAGE_BYTES - va mod PAGE_BYTES) = 4096 - unat va mod 4096"
    using page_offset(2) [of va] by (subst unat_sub_u64) (simp_all add: PAGE_BYTES_def)
  then show ?thesis by (auto simp: bytes_in_page_def Let_def page_offset(1) word_less_nat_alt)
qed

lemma bytes_in_page_less: "len > 0 \<Longrightarrow> unat (len - bytes_in_page va len) < unat len"
  using unat_bytes_in_page [of va len] by (subst unat_sub_u64) (simp_all add: word_less_nat_alt)

function uvm_copy_out :: "u64 \<Rightarrow> u64 \<Rightarrow> u64 \<Rightarrow> u64 \<Rightarrow> u64 \<Rightarrow> vm \<Rightarrow> kbytes \<Rightarrow> (int \<times> kbytes) option" where
  "uvm_copy_out pb root dst_va src_pa len st m =
     (if len > 0 then
        let dst_va_page_start = PAGE_DOWN dst_va in
        case uvm_get_physical_paddr pb root dst_va_page_start False st of
          None \<Rightarrow> None
        | Some (dst_pa_page_start, dst_page_is_writeable) \<Rightarrow>
            if dst_pa_page_start = 0 \<or> \<not> dst_page_is_writeable then Some (-1, m)
            else
              let dst_offset_in_page = dst_va - dst_va_page_start;
                  n = bytes_in_page dst_va len
              in uvm_copy_out pb root (dst_va_page_start + PAGE_BYTES) (src_pa + n) (len - n) st
                   (move_bytes (phys_to_virt pb dst_pa_page_start + dst_offset_in_page) src_pa n m)
      else Some (0, m))"
  by pat_completeness auto
termination
  by (relation "measure (\<lambda>(pb, root, dst_va, src_pa, len, st, m). unat len)") (auto simp: bytes_in_page_less)

function uvm_copy_in :: "u64 \<Rightarrow> u64 \<Rightarrow> u64 \<Rightarrow> u64 \<Rightarrow> u64 \<Rightarrow> vm \<Rightarrow> kbytes \<Rightarrow> (int \<times> kbytes) option" where
  "uvm_copy_in pb root dst_pa src_va len st m =
     (if len > 0 then
        let src_va_page_start = PAGE_DOWN src_va in
        case uvm_get_physical_paddr pb root src_va_page_start False st of
          None \<Rightarrow> None
        | Some (src_pa_page_start, _) \<Rightarrow>
            if src_pa_page_start = 0 then Some (-1, m)
            else
              let src_offset_in_page = src_va - src_va_page_start;
                  n = bytes_in_page src_va len
              in uvm_copy_in pb root (dst_pa + n) (src_va_page_start + PAGE_BYTES) (len - n) st
                   (move_bytes dst_pa (phys_to_virt pb src_pa_page_start + src_offset_in_page) n m)
      else Some (0, m))"
  by pat_completeness auto
termination
  by (relation "measure (\<lambda>(pb, root, dst_pa, src_va, len, st, m). unat len)") (auto simp: bytes_in_page_less)

text \<open>The inner loop of \<^verbatim>\<open>uvm_copy_in_str\<close>: \<open>n\<close> bytes or up to the end of the string.\<close>

fun copy_str_page :: "nat \<Rightarrow> u64 \<Rightarrow> u64 \<Rightarrow> u64 \<Rightarrow> kbytes \<Rightarrow> bool \<times> u64 \<times> u64 \<times> kbytes" where
  "copy_str_page 0 mx dst_pa src_pa m = (False, mx, dst_pa, m)"
| "copy_str_page (Suc n) mx dst_pa src_pa m =
     (if m src_pa = 0 then (True, mx, dst_pa, m(dst_pa := 0))
      else copy_str_page n (mx - 1) (dst_pa + 1) (src_pa + 1) (m(dst_pa := m src_pa)))"

lemma copy_str_page_max:
  "copy_str_page n mx dst src m = (got, mx', dst', m') \<Longrightarrow> \<not> got \<Longrightarrow> mx' = mx - of_nat n"
  by (induction n mx dst src m arbitrary: got rule: copy_str_page.induct) (auto split: if_splits simp: algebra_simps)

lemma copy_str_page_less:
  assumes "copy_str_page (unat (bytes_in_page va mx)) mx dst src m = (got, mx', dst', m')" "\<not> got" "mx > 0"
  shows "unat mx' < unat mx"
  using copy_str_page_max [OF assms(1,2)] bytes_in_page_less [OF assms(3), of va] by simp

function copy_in_str_loop ::
  "u64 \<Rightarrow> u64 \<Rightarrow> bool \<Rightarrow> u64 \<Rightarrow> u64 \<Rightarrow> u64 \<Rightarrow> vm \<Rightarrow> kbytes \<Rightarrow> (int \<times> kbytes) option" where
  "copy_in_str_loop pb root got_null dst_pa src_va mx st m =
     (if \<not> got_null \<and> mx > 0 then
        let src_va_page_start = PAGE_DOWN src_va in
        case uvm_get_physical_paddr pb root src_va_page_start False st of
          None \<Rightarrow> None
        | Some (src_pa_page_start, _) \<Rightarrow>
            if src_pa_page_start = 0 then Some (-1, m)
            else
              let src_offset_in_page = src_va - src_va_page_start;
                  n = bytes_in_page src_va mx;
                  src_pa = phys_to_virt pb src_pa_page_start + src_offset_in_page
              in case copy_str_page (unat n) mx dst_pa src_pa m of
                   (got, mx1, dst1, m1) \<Rightarrow>
                     copy_in_str_loop pb root got dst1 (src_va_page_start + PAGE_BYTES) mx1 st m1
      else Some (if got_null then 0 else -1, m))"
  by pat_completeness auto
termination
  by (relation "measure (\<lambda>(pb, root, got, dst, src, mx, st, m). if got then 0 else Suc (unat mx))")
    (auto dest: copy_str_page_less [OF sym])

definition uvm_copy_in_str :: "u64 \<Rightarrow> u64 \<Rightarrow> u64 \<Rightarrow> u64 \<Rightarrow> u64 \<Rightarrow> vm \<Rightarrow> kbytes \<Rightarrow> (int \<times> kbytes) option" where
  "uvm_copy_in_str pb root dst_pa src_va mx st m = copy_in_str_loop pb root False dst_pa src_va mx st m"

declare uvm_copy_out.simps [simp del] uvm_copy_in.simps [simp del] copy_in_str_loop.simps [simp del]

section \<open>Translation of user addresses\<close>

text \<open>The kernel address behind a user address, and whether the user may write there.\<close>

definition uaddr :: "u64 \<Rightarrow> vm \<Rightarrow> u64 \<Rightarrow> u64 \<Rightarrow> (u64 \<times> bool) option" where
  "uaddr pb st root va =
     (let p = PAGE_DOWN va; e = entry pb st root p in
      if VA_IS_IN_RANGE_FOR_USER p \<and> PTE_IS_VALID_USER e \<and> PTE_GET_PA e \<noteq> 0
      then Some (phys_to_virt pb (PTE_GET_PA e) + (va - p), PTE_IS_WRITEABLE e) else None)"

lemma walk2_entry:
  assumes "vm_inv pb U root st L" "VA_IS_IN_RANGE va"
  shows "\<exists>l s. vm_walk2 pb root va None False st = Some (l, s, st) \<and>
    entry pb st root va = (case l of None \<Rightarrow> 0 | Some q \<Rightarrow> pt st (fst q) (snd q))"
proof -
  have "descend pb st root (vpath 2 va) = Some root" by (simp add: vpath_def)
  from walk_no_alloc [OF vm_invD(1) [OF assms(1)] this, of False]
  show ?thesis using assms(2)
    by (cases "descend pb st root (vpath 0 va)")
      (auto simp: vm_walk2_def PAGE_TABLE_MAX_LEVELS_def entry_def flat_def vpath_def simp del: descend.simps)
qed

lemma get_paddr:
  assumes "vm_inv pb U root st L"
  shows "uvm_get_physical_paddr pb root va w st =
    Some (let e = entry pb st root va in
          if VA_IS_IN_RANGE_FOR_USER va \<and> PTE_IS_VALID_USER e then (PTE_GET_PA e, PTE_IS_WRITEABLE e) else (0, w))"
proof (cases "VA_IS_IN_RANGE_FOR_USER va")
  case True
  then have "VA_IS_IN_RANGE va" by (simp add: VA_IS_IN_RANGE_def)
  from walk2_entry [OF assms this] obtain l s where "vm_walk2 pb root va None False st = Some (l, s, st)"
      "entry pb st root va = (case l of None \<Rightarrow> 0 | Some q \<Rightarrow> pt st (fst q) (snd q))" by (elim exE conjE)
  moreover have "\<not> PTE_IS_VALID_USER 0" by (simp add: PTE_IS_VALID_USER_def PTE_IS_VALID_NODE_def)
  ultimately show ?thesis using True by (cases l) (simp_all add: uvm_get_physical_paddr_def Let_def)
qed (simp add: uvm_get_physical_paddr_def Let_def)

lemma PAGE_DOWN_same:
  assumes "unat va mod 4096 + i < 4096"
  shows "PAGE_DOWN (va + of_nat i) = PAGE_DOWN va"
proof -
  have u: "unat (of_nat i :: u64) = i" using assms by (simp add: unat_of_nat)
  have "unat va + i < 2 ^ 64"
  proof -
    obtain q where q: "unat va = 4096 * q + unat va mod 4096" by (metis mult_div_mod_eq)
    have "unat va < 2 ^ 64" using unsigned_less [of va] by simp
    then have "4096 * q < 4096 * 2 ^ 52" using q by simp
    then have "4096 * Suc q \<le> 2 ^ 64" by simp
    then show ?thesis using q assms by simp
  qed
  then have s: "unat (va + of_nat i) = unat va + i" using u by (subst unat_add_u64) simp_all
  have "unat ((va + of_nat i) mod PAGE_BYTES) = unat va mod 4096 + i"
    unfolding page_offset(2) s using assms by (metis mod_add_left_eq mod_less)
  also have "\<dots> = unat (va mod PAGE_BYTES + of_nat i)"
    using assms u by (subst unat_add_u64) (simp_all add: page_offset(2))
  finally have "(va + of_nat i) mod PAGE_BYTES = va mod PAGE_BYTES + of_nat i" by (simp only: unat_inj_u64)
  then show ?thesis unfolding PAGE_DOWN_eq by simp
qed

lemma uaddr_same_page:
  assumes "unat va mod 4096 + i < 4096"
  shows "uaddr pb st root (va + of_nat i) = map_option (\<lambda>(a, w). (a + of_nat i, w)) (uaddr pb st root va)"
  unfolding uaddr_def PAGE_DOWN_same [OF assms] by (simp add: Let_def algebra_simps)

lemma next_page:
  assumes "bytes_in_page va len \<noteq> len"
  shows "PAGE_DOWN va + PAGE_BYTES = va + bytes_in_page va len"
  using assms by (auto simp: bytes_in_page_def Let_def algebra_simps split: if_splits)

section \<open>Copying\<close>

text \<open>The first \<open>k\<close> bytes at \<open>f 0, f 1, ...\<close> get the old bytes at \<open>g 0, g 1, ...\<close>; no other byte changes.\<close>

definition copied :: "(nat \<Rightarrow> u64) \<Rightarrow> (nat \<Rightarrow> u64) \<Rightarrow> nat \<Rightarrow> kbytes \<Rightarrow> kbytes \<Rightarrow> bool" where
  "copied f g k m m' \<longleftrightarrow> (\<forall>i<k. m' (f i) = m (g i)) \<and> (\<forall>x. (\<forall>i<k. x \<noteq> f i) \<longrightarrow> m' x = m x)"

lemma copied_0 [simp]: "copied f g 0 m m' \<longleftrightarrow> m' = m"
  by (auto simp: copied_def)

lemma copied_add:
  assumes "copied f g n m m1" "copied (\<lambda>i. f (n + i)) (\<lambda>i. g (n + i)) k m1 m2"
    "\<And>i j. i < n + k \<Longrightarrow> j < n + k \<Longrightarrow> f i = f j \<Longrightarrow> i = j" "\<And>i j. i < n + k \<Longrightarrow> j < n + k \<Longrightarrow> f i \<noteq> g j"
  shows "copied f g (n + k) m m2"
proof -
  have "m2 (f i) = m (g i)" if i: "i < n + k" for i
  proof (cases "i < n")
    case True
    have "f i \<noteq> f (n + j)" if "j < k" for j
    proof
      assume "f i = f (n + j)"
      then have "i = n + j" using assms(3) [OF i, of "n + j"] that by simp
      then show False using True by simp
    qed
    then have "m2 (f i) = m1 (f i)" using assms(2) unfolding copied_def by blast
    then show ?thesis using True assms(1) unfolding copied_def by simp
  next
    case False
    then obtain j where j: "i = n + j" "j < k" using i by (metis le_add_diff_inverse nat_add_left_cancel_less not_less)
    then have "m2 (f i) = m1 (g i)" using assms(2) unfolding copied_def by simp
    moreover have "g i \<noteq> f a" if "a < n" for a using assms(4) [of a i] that i by auto
    ultimately show ?thesis using assms(1) unfolding copied_def by simp
  qed
  moreover have "m2 x = m x" if x: "\<forall>i<n + k. x \<noteq> f i" for x
  proof -
    have "m2 x = m1 x" using assms(2) x unfolding copied_def by simp
    then show ?thesis using assms(1) x unfolding copied_def by simp
  qed
  ultimately show ?thesis unfolding copied_def by blast
qed

lemma copied_cong: "copied f g k m m' \<Longrightarrow> (\<And>i. i < k \<Longrightarrow> f i = f' i) \<Longrightarrow> (\<And>i. i < k \<Longrightarrow> g i = g' i) \<Longrightarrow> copied f' g' k m m'"
  unfolding copied_def by simp

lemma of_nat_inj_u64: "i < 2 ^ 64 \<Longrightarrow> j < 2 ^ 64 \<Longrightarrow> a + of_nat i = a + of_nat j \<longleftrightarrow> i = j" for a :: u64
  by (simp add: word_of_nat_eq_iff take_bit_nat_eq_self)

lemma move_bytes_copied: "copied (\<lambda>i. dst + of_nat i) (\<lambda>i. src + of_nat i) (unat n) m (move_bytes dst src n m)"
proof -
  have "of_nat i < n" if "i < unat n" for i using that by (simp add: word_less_nat_alt unat_of_nat le_less_trans [OF mod_less_eq_dividend])
  moreover have "x = dst + of_nat (unat (x - dst))" for x by simp
  ultimately show ?thesis
    unfolding copied_def move_bytes_def by (auto simp: word_less_nat_alt)
qed

abbreviation kaddr :: "u64 \<Rightarrow> vm \<Rightarrow> u64 \<Rightarrow> u64 \<Rightarrow> u64" where
  "kaddr pb st root va \<equiv> fst (the (uaddr pb st root va))"

abbreviation writable :: "u64 \<Rightarrow> vm \<Rightarrow> u64 \<Rightarrow> u64 \<Rightarrow> bool" where
  "writable pb st root va \<equiv> \<exists>a. uaddr pb st root va = Some (a, True)"

abbreviation readable :: "u64 \<Rightarrow> vm \<Rightarrow> u64 \<Rightarrow> u64 \<Rightarrow> bool" where
  "readable pb st root va \<equiv> uaddr pb st root va \<noteq> None"

text \<open>The bytes of a page from \<open>va\<close> on.\<close>

lemma page_bytes:
  assumes "uaddr pb st root va = Some (a, w)" "i < unat (bytes_in_page va len)"
  shows "uaddr pb st root (va + of_nat i) = Some (a + of_nat i, w)"
proof -
  have "i < 4096 - unat va mod 4096" using assms(2) unat_bytes_in_page [of va len] by simp
  then have "unat va mod 4096 + i < 4096" by linarith
  from uaddr_same_page [OF this] show ?thesis using assms(1) by simp
qed

lemma next_index:
  assumes "unat (bytes_in_page va len) + i < unat len"
  shows "PAGE_DOWN va + PAGE_BYTES + of_nat i = va + of_nat (unat (bytes_in_page va len) + i)"
proof -
  have "bytes_in_page va len \<noteq> len" using assms by auto
  from next_page [OF this] show ?thesis by simp
qed

lemma paddr_uaddr:
  assumes "vm_inv pb U root st L"
  shows "\<exists>pa w. uvm_get_physical_paddr pb root (PAGE_DOWN va) False st = Some (pa, w) \<and>
    (if pa = 0 then uaddr pb st root va = None
     else uaddr pb st root va = Some (phys_to_virt pb pa + (va - PAGE_DOWN va), w))"
  unfolding get_paddr [OF assms] uaddr_def by (auto simp: Let_def)

text \<open>The result of a copy loop: it stops at the first byte that \<open>P\<close> refuses.\<close>

definition prefix_copied ::
  "(nat \<Rightarrow> bool) \<Rightarrow> (nat \<Rightarrow> u64) \<Rightarrow> (nat \<Rightarrow> u64) \<Rightarrow> nat \<Rightarrow> kbytes \<Rightarrow> int \<Rightarrow> kbytes \<Rightarrow> bool" where
  "prefix_copied P f g N m r m' \<longleftrightarrow>
     (\<exists>k\<le>N. (\<forall>i<k. P i) \<and> (k < N \<longrightarrow> \<not> P k) \<and> copied f g k m m' \<and> r = (if k = N then 0 else -1))"

definition separate :: "(nat \<Rightarrow> bool) \<Rightarrow> (nat \<Rightarrow> u64) \<Rightarrow> (nat \<Rightarrow> u64) \<Rightarrow> nat \<Rightarrow> bool" where
  "separate P f g N \<longleftrightarrow> (\<forall>i<N. \<forall>j<N. P i \<and> P j \<longrightarrow> (f i = f j \<longrightarrow> i = j) \<and> f i \<noteq> g j)"

lemma separate_tail: "separate P f g N \<Longrightarrow> n \<le> N \<Longrightarrow> separate (\<lambda>i. P (n + i)) (\<lambda>i. f (n + i)) (\<lambda>i. g (n + i)) (N - n)"
  unfolding separate_def by (metis add_left_cancel less_diff_conv add.commute)

lemma prefix_copied_step:
  assumes sep: "separate P f g N" and n: "n \<le> N" "\<forall>i<n. P i" "copied f g n m m1"
    and t: "prefix_copied (\<lambda>i. P (n + i)) (\<lambda>i. f (n + i)) (\<lambda>i. g (n + i)) (N - n) m1 r m'"
  shows "prefix_copied P f g N m r m'"
proof -
  obtain k where k: "k \<le> N - n" "\<forall>i<k. P (n + i)" "k < N - n \<longrightarrow> \<not> P (n + k)"
      "copied (\<lambda>i. f (n + i)) (\<lambda>i. g (n + i)) k m1 m'" "r = (if k = N - n then 0 else -1)"
    using t unfolding prefix_copied_def by blast
  have P: "P i" if "i < n + k" for i
    using n(2) k(2) that by (cases "i < n") (auto simp: not_less dest!: le_Suc_ex)
  have "copied f g (n + k) m m'"
  proof (rule copied_add [OF n(3) k(4)])
    fix i j assume "i < n + k" "j < n + k"
    moreover have "n + k \<le> N" using k(1) n(1) by simp
    ultimately show "f i = f j \<Longrightarrow> i = j" "f i \<noteq> g j"
      using sep P [of i] P [of j] unfolding separate_def by (meson less_le_trans)+
  qed
  then show ?thesis
    unfolding prefix_copied_def using k(1,3,5) n(1) P by (intro exI [of _ "n + k"]) auto
qed

lemma prefix_copied_stop: "0 < N \<Longrightarrow> \<not> P 0 \<Longrightarrow> prefix_copied P f g N m (-1) m"
  unfolding prefix_copied_def by (intro exI [of _ 0]) simp

lemma prefix_copied_cong:
  assumes "prefix_copied P f g N m r m'" "\<And>i. i < N \<Longrightarrow> P i = P' i" "\<And>i. i < N \<Longrightarrow> f i = f' i" "\<And>i. i < N \<Longrightarrow> g i = g' i"
  shows "prefix_copied P' f' g' N m r m'"
proof -
  obtain k where k: "k \<le> N" "\<forall>i<k. P i" "k < N \<longrightarrow> \<not> P k" "copied f g k m m'" "r = (if k = N then 0 else -1)"
    using assms(1) unfolding prefix_copied_def by blast
  have "copied f' g' k m m'" by (rule copied_cong [OF k(4)]) (use k(1) assms in auto)
  then show ?thesis unfolding prefix_copied_def using k assms(2) by (intro exI [of _ k]) auto
qed

lemma separate_cong:
  "separate P f g N \<Longrightarrow> (\<And>i. i < N \<Longrightarrow> P i = P' i) \<Longrightarrow> (\<And>i. i < N \<Longrightarrow> f i = f' i) \<Longrightarrow> (\<And>i. i < N \<Longrightarrow> g i = g' i) \<Longrightarrow> separate P' f' g' N"
  unfolding separate_def by simp

lemma unat_rest: "unat (len - bytes_in_page va len) = unat len - unat (bytes_in_page va len)" "unat (bytes_in_page va len) \<le> unat len"
proof -
  show "unat (bytes_in_page va len) \<le> unat len" unfolding unat_bytes_in_page by simp
  then show "unat (len - bytes_in_page va len) = unat len - unat (bytes_in_page va len)" by (rule unat_sub_u64)
qed

lemma uvm_copy_out_ok:
  assumes inv: "vm_inv pb U root st L"
  shows "separate (\<lambda>i. writable pb st root (dst + of_nat i)) (\<lambda>i. kaddr pb st root (dst + of_nat i)) (\<lambda>i. src + of_nat i) (unat len) \<Longrightarrow>
    \<exists>r m'. uvm_copy_out pb root dst src len st m = Some (r, m') \<and>
      prefix_copied (\<lambda>i. writable pb st root (dst + of_nat i)) (\<lambda>i. kaddr pb st root (dst + of_nat i)) (\<lambda>i. src + of_nat i) (unat len) m r m'"
  (is "?S dst src len \<Longrightarrow> \<exists>r m'. _ \<and> ?R dst src len m r m'")
proof (induction "unat len" arbitrary: dst src len m rule: less_induct)
  case less
  obtain pa w where p: "uvm_get_physical_paddr pb root (PAGE_DOWN dst) False st = Some (pa, w)"
      "if pa = 0 then uaddr pb st root dst = None
       else uaddr pb st root dst = Some (phys_to_virt pb pa + (dst - PAGE_DOWN dst), w)"
    using paddr_uaddr [OF inv] by blast
  show ?case
  proof (cases "len > 0")
    case False
    then have "len = 0" by (simp add: word_less_nat_alt unat_eq_0)
    then show ?thesis by (subst uvm_copy_out.simps) (simp add: prefix_copied_def)
  next
    case pos: True
    show ?thesis
    proof (cases "pa = 0 \<or> \<not> w")
      case True
      then have "\<not> writable pb st root dst" using p(2) by (auto split: if_splits)
      then have "?R dst src len m (-1) m" using pos by (intro prefix_copied_stop) (simp_all add: word_less_nat_alt)
      then show ?thesis using pos p(1) True by (subst uvm_copy_out.simps) (auto simp: Let_def)
    next
      case False
      let ?a = "phys_to_virt pb pa + (dst - PAGE_DOWN dst)"
      let ?n = "bytes_in_page dst len" and ?dst = "PAGE_DOWN dst + PAGE_BYTES"
      let ?m1 = "move_bytes ?a src ?n m"
      have pg: "uaddr pb st root (dst + of_nat i) = Some (?a + of_nat i, True)" if "i < unat ?n" for i
        using page_bytes [OF _ that] p(2) False by simp
      have c1: "copied (\<lambda>i. kaddr pb st root (dst + of_nat i)) (\<lambda>i. src + of_nat i) (unat ?n) m ?m1"
        by (rule copied_cong [OF move_bytes_copied]) (simp_all add: pg)
      have idx: "?dst + of_nat i = dst + of_nat (unat ?n + i)" "src + ?n + of_nat i = src + of_nat (unat ?n + i)"
        if "i < unat (len - ?n)" for i
        using next_index [of dst len i] that by (simp_all add: unat_rest)
      have S: "?S ?dst (src + ?n) (len - ?n)"
        by (rule separate_cong [OF separate_tail [OF less.prems unat_rest(2) [of dst], folded unat_rest(1)]]) (simp_all only: idx)
      obtain r m' where I: "uvm_copy_out pb root ?dst (src + ?n) (len - ?n) st ?m1 = Some (r, m')"
          "?R ?dst (src + ?n) (len - ?n) ?m1 r m'"
        using less.hyps [OF bytes_in_page_less [OF pos] S] by blast
      have "?R dst src len m r m'"
      proof (rule prefix_copied_step [OF less.prems unat_rest(2) [of dst] _ c1])
        show "\<forall>i<unat ?n. writable pb st root (dst + of_nat i)" using pg by simp
        show "prefix_copied (\<lambda>i. writable pb st root (dst + of_nat (unat ?n + i)))
            (\<lambda>i. kaddr pb st root (dst + of_nat (unat ?n + i))) (\<lambda>i. src + of_nat (unat ?n + i)) (unat len - unat ?n) ?m1 r m'"
          unfolding unat_rest(1) [symmetric] by (rule prefix_copied_cong [OF I(2)]) (simp_all only: idx)
      qed
      then show ?thesis using pos p(1) False I(1) by (subst uvm_copy_out.simps) (simp add: Let_def)
    qed
  qed
qed

lemma uvm_copy_in_ok:
  assumes inv: "vm_inv pb U root st L"
  shows "separate (\<lambda>i. readable pb st root (src + of_nat i)) (\<lambda>i. dst + of_nat i) (\<lambda>i. kaddr pb st root (src + of_nat i)) (unat len) \<Longrightarrow>
    \<exists>r m'. uvm_copy_in pb root dst src len st m = Some (r, m') \<and>
      prefix_copied (\<lambda>i. readable pb st root (src + of_nat i)) (\<lambda>i. dst + of_nat i) (\<lambda>i. kaddr pb st root (src + of_nat i)) (unat len) m r m'"
  (is "?S dst src len \<Longrightarrow> \<exists>r m'. _ \<and> ?R dst src len m r m'")
proof (induction "unat len" arbitrary: dst src len m rule: less_induct)
  case less
  obtain pa w where p: "uvm_get_physical_paddr pb root (PAGE_DOWN src) False st = Some (pa, w)"
      "if pa = 0 then uaddr pb st root src = None
       else uaddr pb st root src = Some (phys_to_virt pb pa + (src - PAGE_DOWN src), w)"
    using paddr_uaddr [OF inv] by blast
  show ?case
  proof (cases "len > 0")
    case False
    then have "len = 0" by (simp add: word_less_nat_alt unat_eq_0)
    then show ?thesis by (subst uvm_copy_in.simps) (simp add: prefix_copied_def)
  next
    case pos: True
    show ?thesis
    proof (cases "pa = 0")
      case True
      then have "?R dst src len m (-1) m" using pos p(2) by (intro prefix_copied_stop) (simp_all add: word_less_nat_alt)
      then show ?thesis using pos p(1) True by (subst uvm_copy_in.simps) (auto simp: Let_def)
    next
      case False
      let ?a = "phys_to_virt pb pa + (src - PAGE_DOWN src)"
      let ?n = "bytes_in_page src len" and ?src = "PAGE_DOWN src + PAGE_BYTES"
      let ?m1 = "move_bytes dst ?a ?n m"
      have pg: "uaddr pb st root (src + of_nat i) = Some (?a + of_nat i, w)" if "i < unat ?n" for i
        using page_bytes [OF _ that] p(2) False by simp
      have c1: "copied (\<lambda>i. dst + of_nat i) (\<lambda>i. kaddr pb st root (src + of_nat i)) (unat ?n) m ?m1"
        by (rule copied_cong [OF move_bytes_copied]) (simp_all add: pg)
      have idx: "?src + of_nat i = src + of_nat (unat ?n + i)" "dst + ?n + of_nat i = dst + of_nat (unat ?n + i)"
        if "i < unat (len - ?n)" for i
        using next_index [of src len i] that by (simp_all add: unat_rest)
      have S: "?S (dst + ?n) ?src (len - ?n)"
        by (rule separate_cong [OF separate_tail [OF less.prems unat_rest(2) [of src], folded unat_rest(1)]]) (simp_all only: idx)
      obtain r m' where I: "uvm_copy_in pb root (dst + ?n) ?src (len - ?n) st ?m1 = Some (r, m')"
          "?R (dst + ?n) ?src (len - ?n) ?m1 r m'"
        using less.hyps [OF bytes_in_page_less [OF pos] S] by blast
      have "?R dst src len m r m'"
      proof (rule prefix_copied_step [OF less.prems unat_rest(2) [of src] _ c1])
        show "\<forall>i<unat ?n. readable pb st root (src + of_nat i)" using pg by simp
        show "prefix_copied (\<lambda>i. readable pb st root (src + of_nat (unat ?n + i)))
            (\<lambda>i. dst + of_nat (unat ?n + i)) (\<lambda>i. kaddr pb st root (src + of_nat (unat ?n + i))) (unat len - unat ?n) ?m1 r m'"
          unfolding unat_rest(1) [symmetric] by (rule prefix_copied_cong [OF I(2)]) (simp_all only: idx)
      qed
      then show ?thesis using pos p(1) False I(1) by (subst uvm_copy_in.simps) (simp add: Let_def)
    qed
  qed
qed

section \<open>Copying a string\<close>

text \<open>A string of \<open>l\<close> characters at \<open>g 0, g 1, ...\<close> with all of its bytes, the final zero included, inside of \<open>P\<close>.\<close>

definition string_at :: "(nat \<Rightarrow> bool) \<Rightarrow> (nat \<Rightarrow> u64) \<Rightarrow> kbytes \<Rightarrow> nat \<Rightarrow> bool" where
  "string_at P g m l \<longleftrightarrow> (\<forall>i\<le>l. P i) \<and> m (g l) = 0 \<and> (\<forall>i<l. m (g i) \<noteq> 0)"

definition string_copied ::
  "(nat \<Rightarrow> bool) \<Rightarrow> (nat \<Rightarrow> u64) \<Rightarrow> (nat \<Rightarrow> u64) \<Rightarrow> nat \<Rightarrow> kbytes \<Rightarrow> int \<Rightarrow> kbytes \<Rightarrow> bool" where
  "string_copied P f g N m r m' \<longleftrightarrow>
     (\<exists>l<N. string_at P g m l \<and> r = 0 \<and> copied f g (Suc l) m m') \<or>
     r = -1 \<and> (\<forall>l<N. \<not> string_at P g m l) \<and> (\<exists>k\<le>N. (\<forall>i<k. P i) \<and> copied f g k m m')"

lemma copied_one: "copied f g (Suc 0) m (m(f 0 := m (g 0)))"
  by (auto simp: copied_def)

lemma copy_str_page_ok:
  assumes "copy_str_page n mx dst src m = (got, mx', dst', m')" "n \<le> 2 ^ 64"
    "\<forall>i<n. \<forall>j<n. dst + of_nat i \<noteq> src + of_nat j"
  shows "if got then \<exists>l<n. m (src + of_nat l) = 0 \<and> (\<forall>i<l. m (src + of_nat i) \<noteq> 0) \<and>
            copied (\<lambda>i. dst + of_nat i) (\<lambda>i. src + of_nat i) (Suc l) m m'
         else (\<forall>i<n. m (src + of_nat i) \<noteq> 0) \<and> mx' = mx - of_nat n \<and> dst' = dst + of_nat n \<and>
            copied (\<lambda>i. dst + of_nat i) (\<lambda>i. src + of_nat i) n m m'"
  using assms
proof (induction n arbitrary: mx dst src m)
  case (Suc n)
  let ?m1 = "m(dst := m src)"
  have c1: "copied (\<lambda>i. dst + of_nat i) (\<lambda>i. src + of_nat i) (Suc 0) m ?m1"
    using copied_one [of "\<lambda>i. dst + of_nat i" "\<lambda>i. src + of_nat i" m] by simp
  show ?case
  proof (cases "m src = 0")
    case True
    then show ?thesis using Suc.prems(1) c1 by (auto intro!: exI [of _ 0])
  next
    case False
    then have e: "copy_str_page n (mx - 1) (dst + 1) (src + 1) ?m1 = (got, mx', dst', m')" using Suc.prems(1) by simp
    have sep: "\<forall>i<n. \<forall>j<n. dst + 1 + of_nat i \<noteq> src + 1 + of_nat j" using Suc.prems(3) by simp
    have m1: "?m1 (src + 1 + of_nat i) = m (src + of_nat (Suc i))" if "i < n" for i
      using Suc.prems(3) [rule_format, of 0 "Suc i"] that by (simp add: add.assoc)
    have join: "copied (\<lambda>i. dst + of_nat i) (\<lambda>i. src + of_nat i) (Suc k) m m'"
      if "copied (\<lambda>i. dst + 1 + of_nat i) (\<lambda>i. src + 1 + of_nat i) k ?m1 m'" "k \<le> n" for k
      using copied_add [OF c1, of k m'] that Suc.prems(2,3) of_nat_inj_u64 [of _ _ dst] by (simp add: add.assoc)
    note I = Suc.IH [OF e _ sep]
    show ?thesis
    proof (cases got)
      case True
      then obtain l where l: "l < n" "?m1 (src + 1 + of_nat l) = 0" "\<forall>i<l. ?m1 (src + 1 + of_nat i) \<noteq> 0"
          "copied (\<lambda>i. dst + 1 + of_nat i) (\<lambda>i. src + 1 + of_nat i) (Suc l) ?m1 m'"
        using I Suc.prems(2) by auto
      have "m (src + of_nat i) \<noteq> 0" if "i < Suc l" for i
        using that l(1,3) m1 [of "i - 1"] False by (cases i) auto
      then show ?thesis using True l(1,2) m1 [OF l(1)] join [OF l(4)] by (auto intro!: exI [of _ "Suc l"])
    next
      case ng: False
      have i: "\<forall>i<n. ?m1 (src + 1 + of_nat i) \<noteq> 0" "mx' = mx - 1 - of_nat n" "dst' = dst + 1 + of_nat n"
          "copied (\<lambda>i. dst + 1 + of_nat i) (\<lambda>i. src + 1 + of_nat i) n ?m1 m'"
        using I Suc.prems(2) ng by auto
      have "m (src + of_nat i) \<noteq> 0" if "i < Suc n" for i
        using that i(1) m1 [of "i - 1"] False by (cases i) auto
      then show ?thesis using ng i(2,3) join [OF i(4)] by (simp add: algebra_simps)
    qed
  qed
qed simp

lemma copied_source:
  assumes "separate P f g N" "copied f g n m m1" "n \<le> N" "\<forall>i<n. P i" "n \<le> i" "i < N" "P i"
  shows "m1 (g i) = m (g i)"
proof -
  have "g i \<noteq> f j" if "j < n" for j
    using assms(1,3,4,6,7) that unfolding separate_def by (metis less_le_trans)
  then show ?thesis using assms(2) unfolding copied_def by simp
qed

lemma separate_add:
  assumes sep: "separate P f g N" and n: "n \<le> N" "\<forall>i<n. P i" "copied f g n m m1"
    and k: "n + k \<le> N" "\<forall>i<k. P (n + i)" "copied (\<lambda>i. f (n + i)) (\<lambda>i. g (n + i)) k m1 m'"
  shows "\<forall>i<n + k. P i" "copied f g (n + k) m m'"
proof -
  show P: "\<forall>i<n + k. P i"
  proof (intro allI impI)
    fix i assume "i < n + k"
    then show "P i" using n(2) k(2) by (cases "i < n") (auto simp: not_less dest!: le_Suc_ex)
  qed
  show "copied f g (n + k) m m'"
  proof (rule copied_add [OF n(3) k(3)])
    fix i j assume ij: "i < n + k" "j < n + k"
    then have "P i" "P j" "i < N" "j < N" using P k(1) by auto
    then show "f i = f j \<Longrightarrow> i = j" "f i \<noteq> g j" using sep unfolding separate_def by blast+
  qed
qed

lemma string_at_tail:
  assumes sep: "separate P f g N" and n: "n \<le> N" "\<forall>i<n. P i" "\<forall>i<n. m (g i) \<noteq> 0" "copied f g n m m1" and l: "n + l < N"
  shows "string_at (\<lambda>i. P (n + i)) (\<lambda>i. g (n + i)) m1 l \<longleftrightarrow> string_at P g m (n + l)"
proof -
  have m1: "m1 (g (n + i)) = m (g (n + i))" if "i \<le> l" "P (n + i)" for i
    using copied_source [OF sep n(4,1,2), of "n + i"] that l by simp
  have split: "(\<forall>i\<le>n + l. Q i) \<longleftrightarrow> (\<forall>i<n. Q i) \<and> (\<forall>i\<le>l. Q (n + i))" for Q
    by (metis add_le_cancel_left le_Suc_ex le_add1 less_imp_le_nat not_less order_trans)
  have split': "(\<forall>i<n + l. Q i) \<longleftrightarrow> (\<forall>i<n. Q i) \<and> (\<forall>i<l. Q (n + i))" for Q
    by (metis add_less_cancel_left le_Suc_ex less_add_same_cancel1 not_less trans_less_add1)
  show ?thesis
    unfolding string_at_def split split' using n(2,3) m1 by (auto simp: less_imp_le)
qed

lemma string_copied_step:
  assumes sep: "separate P f g N" and n: "n \<le> N" "\<forall>i<n. P i" "\<forall>i<n. m (g i) \<noteq> 0" "copied f g n m m1"
    and t: "string_copied (\<lambda>i. P (n + i)) (\<lambda>i. f (n + i)) (\<lambda>i. g (n + i)) (N - n) m1 r m'"
  shows "string_copied P f g N m r m'"
proof -
  note A = separate_add [OF sep n(1,2,4)] and B = string_at_tail [OF sep n]
  consider (str) l where "l < N - n" "string_at (\<lambda>i. P (n + i)) (\<lambda>i. g (n + i)) m1 l" "r = 0"
      "copied (\<lambda>i. f (n + i)) (\<lambda>i. g (n + i)) (Suc l) m1 m'"
    | (no) k where "r = -1" "\<forall>l<N - n. \<not> string_at (\<lambda>i. P (n + i)) (\<lambda>i. g (n + i)) m1 l" "k \<le> N - n"
      "\<forall>i<k. P (n + i)" "copied (\<lambda>i. f (n + i)) (\<lambda>i. g (n + i)) k m1 m'"
    using t unfolding string_copied_def by blast
  then show ?thesis
  proof cases
    case str
    have "\<forall>i<Suc l. P (n + i)" using str(2) by (simp add: string_at_def less_Suc_eq_le)
    then have "copied f g (n + Suc l) m m'" using A(2) [OF _ _ str(4)] str(1) by simp
    then show ?thesis unfolding string_copied_def using B [of l] str by (intro disjI1 exI [of _ "n + l"]) simp
  next
    case no
    have "\<not> string_at P g m l" if "l < N" for l
    proof (cases "l < n")
      case True
      then show ?thesis using n(3) by (simp add: string_at_def)
    next
      case False
      then obtain j where "l = n + j" by (metis le_Suc_ex not_less)
      then show ?thesis using B [of j] no(2) that by simp
    qed
    moreover have "n + k \<le> N" using no(3) n(1) by simp
    ultimately show ?thesis
      unfolding string_copied_def using no(1) A [OF _ no(4,5)] by blast
  qed
qed

lemma string_copied_cong:
  assumes "string_copied P f g N m r m'" "\<And>i. i < N \<Longrightarrow> P i = P' i" "\<And>i. i < N \<Longrightarrow> f i = f' i" "\<And>i. i < N \<Longrightarrow> g i = g' i"
  shows "string_copied P' f' g' N m r m'"
proof -
  have c: "copied f' g' k m m'" if "copied f g k m m'" "k \<le> N" for k
    by (rule copied_cong [OF that(1)]) (use that(2) assms in auto)
  have s: "string_at P' g' m l = string_at P g m l" if "l < N" for l
    using assms(2,4) that unfolding string_at_def by auto
  show ?thesis
    using assms(1,2) c s unfolding string_copied_def by (elim disjE exE conjE) (auto intro!: exI)
qed

lemma copy_in_str_ok:
  assumes inv: "vm_inv pb U root st L"
  shows "separate (\<lambda>i. readable pb st root (src + of_nat i)) (\<lambda>i. dst + of_nat i) (\<lambda>i. kaddr pb st root (src + of_nat i)) (unat mx) \<Longrightarrow>
    \<exists>r m'. copy_in_str_loop pb root False dst src mx st m = Some (r, m') \<and>
      string_copied (\<lambda>i. readable pb st root (src + of_nat i)) (\<lambda>i. dst + of_nat i) (\<lambda>i. kaddr pb st root (src + of_nat i)) (unat mx) m r m'"
  (is "?S dst src mx \<Longrightarrow> \<exists>r m'. _ \<and> ?R dst src mx m r m'")
proof (induction "unat mx" arbitrary: dst src mx m rule: less_induct)
  case less
  obtain pa w where p: "uvm_get_physical_paddr pb root (PAGE_DOWN src) False st = Some (pa, w)"
      "if pa = 0 then uaddr pb st root src = None
       else uaddr pb st root src = Some (phys_to_virt pb pa + (src - PAGE_DOWN src), w)"
    using paddr_uaddr [OF inv] by blast
  show ?case
  proof (cases "mx > 0")
    case False
    then have "mx = 0" by (simp add: word_less_nat_alt unat_eq_0)
    then show ?thesis by (subst copy_in_str_loop.simps) (simp add: string_copied_def)
  next
    case pos: True
    show ?thesis
    proof (cases "pa = 0")
      case True
      then have "?R dst src mx m (-1) m" using p(2) unfolding string_copied_def
        by (intro disjI2 conjI exI [of _ 0]) (auto simp: string_at_def)
      then show ?thesis using pos p(1) True by (subst copy_in_str_loop.simps) (auto simp: Let_def)
    next
      case False
      let ?a = "phys_to_virt pb pa + (src - PAGE_DOWN src)"
      let ?n = "bytes_in_page src mx" and ?src = "PAGE_DOWN src + PAGE_BYTES"
      obtain got mx1 dst1 m1 where c: "copy_str_page (unat ?n) mx dst ?a m = (got, mx1, dst1, m1)" by (rule prod_cases4)
      have step: "copy_in_str_loop pb root False dst src mx st m = copy_in_str_loop pb root got dst1 ?src mx1 st m1"
        using pos p(1) False c by (subst copy_in_str_loop.simps) (simp add: Let_def)
      have pg: "uaddr pb st root (src + of_nat i) = Some (?a + of_nat i, w)" if "i < unat ?n" for i
        using page_bytes [OF _ that] p(2) False by simp
      have sep: "\<forall>i<unat ?n. \<forall>j<unat ?n. dst + of_nat i \<noteq> ?a + of_nat j"
      proof (intro allI impI)
        fix i j assume ij: "i < unat ?n" "j < unat ?n"
        then have "i < unat mx" "j < unat mx" using unat_rest(2) [of src mx] by simp_all
        then show "dst + of_nat i \<noteq> ?a + of_nat j" using less.prems pg [OF ij(1)] pg [OF ij(2)] unfolding separate_def by force
      qed
      have "unat ?n \<le> 2 ^ 64" using unat_bound_u64 less_imp_le by blast
      note C = copy_str_page_ok [OF c this sep]
      show ?thesis
      proof (cases got)
        case True
        then obtain l where l: "l < unat ?n" "m (?a + of_nat l) = 0" "\<forall>i<l. m (?a + of_nat i) \<noteq> 0"
            "copied (\<lambda>i. dst + of_nat i) (\<lambda>i. ?a + of_nat i) (Suc l) m m1" using C by auto
        have "copied (\<lambda>i. dst + of_nat i) (\<lambda>i. kaddr pb st root (src + of_nat i)) (Suc l) m m1"
          by (rule copied_cong [OF l(4)]) (use l(1) pg in auto)
        moreover have "string_at (\<lambda>i. readable pb st root (src + of_nat i)) (\<lambda>i. kaddr pb st root (src + of_nat i)) m l"
          using l(1-3) pg by (simp add: string_at_def)
        ultimately have "?R dst src mx m 0 m1"
          unfolding string_copied_def using l(1) unat_rest(2) [of src mx] by (intro disjI1 exI [of _ l]) simp
        then show ?thesis unfolding step using True by (subst copy_in_str_loop.simps) simp
      next
        case ng: False
        have i: "\<forall>i<unat ?n. m (?a + of_nat i) \<noteq> 0" "mx1 = mx - ?n" "dst1 = dst + ?n"
            "copied (\<lambda>i. dst + of_nat i) (\<lambda>i. ?a + of_nat i) (unat ?n) m m1" using C ng by auto
        have c1: "copied (\<lambda>i. dst + of_nat i) (\<lambda>i. kaddr pb st root (src + of_nat i)) (unat ?n) m m1"
          by (rule copied_cong [OF i(4)]) (simp_all add: pg)
        have idx: "?src + of_nat i = src + of_nat (unat ?n + i)" "dst + ?n + of_nat i = dst + of_nat (unat ?n + i)"
          if "i < unat (mx - ?n)" for i
          using next_index [of src mx i] that by (simp_all add: unat_rest)
        have S: "?S (dst + ?n) ?src (mx - ?n)"
          by (rule separate_cong [OF separate_tail [OF less.prems unat_rest(2) [of src], folded unat_rest(1)]]) (simp_all only: idx)
        obtain r m' where I: "copy_in_str_loop pb root False (dst + ?n) ?src (mx - ?n) st m1 = Some (r, m')"
            "?R (dst + ?n) ?src (mx - ?n) m1 r m'"
          using less.hyps [OF bytes_in_page_less [OF pos] S] by blast
        have "?R dst src mx m r m'"
        proof (rule string_copied_step [OF less.prems unat_rest(2) [of src] _ _ c1])
          show "\<forall>i<unat ?n. readable pb st root (src + of_nat i)" "\<forall>i<unat ?n. m (kaddr pb st root (src + of_nat i)) \<noteq> 0"
            using pg i(1) by simp_all
          show "string_copied (\<lambda>i. readable pb st root (src + of_nat (unat ?n + i)))
              (\<lambda>i. dst + of_nat (unat ?n + i)) (\<lambda>i. kaddr pb st root (src + of_nat (unat ?n + i))) (unat mx - unat ?n) m1 r m'"
            unfolding unat_rest(1) [symmetric] by (rule string_copied_cong [OF I(2)]) (simp_all only: idx)
        qed
        then show ?thesis using I(1) ng unfolding step i(2,3) by simp
      qed
    qed
  qed
qed

lemma separate_buffer:
  fixes n :: u64
  assumes "\<forall>i<unat n. \<forall>j<unat n. P i \<longrightarrow> g i \<noteq> dst + of_nat j"
  shows "separate P (\<lambda>i. dst + of_nat i) g (unat n)"
  unfolding separate_def
proof (intro allI impI conjI)
  fix i j assume ij: "i < unat n" "j < unat n" "P i \<and> P j"
  then show "dst + of_nat i \<noteq> g j" using assms by metis
  assume "dst + of_nat i = dst + of_nat j"
  moreover have "i < 2 ^ 64" "j < 2 ^ 64" using ij unat_bound_u64 [of n] by linarith+
  ultimately show "i = j" using of_nat_inj_u64 by blast
qed

lemma prefix_copied_all:
  assumes "prefix_copied P f g N m r m'" "\<forall>i<N. P i"
  shows "r = 0" "copied f g N m m'"
proof -
  obtain k where k: "k \<le> N" "k < N \<longrightarrow> \<not> P k" "copied f g k m m'" "r = (if k = N then 0 else -1)"
    using assms(1) unfolding prefix_copied_def by (elim exE conjE)
  have "k = N" using k(1,2) assms(2) by (cases "k < N") auto
  then show "r = 0" "copied f g N m m'" using k(3,4) by simp_all
qed

section \<open>Properties\<close>

lemma example_uaddr:
  assumes "entry 0x80000000 st root 0x400000 = example_leaf" "unat va div 4096 = 0x400"
  shows "uaddr 0x80000000 st root va = Some (phys_to_virt 0x80000000 0x90000000 + of_nat (unat va mod 4096), True)"
proof -
  have va: "unat va = 0x400000 + unat va mod 4096" using mult_div_mod_eq [of 4096 "unat va"] assms(2) by simp
  have "unat (va mod PAGE_BYTES) = unat va mod 4096" by (rule page_offset(2))
  moreover have "of_nat (unat (va mod PAGE_BYTES)) = va mod PAGE_BYTES" by simp
  ultimately have o: "va mod PAGE_BYTES = of_nat (unat va mod 4096)" by simp
  have "unat (0x400000 + va mod PAGE_BYTES) = 0x400000 + unat va mod 4096"
    by (subst unat_add_u64) (simp_all add: page_offset(2) less_trans [OF mod_less_divisor])
  then have "va = 0x400000 + va mod PAGE_BYTES" using va by (simp only: unat_inj_u64 [symmetric])
  then have d: "PAGE_DOWN va = 0x400000" by (metis PAGE_DOWN_eq add_diff_cancel_right')
  have v: "PTE_IS_VALID_USER example_leaf" "PTE_GET_PA example_leaf = 0x90000000" "PTE_IS_WRITEABLE example_leaf"
    unfolding example_leaf_def by code_simp+
  have "VA_IS_IN_RANGE_FOR_USER 0x400000" by (simp add: VA_IS_IN_RANGE_FOR_USER_def USER_VA_END_def)
  then show ?thesis using assms(1) v o d page_offset(1) [of va] by (simp add: uaddr_def Let_def)
qed

lemma example_bytes:
  assumes "entry 0x80000000 st root 0x400000 = example_leaf" "i < 16"
  shows "uaddr 0x80000000 st root (0x400010 + of_nat i) = Some (0xFFFFFFC010000010 + of_nat i, True)"
proof -
  have "unat (0x400010 + of_nat i :: u64) = 0x400010 + i"
    using assms(2) by (subst unat_add_u64) (simp_all add: unat_of_nat)
  moreover from this have "unat (0x400010 + of_nat i :: u64) div 4096 = 0x400" "unat (0x400010 + of_nat i :: u64) mod 4096 = 16 + i"
    using assms(2) by (simp_all add: div_nat_eqI mod_nat_eqI)
  ultimately show ?thesis
    using example_uaddr [OF assms(1), of "0x400010 + of_nat i"] by (simp add: phys_to_virt_def PAGE_OFFSET_def add.assoc [symmetric])
qed

lemma example_apart:
  assumes "i < 16" "j < 16" "(a + 0x100 :: u64) < 0xFFFFFFC010000000" "a < a + 0x100"
  shows "0xFFFFFFC010000010 + of_nat i \<noteq> a + of_nat j"
    "0xFFFFFFC010000010 + of_nat i = (0xFFFFFFC010000010 + of_nat j :: u64) \<longleftrightarrow> i = j"
proof -
  show "0xFFFFFFC010000010 + of_nat i \<noteq> a + of_nat j"
  proof
    assume e: "0xFFFFFFC010000010 + of_nat i = a + of_nat j"
    have "unat (0xFFFFFFC010000010 + of_nat i :: u64) = 0xFFFFFFC010000010 + i"
      using assms(1) by (subst unat_add_u64) (simp_all add: unat_of_nat)
    moreover have "unat a + 0x100 < 2 ^ 64" using assms(4) by (simp add: word_less_nat_alt unat_plus_if_size word_size split: if_splits)
    then have "unat (a + of_nat j) = unat a + j" "unat (a + 0x100) = unat a + 0x100"
      using assms(2) by (simp_all add: unat_add_u64 unat_of_nat)
    ultimately show False using e assms(2,3) by (simp add: word_less_nat_alt)
  qed
  show "0xFFFFFFC010000010 + of_nat i = (0xFFFFFFC010000010 + of_nat j :: u64) \<longleftrightarrow> i = j"
    by (rule of_nat_inj_u64) (use assms(1,2) in simp_all)
qed

text \<open>
  C29: \<^verbatim>\<open>uvm_copy_out\<close> of any length, across pages, returns 0 exactly if every byte of the
  destination is mapped for the user and writable; it copies exactly the bytes in front of the
  first one that is not, and changes no other byte of memory.
\<close>

theorem uvm_copy_out_writes_user_memory:
  assumes "vm_inv pb U root st L"
    "\<forall>i<unat len. \<forall>j<unat len. readable pb st root (dst + of_nat i) \<and> readable pb st root (dst + of_nat j) \<longrightarrow>
       (kaddr pb st root (dst + of_nat i) = kaddr pb st root (dst + of_nat j) \<longrightarrow> i = j) \<and>
       kaddr pb st root (dst + of_nat i) \<noteq> src + of_nat j"
  shows "\<exists>r m' k. uvm_copy_out pb root dst src len st m = Some (r, m') \<and> k \<le> unat len \<and>
    (r = 0 \<longleftrightarrow> k = unat len) \<and> (r = -1 \<longleftrightarrow> k < unat len) \<and>
    (\<forall>i<k. writable pb st root (dst + of_nat i)) \<and> (k < unat len \<longrightarrow> \<not> writable pb st root (dst + of_nat k)) \<and>
    (\<forall>i<k. m' (kaddr pb st root (dst + of_nat i)) = m (src + of_nat i)) \<and>
    (\<forall>x. (\<forall>i<k. x \<noteq> kaddr pb st root (dst + of_nat i)) \<longrightarrow> m' x = m x)"
proof -
  have sep: "separate (\<lambda>i. writable pb st root (dst + of_nat i)) (\<lambda>i. kaddr pb st root (dst + of_nat i)) (\<lambda>i. src + of_nat i) (unat len)"
    unfolding separate_def
  proof (intro allI impI)
    fix i j assume "i < unat len" "j < unat len" "writable pb st root (dst + of_nat i) \<and> writable pb st root (dst + of_nat j)"
    moreover from this have "readable pb st root (dst + of_nat i)" "readable pb st root (dst + of_nat j)" by auto
    ultimately show "(kaddr pb st root (dst + of_nat i) = kaddr pb st root (dst + of_nat j) \<longrightarrow> i = j) \<and>
        kaddr pb st root (dst + of_nat i) \<noteq> src + of_nat j" using assms(2) by blast
  qed
  obtain r m' where r: "uvm_copy_out pb root dst src len st m = Some (r, m')"
      "prefix_copied (\<lambda>i. writable pb st root (dst + of_nat i)) (\<lambda>i. kaddr pb st root (dst + of_nat i)) (\<lambda>i. src + of_nat i) (unat len) m r m'"
    using uvm_copy_out_ok [OF assms(1) sep, of m] by (elim exE conjE)
  then obtain k where k: "k \<le> unat len" "\<forall>i<k. writable pb st root (dst + of_nat i)"
      "k < unat len \<longrightarrow> \<not> writable pb st root (dst + of_nat k)" "r = (if k = unat len then 0 else -1)"
      "copied (\<lambda>i. kaddr pb st root (dst + of_nat i)) (\<lambda>i. src + of_nat i) k m m'"
    unfolding prefix_copied_def by (elim exE conjE)
  have "(r = 0 \<longleftrightarrow> k = unat len) \<and> (r = -1 \<longleftrightarrow> k < unat len)" using k(1,4) by (auto split: if_splits)
  then show ?thesis using r(1) k(1-3) k(5) [unfolded copied_def]
    by (elim conjE) (rule exI [of _ r], rule exI [of _ m'], rule exI [of _ k], intro conjI)
qed

theorem uvm_copy_out_writes_user_memory_witness:
  "\<exists>st root m'. uvm_copy_out 0x80000000 root 0x400010 0x5000 16 st (\<lambda>_. 7) = Some (0, m') \<and> m' 0xFFFFFFC010000010 = 7"
proof -
  obtain st root L where t: "vm_inv 0x80000000 {0x1000..<0x5000} root st L" "entry 0x80000000 st root 0x400000 = example_leaf"
    using example_mapped by (elim exE conjE)
  note B = example_bytes [OF t(2)]
  have "\<forall>i<unat (16 :: u64). \<forall>j<unat (16 :: u64).
      readable 0x80000000 st root (0x400010 + of_nat i) \<and> readable 0x80000000 st root (0x400010 + of_nat j) \<longrightarrow>
       (kaddr 0x80000000 st root (0x400010 + of_nat i) = kaddr 0x80000000 st root (0x400010 + of_nat j) \<longrightarrow> i = j) \<and>
       kaddr 0x80000000 st root (0x400010 + of_nat i) \<noteq> 0x5000 + of_nat j"
    using example_apart [of _ _ "0x5000"] by (simp add: B)
  from uvm_copy_out_writes_user_memory [OF t(1) this, of "\<lambda>_. 7"]
  obtain r m' k where k: "uvm_copy_out 0x80000000 root 0x400010 0x5000 16 st (\<lambda>_. 7) = Some (r, m')" "k \<le> 16"
      "r = 0 \<longleftrightarrow> k = 16" "k < 16 \<longrightarrow> \<not> writable 0x80000000 st root (0x400010 + of_nat k)"
      "\<forall>i<k. m' (kaddr 0x80000000 st root (0x400010 + of_nat i)) = 7" by (elim exE conjE) simp
  have "k = 16" using k(2,4) B [of k] by fastforce
  moreover have "m' 0xFFFFFFC010000010 = 7" using k(5) B [of 0] \<open>k = 16\<close> by force
  ultimately show ?thesis using k(1,3) by (intro exI [of _ st] exI [of _ root] exI [of _ m']) simp
qed

text \<open>
  C30: bytes copied out to writable user memory and back in to another buffer are the bytes of the
  first buffer.
\<close>

theorem uvm_copy_roundtrip:
  assumes "vm_inv pb U root st L" "\<forall>i<unat len. writable pb st root (va + of_nat i)"
    "\<forall>i<unat len. \<forall>j<unat len. kaddr pb st root (va + of_nat i) = kaddr pb st root (va + of_nat j) \<longrightarrow> i = j"
    "\<forall>i<unat len. \<forall>j<unat len. kaddr pb st root (va + of_nat i) \<noteq> src + of_nat j \<and> kaddr pb st root (va + of_nat i) \<noteq> buf + of_nat j"
  shows "\<exists>m1 m2. uvm_copy_out pb root va src len st m = Some (0, m1) \<and>
    uvm_copy_in pb root buf va len st m1 = Some (0, m2) \<and> (\<forall>i<unat len. m2 (buf + of_nat i) = m (src + of_nat i))"
proof -
  let ?f = "\<lambda>i. kaddr pb st root (va + of_nat i)" and ?N = "unat len"
  have rd: "readable pb st root (va + of_nat i)" if "i < ?N" for i using assms(2) [rule_format, OF that] by auto
  have "separate (\<lambda>i. writable pb st root (va + of_nat i)) ?f (\<lambda>i. src + of_nat i) ?N"
    unfolding separate_def by (intro allI impI conjI) (simp_all add: assms(3,4))
  from uvm_copy_out_ok [OF assms(1) this, of m]
  obtain r1 m1 where 1: "uvm_copy_out pb root va src len st m = Some (r1, m1)"
      "prefix_copied (\<lambda>i. writable pb st root (va + of_nat i)) ?f (\<lambda>i. src + of_nat i) ?N m r1 m1" by (elim exE conjE)
  have "separate (\<lambda>i. readable pb st root (va + of_nat i)) (\<lambda>i. buf + of_nat i) ?f ?N"
    by (rule separate_buffer) (simp add: assms(4))
  from uvm_copy_in_ok [OF assms(1) this, of m1]
  obtain r2 m2 where 2: "uvm_copy_in pb root buf va len st m1 = Some (r2, m2)"
      "prefix_copied (\<lambda>i. readable pb st root (va + of_nat i)) (\<lambda>i. buf + of_nat i) ?f ?N m1 r2 m2" by (elim exE conjE)
  have "r1 = 0" "copied ?f (\<lambda>i. src + of_nat i) ?N m m1" using prefix_copied_all [OF 1(2) assms(2)] by simp_all
  moreover have "\<forall>i<?N. readable pb st root (va + of_nat i)" using rd by blast
  then have "r2 = 0" "copied (\<lambda>i. buf + of_nat i) ?f ?N m1 m2" using prefix_copied_all [OF 2(2)] by simp_all
  ultimately show ?thesis using 1(1) 2(1) unfolding copied_def by (intro exI [of _ m1] exI [of _ m2]) simp
qed

theorem uvm_copy_roundtrip_witness:
  "\<exists>st root m1 m2. uvm_copy_out 0x80000000 root 0x400010 0x5000 16 st (\<lambda>a. of_nat (unat a)) = Some (0, m1) \<and>
     uvm_copy_in 0x80000000 root 0x6000 0x400010 16 st m1 = Some (0, m2) \<and> m2 0x6003 = 3"
proof -
  obtain st root L where t: "vm_inv 0x80000000 {0x1000..<0x5000} root st L" "entry 0x80000000 st root 0x400000 = example_leaf"
    using example_mapped by (elim exE conjE)
  note B = example_bytes [OF t(2)]
  have 1: "\<forall>i<unat (16 :: u64). writable 0x80000000 st root (0x400010 + of_nat i)" by (simp add: B)
  have 2: "\<forall>i<unat (16 :: u64). \<forall>j<unat (16 :: u64).
      kaddr 0x80000000 st root (0x400010 + of_nat i) = kaddr 0x80000000 st root (0x400010 + of_nat j) \<longrightarrow> i = j"
    using example_apart(2) [of _ _ "0x5000"] by (simp add: B)
  have 3: "\<forall>i<unat (16 :: u64). \<forall>j<unat (16 :: u64). kaddr 0x80000000 st root (0x400010 + of_nat i) \<noteq> 0x5000 + of_nat j \<and>
      kaddr 0x80000000 st root (0x400010 + of_nat i) \<noteq> 0x6000 + of_nat j"
    using example_apart(1) [of _ _ "0x5000"] example_apart(1) [of _ _ "0x6000"] by (simp add: B)
  obtain m1 m2 where m: "uvm_copy_out 0x80000000 root 0x400010 0x5000 16 st (\<lambda>a. of_nat (unat a)) = Some (0, m1)"
      "uvm_copy_in 0x80000000 root 0x6000 0x400010 16 st m1 = Some (0, m2)"
      "\<forall>i<unat (16 :: u64). m2 (0x6000 + of_nat i) = of_nat (unat (0x5000 + of_nat i :: u64))"
    using uvm_copy_roundtrip [OF t(1) 1 2 3, of "\<lambda>a. of_nat (unat a)"] by (elim exE conjE)
  have "m2 0x6003 = 3" using m(3) [rule_format, of 3] by simp
  then show ?thesis using m(1,2) by (intro exI conjI)
qed

text \<open>
  C31: \<^verbatim>\<open>uvm_copy_in_str\<close> ends, never writes outside of the \<open>max\<close> bytes of the buffer, returns 0
  exactly if the user string, its final zero included, lies within \<open>max\<close> readable bytes, and then
  the buffer holds it with its final zero.
\<close>

theorem uvm_copy_in_str_bounded:
  assumes "vm_inv pb U root st L"
    "\<forall>i<unat mx. \<forall>j<unat mx. readable pb st root (src + of_nat i) \<longrightarrow> kaddr pb st root (src + of_nat i) \<noteq> dst + of_nat j"
  shows "\<exists>r m'. uvm_copy_in_str pb root dst src mx st m = Some (r, m') \<and>
    (\<forall>x. (\<forall>i<unat mx. x \<noteq> dst + of_nat i) \<longrightarrow> m' x = m x) \<and> (r = 0 \<or> r = -1) \<and>
    (r = 0 \<longleftrightarrow> (\<exists>l<unat mx. string_at (\<lambda>i. readable pb st root (src + of_nat i)) (\<lambda>i. kaddr pb st root (src + of_nat i)) m l)) \<and>
    (\<forall>l<unat mx. string_at (\<lambda>i. readable pb st root (src + of_nat i)) (\<lambda>i. kaddr pb st root (src + of_nat i)) m l \<longrightarrow>
       (\<forall>i\<le>l. m' (dst + of_nat i) = m (kaddr pb st root (src + of_nat i))))"
proof -
  let ?P = "\<lambda>i. readable pb st root (src + of_nat i)" and ?g = "\<lambda>i. kaddr pb st root (src + of_nat i)" and ?N = "unat mx"
  have "separate ?P (\<lambda>i. dst + of_nat i) ?g ?N" by (rule separate_buffer [OF assms(2)])
  from copy_in_str_ok [OF assms(1) this, of m]
  obtain r m' where r: "uvm_copy_in_str pb root dst src mx st m = Some (r, m')"
      "string_copied ?P (\<lambda>i. dst + of_nat i) ?g ?N m r m'" unfolding uvm_copy_in_str_def by (elim exE conjE)
  have frame: "\<forall>x. (\<forall>i<?N. x \<noteq> dst + of_nat i) \<longrightarrow> m' x = m x" if "copied (\<lambda>i. dst + of_nat i) ?g k m m'" "k \<le> ?N" for k
    using that unfolding copied_def by simp
  from r(2) consider (str) l where "l < ?N" "string_at ?P ?g m l" "r = 0" "copied (\<lambda>i. dst + of_nat i) ?g (Suc l) m m'"
    | (no) k where "r = -1" "\<forall>l<?N. \<not> string_at ?P ?g m l" "k \<le> ?N" "copied (\<lambda>i. dst + of_nat i) ?g k m m'"
    unfolding string_copied_def by blast
  then show ?thesis
  proof cases
    case str
    have "m' (dst + of_nat i) = m (?g i)" if "string_at ?P ?g m l'" "i \<le> l'" for l' i
    proof -
      have "l' = l" using that(1) str(2) unfolding string_at_def by (cases l' l rule: linorder_cases) blast+
      then show ?thesis using str(4) that(2) unfolding copied_def by simp
    qed
    then have "\<forall>l'<?N. string_at ?P ?g m l' \<longrightarrow> (\<forall>i\<le>l'. m' (dst + of_nat i) = m (?g i))" by blast
    moreover have "\<exists>l<?N. string_at ?P ?g m l" using str(1,2) by blast
    ultimately show ?thesis using r(1) frame [OF str(4)] str(1,3) by (intro exI [of _ r] exI [of _ m'] conjI) simp_all
  next
    case no
    then show ?thesis using r(1) frame [OF no(4,3)] by (intro exI [of _ r] exI [of _ m'] conjI) simp_all
  qed
qed

theorem uvm_copy_in_str_bounded_witness:
  "\<exists>st root m'. uvm_copy_in_str 0x80000000 root 0x5000 0x400010 16 st (\<lambda>a. if a = 0xFFFFFFC010000012 then 0 else 7) = Some (0, m')"
proof -
  obtain st root L where t: "vm_inv 0x80000000 {0x1000..<0x5000} root st L" "entry 0x80000000 st root 0x400000 = example_leaf"
    using example_mapped by (elim exE conjE)
  note B = example_bytes [OF t(2)]
  let ?m = "\<lambda>a :: u64. if a = 0xFFFFFFC010000012 then 0 else 7 :: byte"
  have 1: "\<forall>i<unat (16 :: u64). \<forall>j<unat (16 :: u64). readable 0x80000000 st root (0x400010 + of_nat i) \<longrightarrow>
      kaddr 0x80000000 st root (0x400010 + of_nat i) \<noteq> 0x5000 + of_nat j"
    using example_apart(1) [of _ _ "0x5000"] by (simp add: B)
  have "string_at (\<lambda>i. readable 0x80000000 st root (0x400010 + of_nat i)) (\<lambda>i. kaddr 0x80000000 st root (0x400010 + of_nat i)) ?m 2"
  proof -
    have "i = 0 \<or> i = 1 \<or> i = 2" if "i \<le> 2" for i :: nat using that by linarith
    moreover have "i = 0 \<or> i = 1" if "i < 2" for i :: nat using that by linarith
    ultimately show ?thesis unfolding string_at_def using B [of 0] B [of 1] B [of 2] by fastforce
  qed
  then have "\<exists>l<unat (16 :: u64). string_at (\<lambda>i. readable 0x80000000 st root (0x400010 + of_nat i))
      (\<lambda>i. kaddr 0x80000000 st root (0x400010 + of_nat i)) ?m l" by (intro exI [of _ 2]) simp
  moreover obtain r m' where r: "uvm_copy_in_str 0x80000000 root 0x5000 0x400010 16 st ?m = Some (r, m')"
      "r = 0 \<longleftrightarrow> (\<exists>l<unat (16 :: u64). string_at (\<lambda>i. readable 0x80000000 st root (0x400010 + of_nat i))
         (\<lambda>i. kaddr 0x80000000 st root (0x400010 + of_nat i)) ?m l)"
    using uvm_copy_in_str_bounded [OF t(1) 1, of ?m] by (elim exE conjE)
  ultimately have "r = 0" by (simp only:)
  then show ?thesis using r(1) by (intro exI) (simp only:)
qed

end
