(* ===== verification/Page_Table.thy ===== *)
theory Page_Table
  imports Uvm Memory_Map
begin

text \<open>
  Page tables with their memory maps: \<^verbatim>\<open>kernel/mm/page_table.c\<close>, the heap and stack
  functions of \<^verbatim>\<open>kernel/mm/vm.c\<close> and the callers of \<^verbatim>\<open>kernel/kernel/proc.c\<close>. The
  state is the page tables and the page allocator of theory Vm, the bytes of memory of theory Uvm
  and the region list of the page table. Calls of \<^verbatim>\<open>kmalloc\<close> for a region of the map are an
  argument \<open>kok\<close>: whether the call for the region at a virtual address succeeds. \<open>None\<close> is a
  panic, the use of a freed region, or a loop without end.
\<close>

section \<open>The code\<close>

record page_table =
  pt_root :: u64
  pt_map :: "mm_region list"

text \<open>
  The calls of \<^verbatim>\<open>free_pages_range\<close> that theory Memory_Map logs, which have no result.
\<close>

definition free_logged :: "u64 \<Rightarrow> freed \<Rightarrow> vm \<Rightarrow> vm" where
  "free_logged pb fr st =
     st\<lparr>vpages := fold (\<lambda>(pa, n). free_pages_range (unat (phys_to_virt pb pa)) (unat n)) fr (vpages st)\<rparr>"

text \<open>\<open>ok\<close> is whether \<^verbatim>\<open>kmalloc\<close> of the struct succeeds.\<close>

definition page_table_alloc_init :: "bool \<Rightarrow> vm \<Rightarrow> page_table option \<times> vm" where
  "page_table_alloc_init ok st =
     (if \<not> ok then (None, st)
      else case alloc_page st of
             (None, st1) \<Rightarrow> (None, st1)
           | (Some root, st1) \<Rightarrow> (Some \<lparr>pt_root = root, pt_map = []\<rparr>, st1))"

definition page_table_free ::
  "nat \<Rightarrow> u64 \<Rightarrow> (u64 \<Rightarrow> bool) \<Rightarrow> (u64 \<Rightarrow> bool) \<Rightarrow> page_table \<Rightarrow> vm \<Rightarrow> vm option" where
  "page_table_free fuel pb in_ram_pa in_ram_kva p st =
     (case memory_map_free (pt_map p) of
        (fr, rs) \<Rightarrow>
          let st1 = free_logged pb fr st in
          if pt_root p \<noteq> 0 then vm_free_pgtable fuel pb in_ram_pa in_ram_kva (pt_root p) st1 else Some st1)"

definition page_table_map_region :: "u64 \<Rightarrow> u64 \<Rightarrow> mm_region \<Rightarrow> vm \<Rightarrow> (int \<times> mm_region \<times> vm) option" where
  "page_table_map_region pb root r st =
     (let flags = mm_region_get_pte r in
      if flags = 0 then Some (0, r, st)
      else case vm_map pb root (start_va r) (start_pa r) (rsize r) flags False st of
             None \<Rightarrow> None
           | Some (e, st1) \<Rightarrow>
               if e \<noteq> 0 then Some (- ENOMEM, r, st1)
               else Some (0, r\<lparr>mapped := MM_REGION_PARTIAL_MAPPED\<rparr>, st1))"

text \<open>The first loop of \<^verbatim>\<open>page_table_apply_mapping\<close>.\<close>

fun map_regions :: "u64 \<Rightarrow> u64 \<Rightarrow> mm_region list \<Rightarrow> vm \<Rightarrow> (int \<times> mm_region list \<times> vm) option" where
  "map_regions pb root [] st = Some (0, [], st)"
| "map_regions pb root (r # rs) st =
     (case (if mapped r = MM_REGION_MARKED_FOR_MAPPING then page_table_map_region pb root r st else Some (0, r, st)) of
        None \<Rightarrow> None
      | Some (err, r1, st1) \<Rightarrow>
          if err < 0 then Some (err, r1 # rs, st1)
          else case map_regions pb root rs st1 of
                 None \<Rightarrow> None
               | Some (err2, rs2, st2) \<Rightarrow> Some (err2, r1 # rs2, st2))"

text \<open>
  \<^verbatim>\<open>mm_region_remove\<close> through a pointer; the pointer is \<open>None\<close> once the region is freed. A use
  of it then is told apart from a panic of \<^verbatim>\<open>vm_unmap\<close>.
\<close>

datatype fault = Panic | Use_After_Free

fun remove_region :: "u64 \<Rightarrow> mm_region option \<Rightarrow> vm \<Rightarrow> fault + mm_region option \<times> vm" where
  "remove_region pb None st = Inl Use_After_Free"
| "remove_region pb (Some r) st = Inr (None, free_logged pb (mm_region_remove r) st)"

definition page_table_unmap_region ::
  "u64 \<Rightarrow> u64 \<Rightarrow> mm_region \<Rightarrow> vm \<Rightarrow> fault + mm_region option \<times> vm" where
  "page_table_unmap_region pb root r st =
     (case vm_unmap pb root (start_va r) (unat (rsize r div PAGE_BYTES)) False st of
        None \<Rightarrow> Inl Panic
      | Some st1 \<Rightarrow> remove_region pb (Some r) st1)"

fun page_table_unmap_partial_mappings ::
  "u64 \<Rightarrow> u64 \<Rightarrow> mm_region list \<Rightarrow> vm \<Rightarrow> fault + mm_region list \<times> vm" where
  "page_table_unmap_partial_mappings pb root [] st = Inr ([], st)"
| "page_table_unmap_partial_mappings pb root (r # rs) st =
     (case (if mapped r = MM_REGION_PARTIAL_MAPPED then
              case page_table_unmap_region pb root r st of
                Inl f \<Rightarrow> Inl f | Inr (region, st1) \<Rightarrow> remove_region pb region st1
            else if mapped r = MM_REGION_MARKED_FOR_MAPPING then remove_region pb (Some r) st
            else Inr (Some r, st)) of
        Inl f \<Rightarrow> Inl f
      | Inr (region, st1) \<Rightarrow>
          (case page_table_unmap_partial_mappings pb root rs st1 of
             Inl f \<Rightarrow> Inl f
           | Inr (rs2, st2) \<Rightarrow> Inr (case region of None \<Rightarrow> rs2 | Some r1 \<Rightarrow> r1 # rs2, st2)))"

text \<open>The second loop of \<^verbatim>\<open>page_table_apply_mapping\<close>.\<close>

definition finalize_region :: "mm_region \<Rightarrow> mm_region" where
  "finalize_region r = (if mapped r = MM_REGION_PARTIAL_MAPPED then r\<lparr>mapped := MM_REGION_MAPPED\<rparr> else r)"

definition page_table_apply_mapping ::
  "u64 \<Rightarrow> u64 \<Rightarrow> mm_region list \<Rightarrow> vm \<Rightarrow> (int \<times> mm_region list \<times> vm) option" where
  "page_table_apply_mapping pb root rs st =
     (case map_regions pb root rs st of
        None \<Rightarrow> None
      | Some (err, rs1, st1) \<Rightarrow>
          if err \<ge> 0 then Some (err, map finalize_region rs1, st1)
          else case page_table_unmap_partial_mappings pb root rs1 st1 of
                 Inl f \<Rightarrow> None
               | Inr (rs2, st2) \<Rightarrow> Some (err, rs2, st2))"

definition page_table_unmap_range ::
  "u64 \<Rightarrow> u64 \<Rightarrow> u64 \<Rightarrow> u64 \<Rightarrow> mm_region list \<Rightarrow> vm \<Rightarrow> (mm_region list \<times> vm) option" where
  "page_table_unmap_range pb root start sz rs st =
     (case vm_unmap pb root start (unat (sz div PAGE_BYTES)) False st of
        None \<Rightarrow> None
      | Some st1 \<Rightarrow>
          (case memory_map_remove_regions start sz rs of
             None \<Rightarrow> None
           | Some (fr, rs1) \<Rightarrow> Some (rs1, free_logged pb fr st1)))"

definition page_table_get_kvm_addr :: "u64 \<Rightarrow> u64 \<Rightarrow> u64 \<Rightarrow> vm \<Rightarrow> u64 option" where
  "page_table_get_kvm_addr pb root va st =
     (case vm_walk pb root va False st of
        None \<Rightarrow> None
      | Some (None, s, st1) \<Rightarrow> None
      | Some (Some l, s, st1) \<Rightarrow>
          let pte = pt st1 (fst l) (snd l) in
          if \<not> PTE_IS_VALID_NODE pte then None else Some (phys_to_virt pb (PTE_GET_PA pte)))"

text \<open>The bytes of a page that \<^verbatim>\<open>alloc_page(ALLOC_FLAG_ZERO_MEMORY)\<close> returns.\<close>

definition zero_page :: "u64 \<Rightarrow> kbytes \<Rightarrow> kbytes" where
  "zero_page p m = (\<lambda>a. if a - p < PAGE_BYTES then 0 else m a)"

text \<open>The loop of \<^verbatim>\<open>page_table_copy_from_region\<close>: error, last offset and the state after it.\<close>

partial_function (option) copy_region_loop ::
  "u64 \<Rightarrow> (u64 \<Rightarrow> bool) \<Rightarrow> u64 \<Rightarrow> mm_region \<Rightarrow> u64 \<Rightarrow> mm_region list \<Rightarrow> vm \<Rightarrow> kbytes \<Rightarrow>
   (int \<times> u64 \<times> mm_region list \<times> vm \<times> kbytes) option" where
  "copy_region_loop pb kok src_root src offset rs st m =
     (if offset < rsize src then
        case alloc_page st of
          (None, st1) \<Rightarrow> Some (- ENOMEM, offset, rs, st1, m)
        | (Some mem, st1) \<Rightarrow>
            let va = start_va src + offset in
            case page_table_get_kvm_addr pb src_root va st1 of
              None \<Rightarrow> None
            | Some kvm_addr \<Rightarrow>
                let m1 = move_bytes mem kvm_addr PAGE_BYTES (zero_page mem m) in
                (case mm_region_alloc_init (kok va) (virt_to_phys pb mem) va PAGE_BYTES (rtype src) of
                   None \<Rightarrow>
                     (case free_page mem st1 of
                        None \<Rightarrow> None
                      | Some st2 \<Rightarrow> Some (- ENOMEM, offset, rs, st2, m1))
                 | Some r \<Rightarrow>
                     copy_region_loop pb kok src_root src (offset + PAGE_BYTES)
                       (memory_map_add_single_region r rs) st1 m1)
      else Some (0, offset, rs, st, m))"

definition page_table_copy_from_region ::
  "u64 \<Rightarrow> (u64 \<Rightarrow> bool) \<Rightarrow> u64 \<Rightarrow> mm_region \<Rightarrow> mm_region list \<Rightarrow> vm \<Rightarrow> kbytes \<Rightarrow>
   (int \<times> mm_region list \<times> vm \<times> kbytes) option" where
  "page_table_copy_from_region pb kok src_root src rs st m =
     (case copy_region_loop pb kok src_root src 0 rs st m of
        None \<Rightarrow> None
      | Some (err, offset, rs1, st1, m1) \<Rightarrow>
          if err < 0 then
            case memory_map_remove_regions (start_va src) offset rs1 of
              None \<Rightarrow> None
            | Some (fr, rs2) \<Rightarrow> Some (err, rs2, free_logged pb fr st1, m1)
          else Some (err, rs1, st1, m1))"

text \<open>The loop of \<^verbatim>\<open>page_table_copy_on_fork\<close> over the regions of the source.\<close>

fun copy_regions ::
  "u64 \<Rightarrow> (u64 \<Rightarrow> bool) \<Rightarrow> u64 \<Rightarrow> mm_region list \<Rightarrow> mm_region list \<Rightarrow> vm \<Rightarrow> kbytes \<Rightarrow>
   (int \<times> mm_region list \<times> vm \<times> kbytes) option" where
  "copy_regions pb kok src_root [] rs st m = Some (0, rs, st, m)"
| "copy_regions pb kok src_root (r # srcs) rs st m =
     (if mapped r \<noteq> MM_REGION_MAPPED then copy_regions pb kok src_root srcs rs st m
      else if \<not> copy_on_fork (g_region_attributes (rtype r)) then copy_regions pb kok src_root srcs rs st m
      else case page_table_copy_from_region pb kok src_root r rs st m of
             None \<Rightarrow> None
           | Some (err, rs1, st1, m1) \<Rightarrow>
               if err < 0 then Some (err, rs1, st1, m1) else copy_regions pb kok src_root srcs rs1 st1 m1)"

definition page_table_copy_on_fork ::
  "u64 \<Rightarrow> (u64 \<Rightarrow> bool) \<Rightarrow> page_table \<Rightarrow> page_table \<Rightarrow> vm \<Rightarrow> kbytes \<Rightarrow>
   (int \<times> page_table \<times> vm \<times> kbytes) option" where
  "page_table_copy_on_fork pb kok dst src st m =
     (case copy_regions pb kok (pt_root src) (pt_map src) (pt_map dst) st m of
        None \<Rightarrow> None
      | Some (err, rs1, st1, m1) \<Rightarrow>
          if err < 0 then
            case memory_map_free rs1 of
              (fr, rs2) \<Rightarrow> Some (err, dst\<lparr>pt_map := rs2\<rparr>, free_logged pb fr st1, m1)
          else
            case page_table_apply_mapping pb (pt_root dst) rs1 st1 of
              None \<Rightarrow> None
            | Some (err2, rs2, st2) \<Rightarrow> Some (err2, dst\<lparr>pt_map := rs2\<rparr>, st2, m1))"

text \<open>The loop of \<^verbatim>\<open>uvm_alloc_heap\<close>; it returns the first address that is not allocated.\<close>

partial_function (option) heap_loop ::
  "u64 \<Rightarrow> (u64 \<Rightarrow> bool) \<Rightarrow> mm_region_type \<Rightarrow> u64 \<Rightarrow> u64 \<Rightarrow> mm_region list \<Rightarrow> vm \<Rightarrow> kbytes \<Rightarrow>
   (u64 \<times> mm_region list \<times> vm \<times> kbytes) option" where
  "heap_loop pb kok map_type va end_va rs st m =
     (if va < end_va then
        case alloc_page st of
          (None, st1) \<Rightarrow> Some (va, rs, st1, m)
        | (Some mem, st1) \<Rightarrow>
            let m1 = zero_page mem m in
            (case mm_region_alloc_init (kok va) (virt_to_phys pb mem) va PAGE_BYTES map_type of
               None \<Rightarrow> (case free_page mem st1 of None \<Rightarrow> None | Some st2 \<Rightarrow> Some (va, rs, st2, m1))
             | Some r \<Rightarrow>
                 heap_loop pb kok map_type (va + PAGE_BYTES) end_va (memory_map_add_single_region r rs) st1 m1)
      else Some (va, rs, st, m))"

definition uvm_alloc_heap ::
  "u64 \<Rightarrow> (u64 \<Rightarrow> bool) \<Rightarrow> page_table \<Rightarrow> u64 \<Rightarrow> u64 \<Rightarrow> mm_region_type \<Rightarrow> vm \<Rightarrow> kbytes \<Rightarrow>
   (u64 \<times> page_table \<times> vm \<times> kbytes) option" where
  "uvm_alloc_heap pb kok p start alloc_size map_type st m =
     (let end_va = start + alloc_size in
      case heap_loop pb kok map_type (PAGE_UP start) end_va (pt_map p) st m of
        None \<Rightarrow> None
      | Some (va, rs1, st1, m1) \<Rightarrow>
          if va < end_va then
            case page_table_unmap_partial_mappings pb (pt_root p) rs1 st1 of
              Inl f \<Rightarrow> None
            | Inr (rs2, st2) \<Rightarrow> Some (0, p\<lparr>pt_map := rs2\<rparr>, st2, m1)
          else
            case page_table_apply_mapping pb (pt_root p) rs1 st1 of
              None \<Rightarrow> None
            | Some (err, rs2, st2) \<Rightarrow> Some (if err < 0 then 0 else alloc_size, p\<lparr>pt_map := rs2\<rparr>, st2, m1))"

definition uvm_dealloc_heap ::
  "u64 \<Rightarrow> u64 \<Rightarrow> page_table \<Rightarrow> u64 \<Rightarrow> u64 \<Rightarrow> vm \<Rightarrow> (u64 \<times> page_table \<times> vm) option" where
  "uvm_dealloc_heap pb heap_begin p end_va dealloc_size st =
     (let new_end_va = end_va - dealloc_size in
      if new_end_va < heap_begin then Some (0, p, st)
      else
        let start_dealloc_va = PAGE_UP new_end_va;
            npages = (PAGE_UP end_va - start_dealloc_va) div PAGE_BYTES in
        if npages > 0 then
          case page_table_unmap_range pb (pt_root p) start_dealloc_va (npages * PAGE_BYTES) (pt_map p) st of
            None \<Rightarrow> None
          | Some (rs1, st1) \<Rightarrow> Some (dealloc_size, p\<lparr>pt_map := rs1\<rparr>, st1)
        else Some (dealloc_size, p, st))"

definition uvm_grow_stack ::
  "u64 \<Rightarrow> (u64 \<Rightarrow> bool) \<Rightarrow> page_table \<Rightarrow> u64 \<Rightarrow> vm \<Rightarrow> kbytes \<Rightarrow> (u64 \<times> page_table \<times> vm \<times> kbytes) option" where
  "uvm_grow_stack pb kok p stack_low st m =
     (case alloc_page st of
        (None, st1) \<Rightarrow> Some (0, p, st1, m)
      | (Some mem, st1) \<Rightarrow>
          let m1 = zero_page mem m; new_stack_low = stack_low - PAGE_BYTES in
          (case mm_region_alloc_init (kok new_stack_low) (virt_to_phys pb mem) new_stack_low PAGE_BYTES MM_REGION_USER_STACK of
             None \<Rightarrow> (case free_page mem st1 of None \<Rightarrow> None | Some st2 \<Rightarrow> Some (0, p, st2, m1))
           | Some r \<Rightarrow>
               (case page_table_apply_mapping pb (pt_root p) (memory_map_add_single_region r (pt_map p)) st1 of
                  None \<Rightarrow> None
                | Some (err, rs2, st2) \<Rightarrow>
                    Some (if err \<noteq> 0 then 0 else new_stack_low, p\<lparr>pt_map := rs2\<rparr>, st2, m1))))"

text \<open>
  The arguments of a process as the kernel addresses of the strings and their \<^verbatim>\<open>strlen\<close>; the loop
  returns the stack pointer and the \<^verbatim>\<open>ustack\<close> entries, or \<open>Inl\<close> when it gives up.
\<close>

definition MAX_EXEC_ARGS :: nat where "MAX_EXEC_ARGS = 32"

fun push_args ::
  "u64 \<Rightarrow> u64 \<Rightarrow> u64 \<Rightarrow> (u64 \<times> u64) list \<Rightarrow> nat \<Rightarrow> u64 \<Rightarrow> u64 list \<Rightarrow> vm \<Rightarrow> kbytes \<Rightarrow>
   ((unit + u64 \<times> u64 list) \<times> kbytes) option" where
  "push_args pb root stack_low [] argc sp ustack st m = Some (Inr (sp, ustack), m)"
| "push_args pb root stack_low ((a, len) # args) argc sp ustack st m =
     (if argc < MAX_EXEC_ARGS then
        let sp1 = sp - (len + 1); sp2 = sp1 - sp1 mod 16 in
        if sp2 < stack_low then Some (Inl (), m)
        else case uvm_copy_out pb root sp2 a (len + 1) st m of
               None \<Rightarrow> None
             | Some (e, m1) \<Rightarrow>
                 if e < 0 then Some (Inl (), m1)
                 else push_args pb root stack_low args (Suc argc) sp2 (ustack @ [sp2]) st m1
      else Some (Inr (sp, ustack), m))"

text \<open>The array \<^verbatim>\<open>ustack\<close> on the kernel stack, little endian.\<close>

definition store_words :: "u64 \<Rightarrow> u64 list \<Rightarrow> kbytes \<Rightarrow> kbytes" where
  "store_words base ws m =
     (\<lambda>a. let d = unat (a - base) in
          if d < 8 * length ws then ucast (drop_bit (8 * (d mod 8)) (ws ! (d div 8))) else m a)"

definition uvm_create_stack ::
  "u64 \<Rightarrow> (u64 \<Rightarrow> bool) \<Rightarrow> u64 \<Rightarrow> (u64 \<times> u64) list option \<Rightarrow> page_table \<Rightarrow> vm \<Rightarrow> kbytes \<Rightarrow>
   (int \<times> u64 \<times> u64 \<times> page_table \<times> vm \<times> kbytes) option" where
  "uvm_create_stack pb kok ustack_addr argv p st m =
     (case uvm_grow_stack pb kok p USER_STACK_HIGH st m of
        None \<Rightarrow> None
      | Some (stack_low, p1, st1, m1) \<Rightarrow>
          if stack_low = 0 then Some (-1, 0, 0, p1, st1, m1)
          else case argv of
                 None \<Rightarrow> Some (0, USER_STACK_HIGH, stack_low, p1, st1, m1)
               | Some args \<Rightarrow>
                   (case push_args pb (pt_root p1) stack_low args 0 USER_STACK_HIGH [] st1 m1 of
                      None \<Rightarrow> None
                    | Some (Inl u, m2) \<Rightarrow> Some (-1, 0, 0, p1, st1, m2)
                    | Some (Inr (sp, ustack), m2) \<Rightarrow>
                        let argc = length ustack in
                        if argc \<ge> MAX_EXEC_ARGS then Some (-1, 0, 0, p1, st1, m2)
                        else
                          let m3 = store_words ustack_addr (ustack @ [0]) m2;
                              len = of_nat ((argc + 1) * 8);
                              sp1 = sp - len;
                              sp2 = sp1 - sp1 mod 16 in
                          if sp2 < stack_low then Some (-1, 0, 0, p1, st1, m3)
                          else case uvm_copy_out pb (pt_root p1) sp2 ustack_addr len st1 m3 of
                                 None \<Rightarrow> None
                               | Some (e, m4) \<Rightarrow>
                                   if e < 0 then Some (-1, 0, 0, p1, st1, m4)
                                   else Some (int argc, sp2, stack_low, p1, st1, m4)))"

section \<open>The memory map and the tree\<close>

text \<open>The flags of the entries of a region, and what the entry of a page is to be.\<close>

definition leaf_flags :: "mm_region_type \<Rightarrow> u64" where
  "leaf_flags t = pte_flags (g_region_attributes t)"

definition page_in :: "mm_region_mapped set \<Rightarrow> mm_region list \<Rightarrow> u64 \<Rightarrow> u64 \<Rightarrow> mm_region_type \<Rightarrow> bool" where
  "page_in M rs va pa t \<longleftrightarrow>
     (\<exists>r\<in>set rs. lo r \<le> unat va \<and> unat va < hi r \<and> pa = start_pa r + (va - start_va r) \<and> t = rtype r \<and>
        mapped r \<in> M \<and> leaf_flags t \<noteq> 0)"

text \<open>The tree has exactly the pages of the regions in the states \<open>M\<close>.\<close>

definition agrees :: "mm_region_mapped set \<Rightarrow> u64 \<Rightarrow> vm \<Rightarrow> u64 \<Rightarrow> mm_region list \<Rightarrow> bool" where
  "agrees M pb st root rs \<longleftrightarrow>
     (\<forall>va. VA_IS_IN_RANGE va \<and> page_aligned va \<longrightarrow>
        (\<forall>pa t. page_in M rs va pa t \<longrightarrow> entry pb st root va = leaf_value pa (leaf_flags t OR PTE_MAP_DEFAULT_FLAGS)) \<and>
        ((\<forall>pa t. \<not> page_in M rs va pa t) \<longrightarrow> entry pb st root va = 0))"

definition in_va_range :: "mm_region list \<Rightarrow> bool" where
  "in_va_range rs \<longleftrightarrow> (\<forall>r\<in>set rs. \<forall>va. lo r \<le> unat va \<and> unat va < hi r \<longrightarrow> VA_IS_IN_RANGE va)"

lemma region_in_pages:
  assumes "region_ok r"
  shows "in_pages (start_va r) (unat (rsize r) div 4096) va \<longleftrightarrow> lo r \<le> unat va \<and> unat va < hi r"
    "unat (rsize r) = 4096 * (unat (rsize r) div 4096)" "0 < unat (rsize r) div 4096"
proof -
  note R = region_okD [OF assms]
  have "4096 dvd unat (rsize r)" "0 < unat (rsize r)"
    using assms by (simp_all add: region_ok_def page_aligned_unat word_less_nat_alt)
  then show n: "unat (rsize r) = 4096 * (unat (rsize r) div 4096)" "0 < unat (rsize r) div 4096"
    by (auto simp: div_greater_zero_iff dest: dvd_imp_le)
  have "unat (va - start_va r) < unat (rsize r) \<longleftrightarrow> lo r \<le> unat va \<and> unat va < hi r"
  proof (cases "lo r \<le> unat va")
    case True
    then show ?thesis by (simp add: unat_sub_u64 lo_def hi_def less_diff_conv2 add.commute)
  next
    case False
    then have "unat (va - start_va r) = unat va + 2 ^ 64 - lo r"
      by (simp add: unat_sub_if_size word_size lo_def)
    then show ?thesis using False R(2) by (simp add: hi_def lo_def)
  qed
  then show "in_pages (start_va r) (unat (rsize r) div 4096) va \<longleftrightarrow> lo r \<le> unat va \<and> unat va < hi r"
    unfolding in_pages_def n(1) [symmetric] .
qed

lemma region_range_ok:
  assumes "region_ok r" "in_va_range (r # rs)"
  shows "range_ok (start_va r) (unat (rsize r) div 4096)"
proof -
  have "lo r + unat (rsize r) < 2 ^ 64" using region_okD(2) [OF assms(1)] by (simp add: hi_def lo_def)
  then show ?thesis
    unfolding range_ok_def using assms region_in_pages [OF assms(1)]
    by (auto simp: region_ok_def in_va_range_def lo_def)
qed

lemma with_state [simp]:
  "lo (r\<lparr>mapped := s\<rparr>) = lo r" "hi (r\<lparr>mapped := s\<rparr>) = hi r" "pl (r\<lparr>mapped := s\<rparr>) = pl r"
  "region_ok (r\<lparr>mapped := s\<rparr>) = region_ok r"
  by (simp_all add: lo_def hi_def pl_def region_ok_def)

lemma map_ok_append:
  "map_ok (ds @ rs) \<longleftrightarrow> map_ok ds \<and> map_ok rs \<and> (\<forall>x\<in>set ds. \<forall>y\<in>set rs. hi x \<le> lo y)"
  by (auto simp: map_ok_def sorted_wrt_append)

lemma map_ok_unique:
  assumes "map_ok (ds @ r # rs)" "x \<in> set ds \<union> set rs" "lo r \<le> v" "v < hi r"
  shows "\<not> (lo x \<le> v \<and> v < hi x)"
proof -
  have "hi x \<le> lo r \<or> hi r \<le> lo x" using assms(1,2) unfolding map_ok_append by auto
  then show ?thesis using assms(3,4) by linarith
qed

lemma map_region_ok:
  assumes "vm_inv pb U root st L" "region_ok r" "in_va_range [r]" "leaf_flags (rtype r) \<noteq> 0"
    "\<forall>va. page_aligned va \<and> lo r \<le> unat va \<and> unat va < hi r \<longrightarrow> entry pb st root va = 0"
  shows "\<exists>err r' st'. page_table_map_region pb root r st = Some (err, r', st') \<and>
    vm_inv pb U root st' (L \<union> tables pb st' root) \<and>
    (err = 0 \<and> r' = r\<lparr>mapped := MM_REGION_PARTIAL_MAPPED\<rparr> \<and>
       (\<forall>va. VA_IS_IN_RANGE va \<and> page_aligned va \<longrightarrow> entry pb st' root va =
          (if lo r \<le> unat va \<and> unat va < hi r then leaf_value (start_pa r + (va - start_va r)) (leaf_flags (rtype r) OR PTE_MAP_DEFAULT_FLAGS)
           else entry pb st root va)) \<or>
     err = - ENOMEM \<and> free_set (vpages st') = {})"
proof -
  let ?n = "unat (rsize r) div 4096"
  note P = region_in_pages [OF assms(2)]
  have "\<not> PTE_IS_VALID_NODE 0" by (simp add: PTE_IS_VALID_NODE_def)
  then have z: "\<forall>va'. page_aligned va' \<and> in_pages (start_va r) ?n va' \<longrightarrow> \<not> PTE_IS_VALID_NODE (entry pb st root va')"
    using assms(5) unfolding P(1) by simp
  obtain e st' k where e: "vm_map pb root (start_va r) (start_pa r) (rsize r) (leaf_flags (rtype r)) False st = Some (e, st')"
      "vm_inv pb U root st' (L \<union> tables pb st' root)" "e = 0 \<and> k = ?n \<or> e = -1 \<and> k < ?n \<and> free_set (vpages st') = {}"
      "\<forall>va'. VA_IS_IN_RANGE va' \<and> page_aligned va' \<longrightarrow> entry pb st' root va' =
         (if in_pages (start_va r) k va' then PTE_MAKE_VALID_LEAF (PTE_BUILD (start_pa r + (va' - start_va r)) (leaf_flags (rtype r) OR PTE_MAP_DEFAULT_FLAGS))
          else entry pb st root va')"
    using vm_map_range [OF assms(1) region_range_ok [OF assms(2,3)] P(2,3) z, of "start_pa r" "leaf_flags (rtype r)"] by (elim exE conjE)
  have m: "page_table_map_region pb root r st =
      (if e \<noteq> 0 then Some (- ENOMEM, r, st') else Some (0, r\<lparr>mapped := MM_REGION_PARTIAL_MAPPED\<rparr>, st'))"
    using assms(4) e(1) by (simp add: page_table_map_region_def mm_region_get_pte_def leaf_flags_def)
  from e(3) show ?thesis
  proof (elim disjE conjE)
    assume "e = 0" "k = ?n"
    then show ?thesis using m e(2,4) unfolding leaf_value_def P(1) \<open>k = ?n\<close> by simp
  next
    assume "e = -1" "free_set (vpages st') = {}"
    then show ?thesis using m e(2) by simp
  qed
qed

lemma page_in_other:
  assumes "map_ok (ds @ r # rs)" "lo r \<le> unat va" "unat va < hi r"
  shows "page_in M (ds @ r # rs) va pa t \<longleftrightarrow>
    pa = start_pa r + (va - start_va r) \<and> t = rtype r \<and> mapped r \<in> M \<and> leaf_flags t \<noteq> 0"
  unfolding page_in_def using map_ok_unique [OF assms(1) _ assms(2,3)] assms(2,3) by (simp add: bex_Un) blast

lemma page_in_elsewhere:
  assumes "\<not> (lo r \<le> unat va \<and> unat va < hi r)" "lo r' = lo r" "hi r' = hi r"
  shows "page_in M (ds @ r # rs) va pa t = page_in M (ds @ r' # rs) va pa t"
  unfolding page_in_def using assms by auto

lemma agrees_step:
  assumes ag: "agrees M pb st root (ds @ r # rs)" and ok: "map_ok (ds @ r # rs)" and r': "r' = r\<lparr>mapped := s\<rparr>" "s \<in> M"
    and fl: "leaf_flags (rtype r) \<noteq> 0"
    and e: "\<forall>va. VA_IS_IN_RANGE va \<and> page_aligned va \<longrightarrow> entry pb st' root va =
          (if lo r \<le> unat va \<and> unat va < hi r then leaf_value (start_pa r + (va - start_va r)) (leaf_flags (rtype r) OR PTE_MAP_DEFAULT_FLAGS)
           else entry pb st root va)"
  shows "agrees M pb st' root (ds @ r' # rs)"
proof -
  have ok': "map_ok (ds @ r' # rs)" using ok r' by (simp add: map_ok_append)
  have "(\<forall>pa t. page_in M (ds @ r' # rs) va pa t \<longrightarrow> entry pb st' root va = leaf_value pa (leaf_flags t OR PTE_MAP_DEFAULT_FLAGS)) \<and>
      ((\<forall>pa t. \<not> page_in M (ds @ r' # rs) va pa t) \<longrightarrow> entry pb st' root va = 0)"
    if va: "VA_IS_IN_RANGE va" "page_aligned va" for va
  proof (cases "lo r \<le> unat va \<and> unat va < hi r")
    case True
    then have "page_in M (ds @ r' # rs) va pa t \<longleftrightarrow> pa = start_pa r + (va - start_va r) \<and> t = rtype r" for pa t
      using page_in_other [OF ok', of va M pa t] r' fl by auto
    then show ?thesis using e va True by simp
  next
    case False
    then have "page_in M (ds @ r' # rs) va pa t = page_in M (ds @ r # rs) va pa t" for pa t
      using page_in_elsewhere [of r va r'] r'(1) by simp
    moreover have "entry pb st' root va = entry pb st root va" using e [rule_format, of va] va False by (simp only: simp_thms if_False)
    ultimately show ?thesis using ag va unfolding agrees_def by simp
  qed
  then show ?thesis unfolding agrees_def by blast
qed

text \<open>What a successful first loop does to a region.\<close>

definition mark_partial :: "mm_region \<Rightarrow> mm_region" where
  "mark_partial r =
     (if mapped r = MM_REGION_MARKED_FOR_MAPPING \<and> leaf_flags (rtype r) \<noteq> 0
      then r\<lparr>mapped := MM_REGION_PARTIAL_MAPPED\<rparr> else r)"

abbreviation in_tree :: "mm_region_mapped set" where
  "in_tree \<equiv> {MM_REGION_MAPPED, MM_REGION_PARTIAL_MAPPED}"

lemma marked_unmapped:
  assumes "agrees in_tree pb st root (ds @ r # rs)" "map_ok (ds @ r # rs)" "in_va_range [r]" "mapped r = MM_REGION_MARKED_FOR_MAPPING"
  shows "\<forall>va. page_aligned va \<and> lo r \<le> unat va \<and> unat va < hi r \<longrightarrow> entry pb st root va = 0"
proof (intro allI impI)
  fix va assume va: "page_aligned va \<and> lo r \<le> unat va \<and> unat va < hi r"
  then have "VA_IS_IN_RANGE va" using assms(3) by (simp add: in_va_range_def)
  moreover have "\<not> page_in in_tree (ds @ r # rs) va pa t" for pa t
    using page_in_other [OF assms(2), of va in_tree pa t] va assms(4) by simp
  ultimately show "entry pb st root va = 0" using assms(1) va unfolding agrees_def by blast
qed

lemma map_regions_ok:
  assumes "vm_inv pb U root st L" "map_ok (ds @ rs)" "in_va_range rs" "agrees in_tree pb st root (ds @ rs)"
  shows "\<exists>err rs' st' L'. map_regions pb root rs st = Some (err, rs', st') \<and> vm_inv pb U root st' L' \<and> L \<subseteq> L' \<and>
    (err = 0 \<and> rs' = map mark_partial rs \<and> agrees in_tree pb st' root (ds @ rs') \<or>
     err = - ENOMEM \<and> free_set (vpages st') = {})"
  using assms
proof (induction rs arbitrary: ds st L)
  case Nil
  then show ?case by (intro exI [of _ 0] exI [of _ "[]"] exI [of _ st] exI [of _ L]) simp
next
  case (Cons r rs)
  have ok: "region_ok r" "map_ok ((ds @ [x]) @ rs) \<longleftrightarrow> map_ok (ds @ x # rs)" for x
    using Cons.prems(2) by (simp_all add: map_ok_append)
  have va: "in_va_range [r]" "in_va_range rs" using Cons.prems(3) by (simp_all add: in_va_range_def)
  have go: ?case if "(if mapped r = MM_REGION_MARKED_FOR_MAPPING then page_table_map_region pb root r st else Some (0, r, st)) = Some (0, mark_partial r, st1)"
      "vm_inv pb U root st1 L1" "L \<subseteq> L1" "agrees in_tree pb st1 root (ds @ mark_partial r # rs)" for st1 L1
  proof -
    have m: "map_ok (ds @ mark_partial r # rs)" using Cons.prems(2) by (simp add: map_ok_append mark_partial_def)
    from Cons.IH [OF that(2), of "ds @ [mark_partial r]"] m va(2) that(4)
    obtain err rs' st' L' where i: "map_regions pb root rs st1 = Some (err, rs', st')" "vm_inv pb U root st' L'" "L1 \<subseteq> L'"
        "err = 0 \<and> rs' = map mark_partial rs \<and> agrees in_tree pb st' root ((ds @ [mark_partial r]) @ rs') \<or>
         err = - ENOMEM \<and> free_set (vpages st') = {}" by auto
    then show ?thesis using that(1,3)
      by (intro exI [of _ err] exI [of _ "mark_partial r # rs'"] exI [of _ st'] exI [of _ L']) auto
  qed
  show ?case
  proof (cases "mapped r = MM_REGION_MARKED_FOR_MAPPING \<and> leaf_flags (rtype r) \<noteq> 0")
    case False
    then have "(if mapped r = MM_REGION_MARKED_FOR_MAPPING then page_table_map_region pb root r st else Some (0, r, st)) = Some (0, mark_partial r, st)"
      by (auto simp: mark_partial_def page_table_map_region_def mm_region_get_pte_def leaf_flags_def)
    then show ?thesis by (rule go [OF _ Cons.prems(1)]) (use False Cons.prems(4) in \<open>auto simp: mark_partial_def\<close>)
  next
    case True
    from map_region_ok [OF Cons.prems(1) ok(1) va(1) _ marked_unmapped [OF Cons.prems(4,2) va(1)]] True
    obtain err r' st1 where r: "page_table_map_region pb root r st = Some (err, r', st1)" "vm_inv pb U root st1 (L \<union> tables pb st1 root)"
      and c: "err = 0 \<and> r' = r\<lparr>mapped := MM_REGION_PARTIAL_MAPPED\<rparr> \<and>
       (\<forall>va. VA_IS_IN_RANGE va \<and> page_aligned va \<longrightarrow> entry pb st1 root va =
          (if lo r \<le> unat va \<and> unat va < hi r then leaf_value (start_pa r + (va - start_va r)) (leaf_flags (rtype r) OR PTE_MAP_DEFAULT_FLAGS)
           else entry pb st root va)) \<or> err = - ENOMEM \<and> free_set (vpages st1) = {}" by blast
    from c show ?thesis
    proof (elim disjE conjE)
      assume e: "err = 0" "r' = r\<lparr>mapped := MM_REGION_PARTIAL_MAPPED\<rparr>"
        "\<forall>va. VA_IS_IN_RANGE va \<and> page_aligned va \<longrightarrow> entry pb st1 root va =
          (if lo r \<le> unat va \<and> unat va < hi r then leaf_value (start_pa r + (va - start_va r)) (leaf_flags (rtype r) OR PTE_MAP_DEFAULT_FLAGS)
           else entry pb st root va)"
      have p: "mark_partial r = r'" using True e(2) by (simp add: mark_partial_def)
      have "agrees in_tree pb st1 root (ds @ mark_partial r # rs)"
        unfolding p by (rule agrees_step [OF Cons.prems(4,2) e(2) _ _ e(3)]) (use True in simp_all)
      then show ?thesis using r True e(1) p by (intro go [OF _ r(2)]) simp_all
    next
      assume "err = - ENOMEM" "free_set (vpages st1) = {}"
      then show ?thesis using r True
        by (intro exI [of _ err] exI [of _ "r' # rs"] exI [of _ st1] exI [of _ "L \<union> tables pb st1 root"]) simp
    qed
  qed
qed

lemma page_in_finalize: "page_in {MM_REGION_MAPPED} (map finalize_region rs) va pa t = page_in in_tree rs va pa t"
proof -
  have "lo (finalize_region r) = lo r" "hi (finalize_region r) = hi r" "start_pa (finalize_region r) = start_pa r"
    "start_va (finalize_region r) = start_va r" "rtype (finalize_region r) = rtype r"
    "mapped (finalize_region r) = MM_REGION_MAPPED \<longleftrightarrow> mapped r \<in> in_tree" for r
    by (auto simp: finalize_region_def)
  then show ?thesis unfolding page_in_def by simp
qed

lemma apply_mapping_ok:
  assumes "vm_inv pb U root st L" "map_ok rs" "in_va_range rs" "agrees {MM_REGION_MAPPED} pb st root rs"
    "\<forall>r\<in>set rs. mapped r \<noteq> MM_REGION_PARTIAL_MAPPED"
  shows "\<exists>err rs' st' L'. map_regions pb root rs st = Some (err, rs', st') \<and> vm_inv pb U root st' L' \<and> L \<subseteq> L' \<and>
    (err = 0 \<and> page_table_apply_mapping pb root rs st = Some (0, map (finalize_region \<circ> mark_partial) rs, st') \<and>
       agrees {MM_REGION_MAPPED} pb st' root (map (finalize_region \<circ> mark_partial) rs) \<or>
     err = - ENOMEM \<and> free_set (vpages st') = {})"
proof -
  have "page_in in_tree rs va pa t = page_in {MM_REGION_MAPPED} rs va pa t" for va pa t
    unfolding page_in_def using assms(5) by auto
  then have "agrees in_tree pb st root ([] @ rs)" using assms(4) unfolding agrees_def by simp
  from map_regions_ok [OF assms(1) _ assms(3) this] assms(2)
  obtain err rs' st' L' where r: "map_regions pb root rs st = Some (err, rs', st')" "vm_inv pb U root st' L'" "L \<subseteq> L'"
      "err = 0 \<and> rs' = map mark_partial rs \<and> agrees in_tree pb st' root ([] @ rs') \<or> err = - ENOMEM \<and> free_set (vpages st') = {}"
    by auto
  have "agrees {MM_REGION_MAPPED} pb st' root (map finalize_region rs')" if "agrees in_tree pb st' root rs'"
    using that unfolding agrees_def page_in_finalize .
  then show ?thesis using r
    by (intro exI [of _ err] exI [of _ rs'] exI [of _ st'] exI [of _ L']) (auto simp: page_table_apply_mapping_def)
qed

lemma page_in_map:
  assumes "map_ok rs"
  shows "page_in M rs va pa t \<longleftrightarrow>
    (\<exists>p s. (unat va, p, t, s) \<in> map_of_regions rs \<and> s \<in> M \<and> leaf_flags t \<noteq> 0 \<and> pa = of_nat p)"
proof -
  have w: "(of_nat p :: u64) = start_pa r + (va - start_va r)" if "p + lo r = pl r + unat va" for r p
  proof -
    have "(of_nat (p + lo r) :: u64) = of_nat (pl r + unat va)" using that by simp
    then show ?thesis by (simp add: lo_def pl_def algebra_simps)
  qed
  have ex: "\<exists>p. p + lo r = pl r + unat va" if "lo r \<le> unat va" for r
    using that by (intro exI [of _ "pl r + unat va - lo r"]) simp
  show ?thesis
  proof
    assume "page_in M rs va pa t"
    then obtain r where r: "r \<in> set rs" "lo r \<le> unat va" "unat va < hi r" "pa = start_pa r + (va - start_va r)" "t = rtype r"
        "mapped r \<in> M" "leaf_flags t \<noteq> 0" unfolding page_in_def by blast
    then show "\<exists>p s. (unat va, p, t, s) \<in> map_of_regions rs \<and> s \<in> M \<and> leaf_flags t \<noteq> 0 \<and> pa = of_nat p"
      using ex [OF r(2)] w unfolding map_of_regions_def region_map_def by fastforce
  next
    assume "\<exists>p s. (unat va, p, t, s) \<in> map_of_regions rs \<and> s \<in> M \<and> leaf_flags t \<noteq> 0 \<and> pa = of_nat p"
    then show "page_in M rs va pa t" using w unfolding page_in_def map_of_regions_def region_map_def by auto
  qed
qed

lemma free_logged_pt [simp]: "pt (free_logged pb fr st) = pt st"
  by (simp add: free_logged_def)

lemma entry_pt: "pt st' = pt st \<Longrightarrow> entry pb st' root va = entry pb st root va"
proof -
  assume e: "pt st' = pt st"
  have "descend pb st' t p = descend pb st t p" for t p
    by (induction p arbitrary: t) (simp_all add: is_node_def child_of_def e)
  then show ?thesis by (simp add: entry_def flat_def e del: descend.simps split: option.split)
qed

lemma leaf_flags_leaf: "leaf_flags t \<noteq> 0 \<Longrightarrow> PTE_IS_LEAF (leaf_flags t)"
  by (cases t) (simp_all add: leaf_flags_def attrs_def, (code_simp)+)

lemma leaf_value_bits: "PTE_IS_VALID_NODE (leaf_value x f)" "PTE_IS_LEAF f \<Longrightarrow> PTE_IS_LEAF (leaf_value x (f OR g))"
  by (auto simp: leaf_value_def PTE_MAKE_VALID_LEAF_def PTE_BUILD_def pte_bit_iffs bit_or_iff PTE_V_def bit_1_iff)

lemma unmap_range_ok:
  assumes "vm_inv pb U root st L" "map_ok rs" "agrees {MM_REGION_MAPPED} pb st root rs"
    "range_ok a n" "0 < n" "unat a + 4096 * n < 2 ^ 64" "unat sz = 4096 * n"
    "\<forall>r\<in>set rs. \<not> (lo r < unat a \<and> unat a + 4096 * n < hi r)"
    "\<forall>va. page_aligned va \<and> in_pages a n va \<longrightarrow> (\<exists>pa t. page_in {MM_REGION_MAPPED} rs va pa t)"
  shows "\<exists>fr rs' st'. page_table_unmap_range pb root a sz rs st = Some (rs', free_logged pb fr st') \<and> vm_inv pb U root st' L \<and>
    map_ok rs' \<and> map_of_regions rs' = map_of_regions rs - in_range (unat a) (unat a + 4096 * n) \<and>
    freed_bytes fr = backing (map_of_regions rs \<inter> in_range (unat a) (unat a + 4096 * n)) \<and>
    agrees {MM_REGION_MAPPED} pb (free_logged pb fr st') root rs'"
proof -
  note sz = assms(7)
  have al: "page_aligned sz" "0 < sz" "unat (sz div PAGE_BYTES) = n"
    using sz assms(5) by (simp_all add: page_aligned_unat word_less_nat_alt unat_div_page)
  have pa: "page_aligned a" using assms(4) by (simp add: range_ok_def)
  have in_iff: "in_pages a n va \<longleftrightarrow> unat a \<le> unat va \<and> unat va < unat a + 4096 * n" for va
  proof (cases "unat a \<le> unat va")
    case True
    then show ?thesis by (simp add: in_pages_def unat_sub_u64 less_diff_conv2 add.commute)
  next
    case False
    then have "unat (va - a) = unat va + 2 ^ 64 - unat a" by (simp add: unat_sub_if_size word_size)
    then show ?thesis using False assms(6) by (simp add: in_pages_def)
  qed
  have "\<forall>va'. page_aligned va' \<and> in_pages a n va' \<longrightarrow>
      PTE_IS_VALID_NODE (entry pb st root va') \<and> PTE_IS_LEAF (entry pb st root va')"
  proof (intro allI impI)
    fix va assume va: "page_aligned va \<and> in_pages a n va"
    then obtain pa t where p: "page_in {MM_REGION_MAPPED} rs va pa t" using assms(9) by blast
    then have "leaf_flags t \<noteq> 0" by (auto simp: page_in_def)
    moreover have "entry pb st root va = leaf_value pa (leaf_flags t OR PTE_MAP_DEFAULT_FLAGS)"
      using assms(3,4) va p unfolding agrees_def range_ok_def by blast
    ultimately show "PTE_IS_VALID_NODE (entry pb st root va) \<and> PTE_IS_LEAF (entry pb st root va)" using leaf_value_bits leaf_flags_leaf by simp
  qed
  from vm_unmap_range [OF assms(1,4) this]
  obtain st' where u: "vm_unmap pb root a n False st = Some st'" "vm_inv pb U root st' L"
      "\<forall>va'. VA_IS_IN_RANGE va' \<and> page_aligned va' \<longrightarrow> entry pb st' root va' = (if in_pages a n va' then 0 else entry pb st root va')"
    by blast
  have "unat a + unat sz < 2 ^ 64" "\<forall>r\<in>set rs. \<not> (lo r < unat a \<and> unat a + unat sz < hi r)" using assms(6,8) sz by simp_all
  from remove_regions_ok [OF assms(2) pa al(1,2) this]
  obtain fr rs' where r: "memory_map_remove_regions a sz rs = Some (fr, rs')" "map_ok rs'"
      "map_of_regions rs' = map_of_regions rs - in_range (unat a) (unat a + 4096 * n)"
      "freed_bytes fr = backing (map_of_regions rs \<inter> in_range (unat a) (unat a + 4096 * n))" unfolding sz by blast
  have "page_in M rs' va pa t \<longleftrightarrow> page_in M rs va pa t \<and> \<not> in_pages a n va" for M va pa t
    unfolding page_in_map [OF r(2)] page_in_map [OF assms(2)] r(3) in_iff by (auto simp: in_range_def)
  then have "agrees {MM_REGION_MAPPED} pb (free_logged pb fr st') root rs'"
    using assms(3) u(3) unfolding agrees_def entry_pt [OF free_logged_pt] by simp
  then show ?thesis using u r al(3)
    by (intro exI [of _ fr] exI [of _ rs'] exI [of _ st']) (simp add: page_table_unmap_range_def)
qed

section \<open>The clean-up of a failed mapping\<close>

text \<open>Unmapping looks at the tables only, not at the allocator.\<close>

lemma walk_levels_vpages:
  "walk_levels pb l t va s False (st\<lparr>vpages := g\<rparr>) =
     (fst (walk_levels pb l t va s False st), fst (snd (walk_levels pb l t va s False st)), st\<lparr>vpages := g\<rparr>) \<and>
   snd (snd (walk_levels pb l t va s False st)) = st"
  by (induction l arbitrary: t s) (simp_all add: Let_def)

lemma vm_walk_vpages:
  "vm_walk pb root va False (st\<lparr>vpages := g\<rparr>) = map_option (\<lambda>(l, s, _). (l, s, st\<lparr>vpages := g\<rparr>)) (vm_walk pb root va False st)"
  "vm_walk pb root va False st = Some (l, s, st1) \<Longrightarrow> st1 = st"
  using walk_levels_vpages [where pb = pb and l = "PAGE_TABLE_MAX_LEVELS - 1" and t = root and va = va and s = False and st = st and g = g]
  by (auto simp: vm_walk_def vm_walk2_def split: prod.splits if_splits)

lemma vm_unmap_loop_vpages:
  "vm_unmap_loop pb root va k n False (st\<lparr>vpages := g\<rparr>) = map_option (\<lambda>x. x\<lparr>vpages := g\<rparr>) (vm_unmap_loop pb root va k n False st)"
proof (induction "n - k" arbitrary: k st)
  case 0
  then show ?case by (simp add: vm_unmap_loop.simps [of pb root va k n] del: vm_unmap_loop.simps)
next
  case (Suc m)
  then have k: "k < n" "m = n - Suc k" by simp_all
  have set: "set_pte l 0 (st\<lparr>vpages := g\<rparr>) = (set_pte l 0 st)\<lparr>vpages := g\<rparr>" for l by (simp add: set_pte_def)
  show ?case
  proof (cases "vm_walk pb root (va + of_nat k * PAGE_BYTES) False st")
    case None
    then show ?thesis using k(1) by (simp add: vm_unmap_loop.simps [of pb root va k n] vm_walk_vpages(1) del: vm_unmap_loop.simps)
  next
    case (Some z)
    obtain l s where z: "z = (l, s, st)" using vm_walk_vpages(2) Some by (metis prod_cases3)
    then show ?thesis
      using k(1) Some Suc.hyps(1) [OF k(2)]
      by (simp add: vm_unmap_loop.simps [of pb root va k n] vm_walk_vpages(1) Let_def set del: vm_unmap_loop.simps split: option.split)
  qed
qed

lemma vm_unmap_vpages: "vm_unmap pb root va n False (st\<lparr>vpages := g\<rparr>) = map_option (\<lambda>x. x\<lparr>vpages := g\<rparr>) (vm_unmap pb root va n False st)"
  by (simp add: vm_unmap_def vm_unmap_loop_vpages del: vm_unmap_loop.simps)

lemma cleanup_first:
  assumes "vm_unmap pb root (start_va r) (unat (rsize r div PAGE_BYTES)) False st \<noteq> None" "mapped r = MM_REGION_PARTIAL_MAPPED"
    "\<forall>x\<in>set ds. mapped x \<noteq> MM_REGION_PARTIAL_MAPPED"
  shows "page_table_unmap_partial_mappings pb root (ds @ r # rs) (st\<lparr>vpages := g\<rparr>) = Inl Use_After_Free"
  using assms(3)
proof (induction ds arbitrary: g)
  case Nil
  then show ?case using assms(1,2) by (auto simp: page_table_unmap_region_def vm_unmap_vpages)
next
  case (Cons x ds)
  have "free_logged pb fr (st\<lparr>vpages := g\<rparr>) = st\<lparr>vpages := vpages (free_logged pb fr (st\<lparr>vpages := g\<rparr>))\<rparr>" for fr
    by (simp add: free_logged_def)
  then have f: "page_table_unmap_partial_mappings pb root (ds @ r # rs) (free_logged pb fr (st\<lparr>vpages := g\<rparr>)) = Inl Use_After_Free" for fr
    using Cons.IH [of "vpages (free_logged pb fr (st\<lparr>vpages := g\<rparr>))"] Cons.prems by (metis list.set_intros(2))
  show ?case using Cons.IH [of g] Cons.prems f by simp
qed

lemma mapped_region_unmaps:
  assumes "vm_inv pb U root st L" "map_ok (ds @ r # rs)" "in_va_range [r]" "agrees M pb st root (ds @ r # rs)"
    "mapped r \<in> M" "leaf_flags (rtype r) \<noteq> 0"
  shows "vm_unmap pb root (start_va r) (unat (rsize r div PAGE_BYTES)) False st \<noteq> None"
proof -
  let ?n = "unat (rsize r) div 4096"
  have ok: "region_ok r" using assms(2) by (simp add: map_ok_append)
  note P = region_in_pages [OF ok]
  have "PTE_IS_VALID_NODE (entry pb st root va) \<and> PTE_IS_LEAF (entry pb st root va)"
    if va: "page_aligned va" "in_pages (start_va r) ?n va" for va
  proof -
    have l: "lo r \<le> unat va" "unat va < hi r" using va(2) P(1) by simp_all
    then have "VA_IS_IN_RANGE va" using assms(3) by (simp add: in_va_range_def)
    moreover have "page_in M (ds @ r # rs) va (start_pa r + (va - start_va r)) (rtype r)"
      using page_in_other [OF assms(2) l] assms(5,6) by simp
    ultimately have "entry pb st root va = leaf_value (start_pa r + (va - start_va r)) (leaf_flags (rtype r) OR PTE_MAP_DEFAULT_FLAGS)"
      using assms(4) va(1) unfolding agrees_def by blast
    then show ?thesis using leaf_value_bits leaf_flags_leaf [OF assms(6)] by simp
  qed
  then obtain st' where "vm_unmap pb root (start_va r) ?n False st = Some st'"
    using vm_unmap_range [OF assms(1) region_range_ok [OF ok assms(3)]] by blast
  moreover have "unat (rsize r div PAGE_BYTES) = ?n" by (simp add: unat_div_page)
  ultimately show ?thesis by simp
qed

section \<open>Properties\<close>

text \<open>
  C32: starting from a tree that has exactly the pages of the mapped regions,
  \<^verbatim>\<open>page_table_apply_mapping\<close> maps every region marked for mapping: it returns 0, all of the
  regions are in the state MM_REGION_MAPPED and the tree has exactly their pages, with the
  physical addresses and flags of the regions, unless a table could not be allocated.
\<close>

theorem apply_mapping_agrees:
  assumes "vm_inv pb U root st L" "map_ok rs" "in_va_range rs" "agrees {MM_REGION_MAPPED} pb st root rs"
    "\<forall>r\<in>set rs. mapped r \<noteq> MM_REGION_PARTIAL_MAPPED"
  shows "\<exists>err rs' st' L'. map_regions pb root rs st = Some (err, rs', st') \<and> vm_inv pb U root st' L' \<and> L \<subseteq> L' \<and>
    (err = 0 \<and> page_table_apply_mapping pb root rs st = Some (0, map (finalize_region \<circ> mark_partial) rs, st') \<and>
       agrees {MM_REGION_MAPPED} pb st' root (map (finalize_region \<circ> mark_partial) rs) \<or>
     err = - ENOMEM \<and> free_set (vpages st') = {})"
  by (rule apply_mapping_ok [OF assms])

definition heap_region :: mm_region where
  "heap_region = mm_region_init 0x90000000 0x400000 0x1000 MM_REGION_USER_DATA"

lemma heap_region_facts:
  "region_ok heap_region" "lo heap_region = 0x400000" "hi heap_region = 0x401000" "mapped heap_region = MM_REGION_MARKED_FOR_MAPPING"
  "leaf_flags (rtype heap_region) \<noteq> 0" "in_va_range [heap_region]" "map_ok [heap_region]"
proof -
  have f: "leaf_flags MM_REGION_USER_DATA \<noteq> 0" by code_simp
  then show "leaf_flags (rtype heap_region) \<noteq> 0" by (simp add: heap_region_def mm_region_init_def)
  show h: "lo heap_region = 0x400000" "hi heap_region = 0x401000" "mapped heap_region = MM_REGION_MARKED_FOR_MAPPING"
    by (simp_all add: heap_region_def mm_region_init_def lo_def hi_def)
  show r: "region_ok heap_region"
    by (simp add: region_ok_def heap_region_def mm_region_init_def page_aligned_def PAGE_BYTES_def lo_def hi_def pl_def)
  then show "map_ok [heap_region]" by simp
  show "in_va_range [heap_region]"
    by (simp add: in_va_range_def h VA_IS_IN_RANGE_def VA_IS_IN_RANGE_FOR_USER_def USER_VA_END_def word_less_nat_alt)
qed

lemma heap_page: "page_aligned va \<Longrightarrow> 0x400000 \<le> unat va \<Longrightarrow> unat va < 0x401000 \<Longrightarrow> va = 0x400000"
proof -
  assume va: "page_aligned va" "0x400000 \<le> unat va" "unat va < 0x401000"
  then obtain k where "unat va = 4096 * k" by (auto simp: page_aligned_unat)
  then have "unat va = unat (0x400000 :: u64)" using va by simp
  then show ?thesis by (simp only: unat_inj_u64)
qed

lemma heap_page_in:
  assumes "s \<in> M" "page_aligned va"
  shows "page_in M [heap_region\<lparr>mapped := s\<rparr>] va pa u \<longleftrightarrow> va = 0x400000 \<and> pa = 0x90000000 \<and> u = MM_REGION_USER_DATA"
proof -
  have h: "start_pa heap_region = 0x90000000" "start_va heap_region = 0x400000" "rtype heap_region = MM_REGION_USER_DATA"
    by (simp_all add: heap_region_def mm_region_init_def)
  show ?thesis using heap_page [OF assms(2)] heap_region_facts(2,3,5) assms(1) unfolding page_in_def by (auto simp: h)
qed

lemma heap_agrees:
  assumes "entry 0x80000000 st root 0x400000 = example_leaf" "s \<in> M"
    "\<forall>va. VA_IS_IN_RANGE va \<and> page_aligned va \<longrightarrow> va \<noteq> 0x400000 \<longrightarrow> entry 0x80000000 st root va = 0"
  shows "agrees M 0x80000000 st root [heap_region\<lparr>mapped := s\<rparr>]"
proof -
  have "leaf_value 0x90000000 (leaf_flags MM_REGION_USER_DATA OR PTE_MAP_DEFAULT_FLAGS) = example_leaf"
    by (simp add: leaf_value_def leaf_flags_def attrs_def example_leaf_def)
  then show ?thesis using assms(1,3) heap_page_in [OF assms(2)] unfolding agrees_def by auto
qed

theorem apply_mapping_agrees_witness:
  "\<exists>st root err rs' st'. map_regions 0x80000000 root [heap_region] st = Some (err, rs', st') \<and> (err = 0 \<or> err = - ENOMEM)"
proof -
  obtain st root where t: "vm_inv 0x80000000 {0x1000..<0x5000} root st {(unat root, 0)}" "\<forall>a b c. flat 0x80000000 st root a b c = 0"
    using example_tree by (elim exE conjE)
  have "agrees {MM_REGION_MAPPED} 0x80000000 st root [heap_region]"
    using t(2) heap_region_facts(4) by (simp add: agrees_def page_in_def entry_def)
  from apply_mapping_agrees [OF t(1) heap_region_facts(7,6) this] heap_region_facts(4)
  obtain err rs' st' where "map_regions 0x80000000 root [heap_region] st = Some (err, rs', st')" "err = 0 \<or> err = - ENOMEM"
    by auto
  then show ?thesis by (intro exI conjI)
qed

text \<open>
  C33: unmapping a range of mapped pages that does not lie strictly inside of one region (which the
  code does not split) leaves a memory map without the range and a tree that has
  exactly the pages of that map; the pages freed are exactly those that the regions owned in the
  range.
\<close>

theorem unmap_range_agrees:
  assumes "vm_inv pb U root st L" "map_ok rs" "agrees {MM_REGION_MAPPED} pb st root rs"
    "range_ok a n" "0 < n" "unat a + 4096 * n < 2 ^ 64" "unat sz = 4096 * n"
    "\<forall>r\<in>set rs. \<not> (lo r < unat a \<and> unat a + 4096 * n < hi r)"
    "\<forall>va. page_aligned va \<and> in_pages a n va \<longrightarrow> (\<exists>pa t. page_in {MM_REGION_MAPPED} rs va pa t)"
  shows "\<exists>fr rs' st'. page_table_unmap_range pb root a sz rs st = Some (rs', free_logged pb fr st') \<and> vm_inv pb U root st' L \<and>
    map_ok rs' \<and> map_of_regions rs' = map_of_regions rs - in_range (unat a) (unat a + 4096 * n) \<and>
    freed_bytes fr = backing (map_of_regions rs \<inter> in_range (unat a) (unat a + 4096 * n)) \<and>
    agrees {MM_REGION_MAPPED} pb (free_logged pb fr st') root rs'"
  by (rule unmap_range_ok [OF assms])

theorem unmap_range_agrees_witness:
  "\<exists>st root rs' st'. page_table_unmap_range 0x80000000 root 0x400000 0x1000 [heap_region\<lparr>mapped := MM_REGION_MAPPED\<rparr>] st = Some (rs', st') \<and>
     map_of_regions rs' = {} \<and> entry 0x80000000 st' root 0x400000 = 0"
proof -
  let ?r = "heap_region\<lparr>mapped := MM_REGION_MAPPED\<rparr>"
  obtain st root L where t: "vm_inv 0x80000000 {0x1000..<0x5000} root st L" "entry 0x80000000 st root 0x400000 = example_leaf"
      "\<forall>va. VA_IS_IN_RANGE va \<and> page_aligned va \<longrightarrow> va \<noteq> 0x400000 \<longrightarrow> entry 0x80000000 st root va = 0"
    using example_mapped by (elim exE conjE)
  have m: "MM_REGION_MAPPED \<in> {MM_REGION_MAPPED}" by simp
  note pg = heap_page_in [OF m]
  note ag = heap_agrees [OF t(2) m t(3)]
  have ok: "map_ok [?r]" "range_ok 0x400000 1" "0 < (1 :: nat)" "unat (0x400000 :: u64) + 4096 * 1 < 2 ^ 64" "unat (0x1000 :: u64) = 4096 * 1"
    using heap_region_facts(7) by (auto intro!: user_range_ok simp: page_aligned_def PAGE_BYTES_def)
  have in1: "va = 0x400000" if "page_aligned va \<and> in_pages 0x400000 1 va" for va
    using that in_pages_Suc [of "0x400000" va 0] by (simp add: page_aligned_def PAGE_BYTES_def)
  have 1: "\<forall>r\<in>set [?r]. \<not> (lo r < unat (0x400000 :: u64) \<and> unat (0x400000 :: u64) + 4096 * 1 < hi r)"
    using heap_region_facts(2) by simp
  have 2: "\<forall>va. page_aligned va \<and> in_pages 0x400000 1 va \<longrightarrow> (\<exists>pa t. page_in {MM_REGION_MAPPED} [?r] va pa t)"
    using in1 pg by blast
  obtain fr rs' st' where r: "page_table_unmap_range 0x80000000 root 0x400000 0x1000 [?r] st = Some (rs', free_logged 0x80000000 fr st')"
      "map_ok rs'" "map_of_regions rs' = map_of_regions [?r] - in_range (unat (0x400000 :: u64)) (unat (0x400000 :: u64) + 4096 * 1)"
      "agrees {MM_REGION_MAPPED} 0x80000000 (free_logged 0x80000000 fr st') root rs'"
    using unmap_range_agrees [OF t(1) ok(1) ag ok(2-5) 1 2] by (elim exE conjE)
  have e: "map_of_regions rs' = {}"
    unfolding r(3) using heap_region_facts(2,3) by (auto simp: region_map_def in_range_def)
  then have "\<not> page_in {MM_REGION_MAPPED} rs' va pa u" for va pa u unfolding page_in_map [OF r(2)] by simp
  moreover have "VA_IS_IN_RANGE 0x400000" "page_aligned 0x400000"
    by (simp_all add: VA_IS_IN_RANGE_def VA_IS_IN_RANGE_FOR_USER_def USER_VA_END_def page_aligned_def PAGE_BYTES_def)
  ultimately have "entry 0x80000000 (free_logged 0x80000000 fr st') root 0x400000 = 0" using r(4) unfolding agrees_def by blast
  then show ?thesis using r(1) e by (intro exI conjI)
qed

text \<open>
  C34: the clean-up after a failed mapping uses a region after it was freed. Let the tree have
  exactly the pages of the regions that are mapped or partially mapped, as the first loop of
  \<^verbatim>\<open>page_table_apply_mapping\<close> leaves it, so that unmapping does not panic. As soon as one region is
  partially mapped, \<^verbatim>\<open>page_table_unmap_partial_mappings\<close> frees it in
  \<^verbatim>\<open>page_table_unmap_region\<close> and then removes it a second time.
\<close>

theorem partial_cleanup_uses_freed_region:
  assumes "vm_inv pb U root st L" "map_ok rs" "in_va_range rs" "agrees in_tree pb st root rs"
    "\<forall>x\<in>set rs. mapped x = MM_REGION_PARTIAL_MAPPED \<longrightarrow> leaf_flags (rtype x) \<noteq> 0"
    "r \<in> set rs" "mapped r = MM_REGION_PARTIAL_MAPPED"
  shows "page_table_unmap_partial_mappings pb root rs st = Inl Use_After_Free"
proof -
  have "\<exists>x\<in>set rs. mapped x = MM_REGION_PARTIAL_MAPPED" using assms(6,7) by blast
  from split_list_first_prop [OF this]
  obtain ds x es where x: "rs = ds @ x # es" "mapped x = MM_REGION_PARTIAL_MAPPED"
      "\<forall>y\<in>set ds. mapped y \<noteq> MM_REGION_PARTIAL_MAPPED"
    by (elim exE conjE)
  have "vm_unmap pb root (start_va x) (unat (rsize x div PAGE_BYTES)) False st \<noteq> None"
    by (rule mapped_region_unmaps [OF assms(1) assms(2) [unfolded x(1)] _ assms(4) [unfolded x(1)]])
       (use assms(3,5) x in \<open>auto simp: in_va_range_def\<close>)
  from cleanup_first [OF this x(2,3), of es "vpages st"] show ?thesis by (simp add: x(1))
qed

theorem partial_cleanup_uses_freed_region_witness:
  "\<exists>st root st1. entry 0x80000000 st root 0x400000 = example_leaf \<and>
     page_table_unmap_region 0x80000000 root (heap_region\<lparr>mapped := MM_REGION_PARTIAL_MAPPED\<rparr>) st = Inr (None, st1) \<and>
     page_table_unmap_partial_mappings 0x80000000 root [heap_region\<lparr>mapped := MM_REGION_PARTIAL_MAPPED\<rparr>] st = Inl Use_After_Free"
proof -
  let ?r = "heap_region\<lparr>mapped := MM_REGION_PARTIAL_MAPPED\<rparr>"
  obtain st root L where t: "vm_inv 0x80000000 {0x1000..<0x5000} root st L" "entry 0x80000000 st root 0x400000 = example_leaf"
      "\<forall>va. VA_IS_IN_RANGE va \<and> page_aligned va \<longrightarrow> va \<noteq> 0x400000 \<longrightarrow> entry 0x80000000 st root va = 0"
    using example_mapped by (elim exE conjE)
  have ag: "agrees in_tree 0x80000000 st root [?r]" by (rule heap_agrees [OF t(2) _ t(3)]) simp
  have f: "map_ok [?r]" "in_va_range [?r]" "leaf_flags (rtype ?r) \<noteq> 0"
    using heap_region_facts(5,6,7) by (simp_all add: in_va_range_def)
  have u: "page_table_unmap_partial_mappings 0x80000000 root [?r] st = Inl Use_After_Free"
    by (rule partial_cleanup_uses_freed_region [OF t(1) f(1,2) ag, where r = ?r]) (use f(3) in simp_all)
  then obtain st1 where "page_table_unmap_region 0x80000000 root ?r st = Inr (None, st1)"
    by (auto simp: page_table_unmap_region_def split: option.splits)
  then show ?thesis using t(2) u by (intro exI conjI)
qed

end
