(* ===== verification/Proc_Memory.thy ===== *)
theory Proc_Memory
  imports Page_Table
begin

text \<open>
  The memory of a process: \<^verbatim>\<open>proc_pagetable\<close>, \<^verbatim>\<open>proc_grow_memory\<close>,
  \<^verbatim>\<open>proc_copy_memory\<close>, \<^verbatim>\<open>proc_grow_stack\<close> and \<^verbatim>\<open>proc_shrink_stack\<close> of
  \<^verbatim>\<open>kernel/kernel/proc.c\<close> on top of the page tables of theory Page_Table, and the proof that a
  grown heap is fresh, zeroed and writable.
\<close>

section \<open>The code\<close>

record proc_mem =
  pagetable :: page_table
  heap_begin :: u64
  heap_end :: u64
  stack_low :: u64

text \<open>\<open>tramp\<close> and \<open>frame\<close> are the kernel addresses of the trampoline code and the trap frame.\<close>

definition proc_pagetable ::
  "nat \<Rightarrow> u64 \<Rightarrow> (u64 \<Rightarrow> bool) \<Rightarrow> (u64 \<Rightarrow> bool) \<Rightarrow> bool \<Rightarrow> (u64 \<Rightarrow> bool) \<Rightarrow> u64 \<Rightarrow> u64 \<Rightarrow> vm \<Rightarrow>
   (page_table option \<times> vm) option" where
  "proc_pagetable fuel pb in_ram_pa in_ram_kva ok kok tramp frame st =
     (let give_up = (\<lambda>p s. case page_table_free fuel pb in_ram_pa in_ram_kva p s of None \<Rightarrow> None | Some s1 \<Rightarrow> Some (None, s1)) in
      case page_table_alloc_init ok st of
        (None, st1) \<Rightarrow> Some (None, st1)
      | (Some p, st1) \<Rightarrow>
          (case mm_region_alloc_init (kok TRAMPOLINE) (virt_to_phys pb tramp) TRAMPOLINE PAGE_BYTES MM_REGION_USER_TRAMPOLINE of
             None \<Rightarrow> give_up p st1
           | Some r \<Rightarrow>
               let rs1 = memory_map_add_single_region r (pt_map p) in
               (case mm_region_alloc_init (kok TRAPFRAME) (virt_to_phys pb frame) TRAPFRAME PAGE_BYTES MM_REGION_USER_TRAPFRAME of
                  None \<Rightarrow> give_up (p\<lparr>pt_map := rs1\<rparr>) st1
                | Some r2 \<Rightarrow>
                    (case page_table_apply_mapping pb (pt_root p) (memory_map_add_single_region r2 rs1) st1 of
                       None \<Rightarrow> None
                     | Some (err, rs3, st3) \<Rightarrow>
                         if err < 0 then give_up (p\<lparr>pt_map := rs3\<rparr>) st3
                         else Some (Some (p\<lparr>pt_map := rs3\<rparr>), st3)))))"

text \<open>\<^verbatim>\<open>n *= -1\<close> wraps for the smallest \<^verbatim>\<open>ssize_t\<close>; the comparison is one of unsigned words.\<close>

definition proc_grow_memory ::
  "u64 \<Rightarrow> (u64 \<Rightarrow> bool) \<Rightarrow> u64 \<Rightarrow> proc_mem \<Rightarrow> vm \<Rightarrow> kbytes \<Rightarrow> (int \<times> proc_mem \<times> vm \<times> kbytes) option" where
  "proc_grow_memory pb kok n p st m =
     (if sint n > 0 then
        case uvm_alloc_heap pb kok (pagetable p) (heap_end p) n MM_REGION_USER_DATA st m of
          None \<Rightarrow> None
        | Some (got, pt1, st1, m1) \<Rightarrow>
            if got \<noteq> n then Some (-1, p\<lparr>pagetable := pt1\<rparr>, st1, m1)
            else Some (0, p\<lparr>pagetable := pt1, heap_end := heap_end p + n\<rparr>, st1, m1)
      else if sint n < 0 then
        let k = - n; proc_size = heap_end p - heap_begin p in
        if k > proc_size then Some (-1, p, st, m)
        else case uvm_dealloc_heap pb (heap_begin p) (pagetable p) (heap_end p) k st of
               None \<Rightarrow> None
             | Some (dealloc, pt1, st1) \<Rightarrow> Some (0, p\<lparr>pagetable := pt1, heap_end := heap_end p - dealloc\<rparr>, st1, m)
      else Some (0, p, st, m))"

definition proc_copy_memory ::
  "u64 \<Rightarrow> (u64 \<Rightarrow> bool) \<Rightarrow> proc_mem \<Rightarrow> proc_mem \<Rightarrow> vm \<Rightarrow> kbytes \<Rightarrow> (int \<times> proc_mem \<times> vm \<times> kbytes) option" where
  "proc_copy_memory pb kok src dst st m =
     (case page_table_copy_on_fork pb kok (pagetable dst) (pagetable src) st m of
        None \<Rightarrow> None
      | Some (err, pt1, st1, m1) \<Rightarrow>
          if err < 0 then Some (err, dst\<lparr>pagetable := pt1\<rparr>, st1, m1)
          else Some (0, dst\<lparr>pagetable := pt1, heap_begin := heap_begin src, heap_end := heap_end src,
                           stack_low := stack_low src\<rparr>, st1, m1))"

definition USER_MAX_STACK_SIZE :: u64 where "USER_MAX_STACK_SIZE = 16 * PAGE_BYTES"

definition proc_grow_stack ::
  "u64 \<Rightarrow> (u64 \<Rightarrow> bool) \<Rightarrow> proc_mem \<Rightarrow> vm \<Rightarrow> kbytes \<Rightarrow> (bool \<times> proc_mem \<times> vm \<times> kbytes) option" where
  "proc_grow_stack pb kok p st m =
     (if USER_STACK_HIGH - stack_low p \<ge> USER_MAX_STACK_SIZE then Some (False, p, st, m)
      else case uvm_grow_stack pb kok (pagetable p) (stack_low p) st m of
             None \<Rightarrow> None
           | Some (low, pt1, st1, m1) \<Rightarrow>
               if low = 0 then Some (False, p\<lparr>pagetable := pt1\<rparr>, st1, m1)
               else Some (True, p\<lparr>pagetable := pt1, stack_low := low\<rparr>, st1, m1))"

text \<open>\<open>sp\<close> is the stack pointer of the trap frame.\<close>

definition proc_shrink_stack :: "u64 \<Rightarrow> u64 \<Rightarrow> proc_mem \<Rightarrow> vm \<Rightarrow> (proc_mem \<times> vm) option" where
  "proc_shrink_stack pb sp p st =
     (if stack_low p \<ge> USER_STACK_HIGH - PAGE_BYTES then Some (p, st)
      else
        let lowest_stack_page_used = PAGE_DOWN sp in
        if lowest_stack_page_used \<le> stack_low p then Some (p, st)
        else
          let npages = (lowest_stack_page_used - stack_low p) div PAGE_BYTES in
          case page_table_unmap_range pb (pt_root (pagetable p)) (stack_low p) (npages * PAGE_BYTES) (pt_map (pagetable p)) st of
            None \<Rightarrow> None
          | Some (rs1, st1) \<Rightarrow>
              Some (p\<lparr>pagetable := (pagetable p)\<lparr>pt_map := rs1\<rparr>, stack_low := lowest_stack_page_used\<rparr>, st1))"

section \<open>Allocating pages for regions\<close>

lemma alloc_page_inv:
  assumes inv: "vm_inv pb U root st L" and al: "alloc_page st = (Some f, st1)"
  shows "vm_inv pb U root st1 (insert (unat f, 0) L)" "(unat f, 0) \<notin> L" "page_aligned f"
    "entry pb st1 root va = entry pb st root va" "unat f \<in> U" "tables pb st1 root = tables pb st root"
proof -
  note I = vm_invD [OF inv]
  obtain g where g: "st1 = st\<lparr>vpages := g, pt := (pt st)(f := (\<lambda>_. 0))\<rparr>" "page_aligned f"
      "balloc.consistent U g (insert (unat f, 0) L)" "(unat f, 0) \<notin> L"
    using inv al by (cases rule: alloc_page_cases) auto
  note N = new_page_tree [OF inv g(4,1)]
  have "length q \<le> 2 \<and> descend pb st1 root q = Some t \<longleftrightarrow> length q \<le> 2 \<and> descend pb st root q = Some t" for q t
    using N(1) [of q] by (auto simp del: descend.simps)
  then show T: "tables pb st1 root = tables pb st root" unfolding tables_def by (simp only:)
  show "vm_inv pb U root st1 (insert (unat f, 0) L)"
    by (intro vm_invI) (use N(2) g I T vm_inv_tables [OF inv] in auto)
  show "(unat f, 0) \<notin> L" "page_aligned f" using g by simp_all
  show "entry pb st1 root va = entry pb st root va" unfolding entry_def N(4) ..
  have "(unat f, 0) \<in> insert (unat f, 0) L" by simp
  from balloc.consistentD(3,6) [OF g(3)] this have "extent (unat f, 0) \<subseteq> U" by blast
  then show "unat f \<in> U" using g(2) by (auto simp: extent_def block_def SZ_def)
qed

text \<open>The physical pages of the allocator lie in the 56-bit address space, not at 0.\<close>

definition phys_ok :: "u64 \<Rightarrow> nat set \<Rightarrow> bool" where
  "phys_ok pb U \<longleftrightarrow> (\<forall>u\<in>U. unat (virt_to_phys pb (of_nat u)) + 4096 < 2 ^ 56 \<and> virt_to_phys pb (of_nat u) \<noteq> 0)"

lemma page_region:
  assumes "vm_inv pb U root st L" "phys_ok pb U" "page_aligned f" "unat f \<in> U" "page_aligned va" "unat va + 4096 < 2 ^ 64"
    and r_def: "r = mm_region_init (virt_to_phys pb f) va PAGE_BYTES t"
  shows "region_ok r" "lo r = unat va" "hi r = unat va + 4096" "start_pa r = virt_to_phys pb f" "start_va r = va" "rtype r = t"
proof -
  show f: "lo r = unat va" "hi r = unat va + 4096" "start_pa r = virt_to_phys pb f" "start_va r = va" "rtype r = t"
    by (simp_all add: r_def mm_region_init_def lo_def hi_def PAGE_BYTES_def)
  have "page_aligned (virt_to_phys pb f)"
    unfolding virt_to_phys_def by (intro page_aligned_add page_aligned_diff page_aligned_offset assms(3) vm_invD(4) [OF assms(1)])
  moreover have "unat (virt_to_phys pb f) + 4096 < 2 ^ 56" using assms(2,4) by (auto simp: phys_ok_def)
  ultimately show "region_ok r"
    using assms(5,6) f page_aligned_PAGE_BYTES
    by (simp add: region_ok_def r_def mm_region_init_def pl_def) (simp add: PAGE_BYTES_def)
qed

lemma apart_range:
  assumes "region_ok r" "region_map r \<inter> in_range a b = {}" "a < b"
  shows "hi r \<le> a \<or> b \<le> lo r"
proof (rule ccontr)
  assume c: "\<not> (hi r \<le> a \<or> b \<le> lo r)"
  let ?v = "max (lo r) a"
  have "lo r < hi r" using region_okD(1) [OF assms(1)] .
  then have "(?v, pl r + ?v - lo r, rtype r, mapped r) \<in> region_map r" using c by (simp add: region_map_def)
  moreover have "(?v, pl r + ?v - lo r, rtype r, mapped r) \<in> in_range a b" using c assms(3) by (auto simp: in_range_def)
  ultimately show False using assms(2) by blast
qed

text \<open>The pages from \<open>va\<close> to \<open>va'\<close>, and the regions for them: page \<open>v\<close> is the kernel page \<open>g v\<close>.\<close>

definition pages :: "u64 \<Rightarrow> u64 \<Rightarrow> u64 set" where
  "pages va va' = {v. page_aligned v \<and> unat va \<le> unat v \<and> unat v < unat va'}"

definition page_regions :: "u64 \<Rightarrow> mm_region_type \<Rightarrow> (u64 \<Rightarrow> u64) \<Rightarrow> u64 set \<Rightarrow> (nat \<times> nat \<times> mm_region_type \<times> mm_region_mapped) set" where
  "page_regions pb t g V = (\<Union>v\<in>V. region_map (mm_region_init (virt_to_phys pb (g v)) v PAGE_BYTES t))"

text \<open>
  Fresh pages: not taken before, different for different addresses, all zero; the pages taken
  before keep their bytes.
\<close>

definition fresh :: "(nat \<times> nat) set \<Rightarrow> (nat \<times> nat) set \<Rightarrow> (u64 \<Rightarrow> u64) \<Rightarrow> u64 set \<Rightarrow> kbytes \<Rightarrow> kbytes \<Rightarrow> bool" where
  "fresh L L' g V m m' \<longleftrightarrow> L \<union> (\<lambda>v. (unat (g v), 0)) ` V \<subseteq> L' \<and>
     (\<forall>v\<in>V. page_aligned (g v) \<and> (unat (g v), 0) \<notin> L \<and> (\<forall>a. a - g v < PAGE_BYTES \<longrightarrow> m' a = 0)) \<and> inj_on g V \<and>
     (\<forall>p x. (unat p, 0) \<in> L \<and> page_aligned p \<and> x - p < PAGE_BYTES \<longrightarrow> m' x = m x)"

lemma pages_next:
  assumes "page_aligned va" "unat va + 4096 \<le> unat va'"
  shows "pages va va' = insert va (pages (va + PAGE_BYTES) va')" "va \<notin> pages (va + PAGE_BYTES) va'"
    "unat (va + PAGE_BYTES) = unat va + 4096"
proof -
  have "unat va + 4096 < 2 ^ 64" using assms(2) unat_bound_u64 [of va'] by linarith
  then show u: "unat (va + PAGE_BYTES) = unat va + 4096" by (subst unat_add_u64) (simp_all add: PAGE_BYTES_def)
  have "v = va \<or> unat va + 4096 \<le> unat v" if "page_aligned v" "unat va \<le> unat v" for v
  proof -
    obtain i j where "unat va = 4096 * i" "unat v = 4096 * j" using assms(1) \<open>page_aligned v\<close> by (auto simp: page_aligned_unat elim!: dvdE)
    then show ?thesis using that(2) by (cases "i = j") (auto simp flip: unat_inj_u64)
  qed
  then show "pages va va' = insert va (pages (va + PAGE_BYTES) va')"
    unfolding pages_def u using assms by force
  show "va \<notin> pages (va + PAGE_BYTES) va'" unfolding pages_def u by simp
qed

lemma aligned_gap:
  assumes "page_aligned f" "page_aligned h" "f \<noteq> h" "a - f < PAGE_BYTES"
  shows "\<not> a - h < PAGE_BYTES"
proof
  assume h: "a - h < PAGE_BYTES"
  have al: "4096 dvd unat ((a - h) - (a - f))"
    using page_aligned_diff [OF assms(1,2)] by (simp add: page_aligned_unat)
  have small: "x = 0" if "4096 dvd x" "x < 4096" for x :: nat using that nat_dvd_not_less by blast
  have lt: "unat (a - h) < 4096" "unat (a - f) < 4096" using h assms(4) by (simp_all add: word_less_nat_alt PAGE_BYTES_def)
  have "unat ((a - h) - (a - f)) = 0"
  proof (cases "unat (a - f) \<le> unat (a - h)")
    case True
    then have "unat ((a - h) - (a - f)) = unat (a - h) - unat (a - f)" by (rule unat_sub_u64)
    then show ?thesis by (intro small al) (use lt(1) in linarith)
  next
    case False
    then have "unat ((a - f) - (a - h)) = unat (a - f) - unat (a - h)" by (intro unat_sub_u64) simp
    moreover have "4096 dvd unat ((a - f) - (a - h))"
      using page_aligned_diff [OF assms(2,1)] by (simp add: page_aligned_unat)
    ultimately have "4096 dvd unat (a - f) - unat (a - h)" by simp
    then have "unat (a - f) - unat (a - h) = 0" by (rule small) (use lt(2) in linarith)
    then show ?thesis using False by simp
  qed
  then show False using assms(3) by (simp add: unat_eq_0)
qed

lemma zero_page_other: "page_aligned f \<Longrightarrow> page_aligned p \<Longrightarrow> f \<noteq> p \<Longrightarrow> x - p < PAGE_BYTES \<Longrightarrow> zero_page f m x = m x"
  using aligned_gap [of p f x] by (simp add: zero_page_def)

lemma fresh_none:
  assumes "page_aligned f" "(unat f, 0) \<notin> L"
  shows "fresh L L g {} m m" "fresh L L g {} m (zero_page f m)"
proof -
  show "fresh L L g {} m m" by (simp add: fresh_def)
  have "zero_page f m x = m x" if "(unat p, 0) \<in> L" "page_aligned p" "x - p < PAGE_BYTES" for p x
    by (rule zero_page_other [OF assms(1) that(2) _ that(3)]) (use that(1) assms(2) in auto)
  then show "fresh L L g {} m (zero_page f m)" unfolding fresh_def by (simp, blast)
qed

lemma fresh_step:
  assumes "(unat f, 0) \<notin> L" "page_aligned f" "fresh (insert (unat f, 0) L) L' g V (zero_page f m) m'" "va \<notin> V"
  shows "fresh L L' (g(va := f)) (insert va V) m m'"
proof -
  have F: "insert (unat f, 0) L \<union> (\<lambda>v. (unat (g v), 0)) ` V \<subseteq> L'"
      "\<forall>v\<in>V. page_aligned (g v) \<and> (unat (g v), 0) \<notin> insert (unat f, 0) L \<and> (\<forall>a. a - g v < PAGE_BYTES \<longrightarrow> m' a = 0)" "inj_on g V"
      "\<And>p x. (unat p, 0) \<in> insert (unat f, 0) L \<Longrightarrow> page_aligned p \<Longrightarrow> x - p < PAGE_BYTES \<Longrightarrow> m' x = zero_page f m x"
    using assms(3) unfolding fresh_def by blast+
  have ne: "g v \<noteq> f" if "v \<in> V" for v using F(2) that by auto
  have z: "m' a = 0" if "a - f < PAGE_BYTES" for a
    using F(4) [of f a] assms(2) that by (simp add: zero_page_def)
  have old: "m' x = m x" if "(unat p, 0) \<in> L" "page_aligned p" "x - p < PAGE_BYTES" for p x
  proof -
    have "f \<noteq> p" using that(1) assms(1) by auto
    then show ?thesis using F(4) [of p x] that zero_page_other [OF assms(2) that(2) _ that(3)] by simp
  qed
  have inj: "inj_on (g(va := f)) (insert va V)"
    using F(3) ne assms(4) by (auto simp: inj_on_def)
  have "(g(va := f)) v = g v" if "v \<in> V" for v using that assms(4) by auto
  then show ?thesis unfolding fresh_def using F(1,2) z inj old assms(1,2,4)
    by (intro conjI) auto
qed

lemma page_regions_insert:
  assumes "va \<notin> V"
  shows "page_regions pb t (g(va := f)) (insert va V) =
    region_map (mm_region_init (virt_to_phys pb f) va PAGE_BYTES t) \<union> page_regions pb t g V"
proof -
  have "(g(va := f)) v = g v" if "v \<in> V" for v using that assms by auto
  then show ?thesis unfolding page_regions_def by simp
qed

text \<open>What the loop of \<^verbatim>\<open>uvm_alloc_heap\<close> gives: pages and regions up to \<open>va'\<close>.\<close>

definition heap_grown ::
  "u64 \<Rightarrow> nat set \<Rightarrow> u64 \<Rightarrow> (u64 \<Rightarrow> bool) \<Rightarrow> mm_region_type \<Rightarrow> u64 \<Rightarrow> nat \<Rightarrow> mm_region list \<Rightarrow> vm \<Rightarrow> (nat \<times> nat) set \<Rightarrow> kbytes \<Rightarrow>
   u64 \<Rightarrow> mm_region list \<Rightarrow> vm \<Rightarrow> kbytes \<Rightarrow> bool" where
  "heap_grown pb U root kok t va E rs st L m va' rs' st' m' \<longleftrightarrow>
     (\<exists>L' g. vm_inv pb U root st' L' \<and> fresh L L' g (pages va va') m m' \<and> map_ok rs' \<and>
        map_of_regions rs' = map_of_regions rs \<union> page_regions pb t g (pages va va') \<and>
        (\<forall>v. entry pb st' root v = entry pb st root v) \<and> unat va \<le> unat va' \<and> unat va' \<le> E \<and>
        (\<forall>v\<in>pages va va'. unat (g v) \<in> U) \<and>
        (unat va' = E \<or> \<not> kok va' \<or> free_set (vpages st') = {}))"

lemma heap_grown_stop:
  assumes "vm_inv pb U root st' L" "map_ok rs" "\<forall>v. entry pb st' root v = entry pb st root v" "unat va \<le> E"
    "unat va = E \<or> \<not> kok va \<or> free_set (vpages st') = {}" "fresh L L (\<lambda>_. 0) {} m m'"
  shows "heap_grown pb U root kok t va E rs st L m va rs st' m'"
proof -
  have "pages va va = {}" by (auto simp: pages_def)
  then show ?thesis unfolding heap_grown_def using assms
    by (intro exI [of _ L] exI [of _ "\<lambda>_. 0"]) (simp add: page_regions_def)
qed

lemma heap_grown_step:
  assumes "page_aligned va" "unat va + 4096 \<le> E" "alloc_page st = (Some f, st1)" "vm_inv pb U root st L"
    and I: "heap_grown pb U root kok t (va + PAGE_BYTES) E rs1 st1 (insert (unat f, 0) L) (zero_page f m) va' rs' st' m'"
    and u: "unat (va + PAGE_BYTES) = unat va + 4096"
    and rs1: "map_of_regions rs1 = map_of_regions rs \<union> region_map (mm_region_init (virt_to_phys pb f) va PAGE_BYTES t)"
  shows "heap_grown pb U root kok t va E rs st L m va' rs' st' m'"
proof -
  obtain L' g where g: "vm_inv pb U root st' L'" "fresh (insert (unat f, 0) L) L' g (pages (va + PAGE_BYTES) va') (zero_page f m) m'"
      "map_ok rs'" "map_of_regions rs' = map_of_regions rs1 \<union> page_regions pb t g (pages (va + PAGE_BYTES) va')"
      "\<forall>v. entry pb st' root v = entry pb st1 root v" "unat (va + PAGE_BYTES) \<le> unat va'" "unat va' \<le> E"
      "\<forall>v\<in>pages (va + PAGE_BYTES) va'. unat (g v) \<in> U" "unat va' = E \<or> \<not> kok va' \<or> free_set (vpages st') = {}"
    using I unfolding heap_grown_def by (elim exE conjE)
  note A = alloc_page_inv [OF assms(4,3)]
  note N = pages_next [OF assms(1), of va'] and le = g(6) [unfolded u]
  have "fresh L L' (g(va := f)) (pages va va') m m'"
    unfolding N(1) [OF le] by (rule fresh_step [OF A(2,3) g(2) N(2) [OF le]])
  moreover have "map_of_regions rs' = map_of_regions rs \<union> page_regions pb t (g(va := f)) (pages va va')"
    unfolding N(1) [OF le] page_regions_insert [OF N(2) [OF le]] g(4) rs1 by (simp only: Un_assoc)
  moreover have "\<forall>v. entry pb st' root v = entry pb st root v" using g(5) A(4) by simp
  moreover have "\<forall>v\<in>pages va va'. unat ((g(va := f)) v) \<in> U" unfolding N(1) [OF le] using g(8) A(5) by simp
  ultimately show ?thesis unfolding heap_grown_def using g(1,3,7,9) le
    by (intro exI [of _ L'] exI [of _ "g(va := f)"]) simp
qed

lemma free_page_inv:
  assumes "vm_inv pb U root st1 (insert (unat f, 0) L)" "(unat f, 0) \<notin> L" "tables pb st1 root \<subseteq> L"
  shows "\<exists>st2. free_page f st1 = Some st2 \<and> vm_inv pb U root st2 L \<and> pt st2 = pt st1"
proof -
  note I = vm_invD [OF assms(1)]
  obtain g where g: "free_page f st1 = Some (st1\<lparr>vpages := g\<rparr>)" "balloc.consistent U g (insert (unat f, 0) L - {(unat f, 0)})"
    using free_page_block [OF I(2), of f] by auto
  have d: "descend pb (st1\<lparr>vpages := g\<rparr>) t p = descend pb st1 t p" for t p
    by (induction p arbitrary: t) (simp_all add: is_node_def child_of_def)
  have "tree_ok pb (st1\<lparr>vpages := g\<rparr>) root" using I(1) unfolding tree_ok_def d by (simp, blast)
  moreover have "tables pb (st1\<lparr>vpages := g\<rparr>) root = tables pb st1 root" unfolding tables_def d ..
  ultimately have "vm_inv pb U root (st1\<lparr>vpages := g\<rparr>) L"
    by (intro vm_invI) (use g(2) assms(2,3) I(3,4) in simp_all)
  then show ?thesis using g(1) by simp
qed

lemma heap_loop_ok:
  assumes "phys_ok pb U" "E < 2 ^ 64" "4096 dvd E" "unat end_va \<le> E" "E < unat end_va + 4096"
  shows "\<lbrakk>vm_inv pb U root st L; map_ok rs; page_aligned va; unat va \<le> E; map_of_regions rs \<inter> in_range (unat va) E = {}\<rbrakk> \<Longrightarrow>
    \<exists>va' rs' st' m'. heap_loop pb kok t va end_va rs st m = Some (va', rs', st', m') \<and>
      heap_grown pb U root kok t va E rs st L m va' rs' st' m' \<and> (va' < end_va \<longleftrightarrow> unat va' < E)"
proof (induction "E - unat va" arbitrary: va rs st L m rule: less_induct)
  case less
  have cmp: "v < end_va \<longleftrightarrow> unat v < E" if v: "page_aligned v" for v
  proof -
    obtain i j where "E = 4096 * i" "unat v = 4096 * j" using assms(3) v unfolding page_aligned_unat dvd_def by blast
    then have "unat v < E \<Longrightarrow> unat v + 4096 \<le> E" by simp
    then show ?thesis using assms(4,5) by (auto simp: word_less_nat_alt)
  qed
  show ?case
  proof (cases "unat va < E")
    case False
    then have "heap_grown pb U root kok t va E rs st L m va rs st m"
      using less.prems by (intro heap_grown_stop) (simp_all add: fresh_def)
    then show ?thesis using False cmp [OF less.prems(3)] by (subst heap_loop.simps) simp
  next
    case True
    obtain i j where ij: "E = 4096 * i" "unat va = 4096 * j" using assms(3) less.prems(3) unfolding page_aligned_unat dvd_def by blast
    then have le: "unat va + 4096 \<le> E" using True by simp
    have lt: "va < end_va" using True cmp [OF less.prems(3)] by simp
    have u: "unat (va + PAGE_BYTES) = unat va + 4096"
      using le assms(2) by (subst unat_add_u64) (simp_all add: PAGE_BYTES_def)
    from less.prems(1) show ?thesis
    proof (cases rule: alloc_page_cases)
      case none
      then have "heap_grown pb U root kok t va E rs st L m va rs st m"
        using less.prems by (intro heap_grown_stop) (simp_all add: fresh_def)
      then show ?thesis using none(1) lt True by (subst heap_loop.simps) simp
    next
      case (page f g)
      define st1 where "st1 = st\<lparr>vpages := g, pt := (pt st)(f := (\<lambda>_. 0))\<rparr>"
      have al: "alloc_page st = (Some f, st1)" using page(1) by (simp add: st1_def)
      note A = alloc_page_inv [OF less.prems(1) al]
      let ?r = "mm_region_init (virt_to_phys pb f) va PAGE_BYTES t"
      show ?thesis
      proof (cases "kok va")
        case False
        have N: "tables pb st1 root \<subseteq> L" using A(6) vm_inv_tables [OF less.prems(1)] by simp
        obtain st2 where s2: "free_page f st1 = Some st2" "vm_inv pb U root st2 L" "pt st2 = pt st1"
          using free_page_inv [OF A(1,2) N] by blast
        have "heap_grown pb U root kok t va E rs st L m va rs st2 (zero_page f m)"
          using less.prems(2,4) s2 False A(4) entry_pt [OF s2(3)] fresh_none(2) [OF A(3,2)]
          by (intro heap_grown_stop) (simp_all add: fresh_def)
        then show ?thesis using al lt True False s2(1)
          by (subst heap_loop.simps) (simp add: mm_region_alloc_init_def Let_def)
      next
        case ok: True
        have lim: "unat va + 4096 < 2 ^ 64" using le assms(2) by linarith
        note R = page_region [OF less.prems(1) assms(1) A(3,5) less.prems(3) lim refl, of t]
        have ap: "\<forall>r\<in>set rs. apart r ?r"
        proof
          fix r assume r: "r \<in> set rs"
          have "region_map r \<inter> in_range (unat va) (unat va + 4096) = {}"
            using less.prems(5) r le unfolding map_of_regions_def by (fastforce simp: in_range_def)
          from apart_range [OF map_okD [OF less.prems(2) r] this] show "apart r ?r" unfolding apart_def R by simp
        qed
        note S = add_single_region_ok [OF less.prems(2) R(1) ap]
        have "map_of_regions (memory_map_add_single_region ?r rs) \<inter> in_range (unat (va + PAGE_BYTES)) E = {}"
          using S less.prems(5) R(2,3) unfolding u by (auto simp: in_range_def region_map_def)
        from less.hyps [OF _ A(1) S [THEN conjunct1] _ _ this] True le u less.prems(3) page_aligned_PAGE_BYTES
        obtain va' rs' st' m' where I: "heap_loop pb kok t (va + PAGE_BYTES) end_va (memory_map_add_single_region ?r rs) st1 (zero_page f m) = Some (va', rs', st', m')"
            "heap_grown pb U root kok t (va + PAGE_BYTES) E (memory_map_add_single_region ?r rs) st1 (insert (unat f, 0) L) (zero_page f m) va' rs' st' m'"
            "va' < end_va \<longleftrightarrow> unat va' < E" using page_aligned_add by (metis diff_less_mono2 less_add_same_cancel1 zero_less_numeral)
        have "heap_grown pb U root kok t va E rs st L m va' rs' st' m'"
          by (rule heap_grown_step [OF less.prems(3) le al less.prems(1) I(2) u S [THEN conjunct2]])
        then show ?thesis using I(1,3) al lt ok by (subst heap_loop.simps) (simp add: mm_region_alloc_init_def Let_def)
      qed
    qed
  qed
qed

section \<open>A grown heap\<close>

lemma PAGE_UP_facts:
  assumes "unat a + 4096 < 2 ^ 64"
  shows "page_aligned (PAGE_UP a)" "unat a \<le> unat (PAGE_UP a)" "unat (PAGE_UP a) < unat a + 4096"
proof -
  let ?b = "a + PAGE_BYTES - 1"
  have e: "?b = a + 4095" by (simp add: PAGE_BYTES_def)
  have "unat (a + 4095) = unat a + 4095" using assms by (subst unat_add_u64) simp_all
  then have b: "unat ?b = unat a + 4095" unfolding e .
  have d: "PAGE_UP a = ?b - ?b mod PAGE_BYTES" unfolding PAGE_UP_def PAGE_DOWN_eq [symmetric] PAGE_DOWN_def ..
  then have u: "unat (PAGE_UP a) = unat a + 4095 - (unat a + 4095) mod 4096"
    using b page_offset(2) [of ?b] by (simp add: unat_sub_u64)
  obtain q where q: "unat a + 4095 = 4096 * q + (unat a + 4095) mod 4096" by (metis mult_div_mod_eq)
  have "unat (PAGE_UP a) = 4096 * q" unfolding u using q by linarith
  then show "page_aligned (PAGE_UP a)" by (simp add: page_aligned_unat)
  have "(unat a + 4095) mod 4096 < 4096" by simp
  then show "unat a \<le> unat (PAGE_UP a)" "unat (PAGE_UP a) < unat a + 4096" unfolding u using q by linarith+
qed

lemma page_in_applied:
  "page_in {MM_REGION_MAPPED} (map (finalize_region \<circ> mark_partial) rs) va pa t =
   page_in {MM_REGION_MAPPED, MM_REGION_PARTIAL_MAPPED, MM_REGION_MARKED_FOR_MAPPING} rs va pa t"
proof -
  have "lo (finalize_region (mark_partial r)) = lo r" "hi (finalize_region (mark_partial r)) = hi r"
    "start_pa (finalize_region (mark_partial r)) = start_pa r" "start_va (finalize_region (mark_partial r)) = start_va r"
    "rtype (finalize_region (mark_partial r)) = rtype r"
    "leaf_flags (rtype r) \<noteq> 0 \<Longrightarrow> mapped (finalize_region (mark_partial r)) = MM_REGION_MAPPED \<longleftrightarrow>
       mapped r \<in> {MM_REGION_MAPPED, MM_REGION_PARTIAL_MAPPED, MM_REGION_MARKED_FOR_MAPPING}" for r
    by (auto simp: finalize_region_def mark_partial_def)
  then show ?thesis unfolding page_in_def by auto
qed

lemma region_point: "region_ok r \<Longrightarrow> r \<in> set rs \<Longrightarrow> (lo r, pl r, rtype r, mapped r) \<in> map_of_regions rs"
  using region_okD(1) [of r] by (auto simp: map_of_regions_def region_map_def)

lemma in_page_regions:
  assumes "(n, p, u, s) \<in> page_regions pb t g V"
  shows "u = t" "s = mapped (mm_region_init 0 0 0 t)" "\<exists>v\<in>V. unat v \<le> n \<and> n < unat v + 4096 \<and> p + unat v = unat (virt_to_phys pb (g v)) + n"
  using assms by (auto simp: page_regions_def region_map_def mm_region_init_def lo_def hi_def pl_def PAGE_BYTES_def)

lemma page_regionsI:
  "v \<in> V \<Longrightarrow> (unat v, unat (virt_to_phys pb (g v)), t, mapped (mm_region_init 0 0 0 t)) \<in> page_regions pb t g V"
  by (auto simp: page_regions_def region_map_def mm_region_init_def lo_def hi_def pl_def PAGE_BYTES_def intro!: bexI [of _ v])

text \<open>Entries of pages of the user data.\<close>

lemma user_leaf:
  assumes "page_aligned pa"
  shows "PTE_IS_VALID_USER (leaf_value pa (leaf_flags MM_REGION_USER_DATA OR PTE_MAP_DEFAULT_FLAGS))"
    "PTE_IS_WRITEABLE (leaf_value pa (leaf_flags MM_REGION_USER_DATA OR PTE_MAP_DEFAULT_FLAGS))"
    "PTE_GET_PA (leaf_value pa (leaf_flags MM_REGION_USER_DATA OR PTE_MAP_DEFAULT_FLAGS)) = pa"
proof -
  let ?f = "leaf_flags MM_REGION_USER_DATA OR PTE_MAP_DEFAULT_FLAGS"
  have f: "?f OR PTE_V < 1024" "bit ?f 2" "bit ?f 4" by code_simp+
  have l: "leaf_value pa ?f = PTE_BUILD pa (?f OR PTE_V)"
    by (simp add: leaf_value_def PTE_MAKE_VALID_LEAF_def PTE_BUILD_def or.assoc)
  show "PTE_GET_PA (leaf_value pa ?f) = pa" unfolding l by (rule PTE_GET_PA_BUILD [OF assms f(1)])
  have "bit (leaf_value pa ?f) n" if "bit ?f n" for n
    using that by (simp add: leaf_value_def PTE_MAKE_VALID_LEAF_def PTE_BUILD_def bit_or_iff)
  then show "PTE_IS_VALID_USER (leaf_value pa ?f)" "PTE_IS_WRITEABLE (leaf_value pa ?f)"
    using f(2,3) leaf_value_bits(1) [of pa ?f] by (simp_all add: PTE_IS_VALID_USER_def pte_bit_iffs)
qed

lemma heap_map_ok:
  assumes "vm_inv pb U root st L" "map_ok rs1" "in_va_range rs" "agrees {MM_REGION_MAPPED} pb st root rs" "map_ok rs"
    "\<forall>r\<in>set rs. mapped r \<noteq> MM_REGION_PARTIAL_MAPPED \<and> mapped r \<noteq> MM_REGION_MARKED_FOR_MAPPING"
    "map_of_regions rs1 = map_of_regions rs \<union> page_regions pb MM_REGION_USER_DATA g (pages va va')" "unat va' \<le> 2 ^ 38"
    "\<forall>v. entry pb st1 root v = entry pb st root v"
  shows "in_va_range rs1" "agrees {MM_REGION_MAPPED} pb st1 root rs1" "\<forall>r\<in>set rs1. mapped r \<noteq> MM_REGION_PARTIAL_MAPPED"
proof -
  have mk: "mapped (mm_region_init 0 0 0 MM_REGION_USER_DATA) = MM_REGION_MARKED_FOR_MAPPING" by (simp add: mm_region_init_def)
  note PR = in_page_regions [where t = MM_REGION_USER_DATA and g = g and V = "pages va va'", unfolded mk]
  have old: "s \<noteq> MM_REGION_PARTIAL_MAPPED \<and> s \<noteq> MM_REGION_MARKED_FOR_MAPPING" if "(n, p, u, s) \<in> map_of_regions rs" for n p u s
    using that assms(6) by (auto simp: map_of_regions_def region_map_def)
  show "\<forall>r\<in>set rs1. mapped r \<noteq> MM_REGION_PARTIAL_MAPPED"
  proof
    fix r assume "r \<in> set rs1"
    from region_point [OF map_okD [OF assms(2) this] this] show "mapped r \<noteq> MM_REGION_PARTIAL_MAPPED"
      unfolding assms(7) by (auto dest: old PR(2))
  qed
  show "in_va_range rs1"
    unfolding in_va_range_def
  proof (intro ballI allI impI)
    fix r and x :: u64 assume r: "r \<in> set rs1" "lo r \<le> unat x \<and> unat x < hi r"
    then have "(unat x, pl r + unat x - lo r, rtype r, mapped r) \<in> map_of_regions rs1"
      by (auto simp: map_of_regions_def region_map_def intro!: bexI [of _ r])
    then consider "(unat x, pl r + unat x - lo r, rtype r, mapped r) \<in> map_of_regions rs"
      | "(unat x, pl r + unat x - lo r, rtype r, mapped r) \<in> page_regions pb MM_REGION_USER_DATA g (pages va va')"
      unfolding assms(7) by blast
    then show "VA_IS_IN_RANGE x"
    proof cases
      case 1
      then show ?thesis using assms(3) by (auto simp: map_of_regions_def region_map_def in_va_range_def)
    next
      case 2
      then obtain v where v: "v \<in> pages va va'" "unat v \<le> unat x" "unat x < unat v + 4096" using PR(3) by blast
      have "unat v + 4096 \<le> 2 ^ 38"
      proof -
        obtain k where "unat v = 4096 * k" using v(1) unfolding pages_def page_aligned_unat dvd_def by blast
        moreover have "unat v < 4096 * 2 ^ 26" using v(1) assms(8) by (simp add: pages_def)
        ultimately show ?thesis by simp
      qed
      then show ?thesis using v(3)
        by (simp add: VA_IS_IN_RANGE_def VA_IS_IN_RANGE_FOR_USER_def USER_VA_END_def word_less_nat_alt)
    qed
  qed
  have "page_in {MM_REGION_MAPPED} rs1 v p u = page_in {MM_REGION_MAPPED} rs v p u" for v p u
    unfolding page_in_map [OF assms(2)] page_in_map [OF assms(5)] assms(7) by (auto dest: PR(2))
  then show "agrees {MM_REGION_MAPPED} pb st1 root rs1" using assms(4,9) unfolding agrees_def by simp
qed

lemma fresh_mono: "fresh L L1 g V m m' \<Longrightarrow> L1 \<subseteq> L2 \<Longrightarrow> fresh L L2 g V m m'"
  unfolding fresh_def by (simp, blast)

lemma heap_entries:
  assumes "map_ok rs1" "map_ok rs" "agrees {MM_REGION_MAPPED} pb st root rs"
    "\<forall>r\<in>set rs. mapped r \<noteq> MM_REGION_PARTIAL_MAPPED \<and> mapped r \<noteq> MM_REGION_MARKED_FOR_MAPPING"
    and R: "map_of_regions rs1 = map_of_regions rs \<union> page_regions pb MM_REGION_USER_DATA g (pages va va')"
    and A: "agrees {MM_REGION_MAPPED} pb st' root (map (finalize_region \<circ> mark_partial) rs1)"
    and v: "VA_IS_IN_RANGE v" "page_aligned v" and al: "page_aligned va"
  shows "v \<in> pages va va' \<Longrightarrow> entry pb st' root v =
      leaf_value (virt_to_phys pb (g v)) (leaf_flags MM_REGION_USER_DATA OR PTE_MAP_DEFAULT_FLAGS)"
    "v \<notin> pages va va' \<Longrightarrow> entry pb st' root v = entry pb st root v"
proof -
  let ?M = "{MM_REGION_MAPPED, MM_REGION_PARTIAL_MAPPED, MM_REGION_MARKED_FOR_MAPPING}"
  have mk: "mapped (mm_region_init 0 0 0 MM_REGION_USER_DATA) = MM_REGION_MARKED_FOR_MAPPING" by (simp add: mm_region_init_def)
  have fl: "leaf_flags MM_REGION_USER_DATA \<noteq> 0" by code_simp
  note PR = in_page_regions [where t = MM_REGION_USER_DATA and g = g and V = "pages va va'", unfolded mk]
  have ag: "(\<forall>pa t. page_in ?M rs1 v pa t \<longrightarrow> entry pb st' root v = leaf_value pa (leaf_flags t OR PTE_MAP_DEFAULT_FLAGS)) \<and>
      ((\<forall>pa t. \<not> page_in ?M rs1 v pa t) \<longrightarrow> entry pb st' root v = 0)"
    using A v unfolding agrees_def page_in_applied by blast
  show "entry pb st' root v = leaf_value (virt_to_phys pb (g v)) (leaf_flags MM_REGION_USER_DATA OR PTE_MAP_DEFAULT_FLAGS)"
    if "v \<in> pages va va'"
  proof -
    have "(unat v, unat (virt_to_phys pb (g v)), MM_REGION_USER_DATA, MM_REGION_MARKED_FOR_MAPPING) \<in> map_of_regions rs1"
      unfolding R using page_regionsI [OF that, of pb g MM_REGION_USER_DATA] unfolding mk by blast
    then have "page_in ?M rs1 v (virt_to_phys pb (g v)) MM_REGION_USER_DATA"
      unfolding page_in_map [OF assms(1)] using fl
      by (intro exI [of _ "unat (virt_to_phys pb (g v))"] exI [of _ MM_REGION_MARKED_FOR_MAPPING]) simp
    then show ?thesis using ag by blast
  qed
  show "entry pb st' root v = entry pb st root v" if nv: "v \<notin> pages va va'"
  proof -
    have no: "\<not> (unat v, p, t, s) \<in> page_regions pb MM_REGION_USER_DATA g (pages va va')" for p t s
    proof
      assume "(unat v, p, t, s) \<in> page_regions pb MM_REGION_USER_DATA g (pages va va')"
      then obtain w where w: "w \<in> pages va va'" "unat w \<le> unat v" "unat v < unat w + 4096" using PR(3) by blast
      have "w = v"
      proof -
        obtain i j where "unat w = 4096 * i" "unat v = 4096 * j"
          using w(1) v(2) unfolding pages_def page_aligned_unat dvd_def by blast
        then show ?thesis using w(2,3) by (simp flip: unat_inj_u64)
      qed
      then show False using w(1) nv by simp
    qed
    have "page_in ?M rs1 v p t = page_in {MM_REGION_MAPPED} rs v p t" for p t
    proof -
      have "s = MM_REGION_MAPPED" if "(unat v, q, t, s) \<in> map_of_regions rs" "s \<in> ?M" for q s
        using that assms(4) by (auto simp: map_of_regions_def region_map_def)
      then show ?thesis unfolding page_in_map [OF assms(1)] page_in_map [OF assms(2)] R using no by blast
    qed
    then show ?thesis using ag assms(3) v unfolding agrees_def by metis
  qed
qed

section \<open>Properties\<close>

text \<open>
  C35: growing the heap by \<open>n\<close> bytes gives the process every page up to the new end: the pages are
  fresh from the allocator, different from each other, all zero and writable for the user, and no
  other translation changes. When \<^verbatim>\<open>kmalloc\<close> does not fail, it does so unless the pages run out,
  in the loop that allocates the heap pages or in the allocation of the tables for them.
\<close>

theorem grown_heap_is_fresh_and_zero:
  assumes "vm_inv pb U (pt_root (pagetable p)) st L" "phys_ok pb U" "map_ok (pt_map (pagetable p))" "in_va_range (pt_map (pagetable p))"
    "agrees {MM_REGION_MAPPED} pb st (pt_root (pagetable p)) (pt_map (pagetable p))"
    "\<forall>r\<in>set (pt_map (pagetable p)). mapped r \<noteq> MM_REGION_PARTIAL_MAPPED \<and> mapped r \<noteq> MM_REGION_MARKED_FOR_MAPPING"
    "0 < sint n" "unat (heap_end p) + unat n + 4096 \<le> 2 ^ 38"
    "map_of_regions (pt_map (pagetable p)) \<inter> in_range (unat (PAGE_UP (heap_end p))) (unat (PAGE_UP (heap_end p + n))) = {}"
    "\<forall>v. kok v"
  shows "\<exists>va' rs1 st1 m1. heap_loop pb kok MM_REGION_USER_DATA (PAGE_UP (heap_end p)) (heap_end p + n) (pt_map (pagetable p)) st m =
      Some (va', rs1, st1, m1) \<and>
    ((\<exists>p' st' m' L' g. proc_grow_memory pb kok n p st m = Some (0, p', st', m') \<and> heap_end p' = heap_end p + n \<and>
      vm_inv pb U (pt_root (pagetable p)) st' L' \<and>
      fresh L L' g (pages (PAGE_UP (heap_end p)) (PAGE_UP (heap_end p + n))) m m' \<and>
      (\<forall>v\<in>pages (PAGE_UP (heap_end p)) (PAGE_UP (heap_end p + n)). uaddr pb st' (pt_root (pagetable p)) v = Some (g v, True)) \<and>
      (\<forall>v. VA_IS_IN_RANGE v \<and> page_aligned v \<and> v \<notin> pages (PAGE_UP (heap_end p)) (PAGE_UP (heap_end p + n)) \<longrightarrow>
         entry pb st' (pt_root (pagetable p)) v = entry pb st (pt_root (pagetable p)) v)) \<or>
     va' < heap_end p + n \<and> free_set (vpages st1) = {} \<or>
     (\<exists>rs2 st2. map_regions pb (pt_root (pagetable p)) rs1 st1 = Some (- ENOMEM, rs2, st2) \<and> free_set (vpages st2) = {}))"
  (is "\<exists>va' rs1 st1 m1. ?H va' rs1 st1 m1 \<and> (?S \<or> ?B va' st1 \<or> ?C rs1 st1)")
proof -
  let ?root = "pt_root (pagetable p)" and ?rs = "pt_map (pagetable p)" and ?a = "PAGE_UP (heap_end p)" and ?e = "heap_end p + n"
  let ?E = "unat (PAGE_UP ?e)"
  have u: "unat ?e = unat (heap_end p) + unat n" using assms(8) by (subst unat_add_u64) simp_all
  have b: "unat (heap_end p) + 4096 < 2 ^ 64" "unat ?e + 4096 < 2 ^ 64" using assms(8) u by simp_all
  note S = PAGE_UP_facts [OF b(1)] and T = PAGE_UP_facts [OF b(2)]
  have n: "0 < unat n" using assms(7) sint_u64(2) [of n] by simp
  have E: "?E < 2 ^ 64" "4096 dvd ?E" "unat ?e \<le> ?E" "?E < unat ?e + 4096" "?E \<le> 2 ^ 38"
    using T assms(8) u by (simp_all add: page_aligned_unat)
  have aE: "unat ?a \<le> ?E"
  proof -
    obtain i j where "unat ?a = 4096 * i" "?E = 4096 * j" using S(1) E(2) unfolding page_aligned_unat dvd_def by blast
    then show ?thesis using S(3) E(3) u by simp
  qed
  obtain va' rs1 st1 m1 where h: "heap_loop pb kok MM_REGION_USER_DATA ?a ?e ?rs st m = Some (va', rs1, st1, m1)"
      "heap_grown pb U ?root kok MM_REGION_USER_DATA ?a ?E ?rs st L m va' rs1 st1 m1" "va' < ?e \<longleftrightarrow> unat va' < ?E"
    using heap_loop_ok [OF assms(2) E(1-4) assms(1,3) S(1) aE assms(9), of kok MM_REGION_USER_DATA m] by blast
  obtain L1 g where g: "vm_inv pb U ?root st1 L1" "fresh L L1 g (pages ?a va') m m1" "map_ok rs1"
      "map_of_regions rs1 = map_of_regions ?rs \<union> page_regions pb MM_REGION_USER_DATA g (pages ?a va')"
      "\<forall>v. entry pb st1 ?root v = entry pb st ?root v" "unat va' \<le> ?E" "\<forall>v\<in>pages ?a va'. unat (g v) \<in> U"
      "unat va' = ?E \<or> free_set (vpages st1) = {}"
    using h(2) assms(10) unfolding heap_grown_def by blast
  have LL: "L \<subseteq> L1" using g(2) by (simp add: fresh_def)
  have "?S \<or> ?B va' st1 \<or> ?C rs1 st1"
  proof (cases "unat va' = ?E")
    case False
    then have "va' < ?e \<and> free_set (vpages st1) = {}" using g(6,8) h(3) by auto
    then show ?thesis by blast
  next
    case full: True
    then have va': "va' = PAGE_UP ?e" by (simp only: unat_inj_u64)
    have "unat va' \<le> 2 ^ 38" using g(6) E(5) by simp
    note M = heap_map_ok [OF assms(1) g(3) assms(4,5,3,6) g(4) this g(5)]
    obtain err rs' st' L' where r: "vm_inv pb U ?root st' L'" "L1 \<subseteq> L'"
        "map_regions pb ?root rs1 st1 = Some (err, rs', st')"
        "err = 0 \<and> page_table_apply_mapping pb ?root rs1 st1 = Some (0, map (finalize_region \<circ> mark_partial) rs1, st') \<and>
           agrees {MM_REGION_MAPPED} pb st' ?root (map (finalize_region \<circ> mark_partial) rs1) \<or>
         err = - ENOMEM \<and> free_set (vpages st') = {}"
      using apply_mapping_ok [OF g(1,3) M(1,2,3)] by blast
    from r(4) show ?thesis
    proof (elim disjE conjE)
      assume "err = - ENOMEM" "free_set (vpages st') = {}"
      then show ?thesis using r(3) by blast
    next
      assume ap: "page_table_apply_mapping pb ?root rs1 st1 = Some (0, map (finalize_region \<circ> mark_partial) rs1, st')"
        and ag: "agrees {MM_REGION_MAPPED} pb st' ?root (map (finalize_region \<circ> mark_partial) rs1)"
      note HE = heap_entries [OF g(3) assms(3,5,6) g(4) ag _ _ S(1)]
      have "\<not> va' < ?e" using h(3) full by simp
      then have res: "proc_grow_memory pb kok n p st m = Some (0, p\<lparr>pagetable := (pagetable p)\<lparr>pt_map := map (finalize_region \<circ> mark_partial) rs1\<rparr>,
          heap_end := ?e\<rparr>, st', m1)"
        using assms(7) h(1) ap by (simp add: proc_grow_memory_def uvm_alloc_heap_def Let_def)
      have tr: "uaddr pb st' ?root v = Some (g v, True)" if v: "v \<in> pages ?a va'" for v
      proof -
        have pv: "page_aligned v" "unat v < 2 ^ 38" using v E(5) full by (auto simp: pages_def)
        then have ur: "VA_IS_IN_RANGE_FOR_USER v" by (simp add: VA_IS_IN_RANGE_FOR_USER_def USER_VA_END_def word_less_nat_alt)
        have "page_aligned (g v)" using g(2) v by (simp add: fresh_def)
        then have al: "page_aligned (virt_to_phys pb (g v))"
          unfolding virt_to_phys_def by (intro page_aligned_add page_aligned_diff page_aligned_offset vm_invD(4) [OF assms(1)])
        have "unat (g v) \<in> U" using g(7) v by blast
        then have nz: "virt_to_phys pb (g v) \<noteq> 0" using assms(2) unfolding phys_ok_def by fastforce
        have d: "PAGE_DOWN v = v" using pv(1) by (simp add: PAGE_DOWN_eq page_aligned_def)
        show ?thesis using HE(1) [OF _ pv(1) v] ur user_leaf [OF al] nz
          by (simp add: uaddr_def d VA_IS_IN_RANGE_def phys_to_virt_def virt_to_phys_def)
      qed
      show ?thesis
        by (rule disjI1, intro exI [of _ "p\<lparr>pagetable := (pagetable p)\<lparr>pt_map := map (finalize_region \<circ> mark_partial) rs1\<rparr>, heap_end := ?e\<rparr>"]
            exI [of _ st'] exI [of _ m1] exI [of _ L'] exI [of _ g])
          (use res r(1) fresh_mono [OF g(2) r(2)] tr HE(2) va' in simp)
    qed
  qed
  then show ?thesis using h(1) by (intro exI [of _ va'] exI [of _ rs1] exI [of _ st1] exI [of _ m1] conjI)
qed

lemma example_phys_ok: "phys_ok 0x80000000 {0x1000..<0x5000}"
  unfolding phys_ok_def
proof
  fix u :: nat assume u: "u \<in> {0x1000..<0x5000}"
  have "virt_to_phys 0x80000000 (of_nat u) = 0x4080000000 + of_nat u" by (simp add: virt_to_phys_def PAGE_OFFSET_def)
  moreover have "unat (0x4080000000 + of_nat u :: u64) = 0x4080000000 + u"
    using u by (subst unat_add_u64) (simp_all add: unat_of_nat)
  ultimately have e: "unat (virt_to_phys 0x80000000 (of_nat u)) = 0x4080000000 + u" by simp
  then have "virt_to_phys 0x80000000 (of_nat u) \<noteq> 0" by (metis add_is_0 unat_0 zero_neq_numeral)
  then show "unat (virt_to_phys 0x80000000 (of_nat u)) + 4096 < 2 ^ 56 \<and> virt_to_phys 0x80000000 (of_nat u) \<noteq> 0" using u e by simp
qed

theorem grown_heap_is_fresh_and_zero_witness:
  "\<exists>st root. (\<exists>p' st' m'. proc_grow_memory 0x80000000 (\<lambda>_. True) 0x1000
        \<lparr>pagetable = \<lparr>pt_root = root, pt_map = []\<rparr>, heap_begin = 0x400000, heap_end = 0x400000, stack_low = 0\<rparr> st (\<lambda>_. 7) = Some (0, p', st', m')) \<or>
     (\<exists>va' rs1 st1 m1. heap_loop 0x80000000 (\<lambda>_. True) MM_REGION_USER_DATA 0x400000 0x401000 [] st (\<lambda>_. 7) = Some (va', rs1, st1, m1) \<and>
        (free_set (vpages st1) = {} \<or>
         (\<exists>rs2 st2. map_regions 0x80000000 root rs1 st1 = Some (- ENOMEM, rs2, st2) \<and> free_set (vpages st2) = {})))"
proof -
  obtain st root where t: "vm_inv 0x80000000 {0x1000..<0x5000} root st {(unat root, 0)}" "\<forall>a b c. flat 0x80000000 st root a b c = 0"
    using example_tree by (elim exE conjE)
  let ?p = "\<lparr>pagetable = \<lparr>pt_root = root, pt_map = []\<rparr>, heap_begin = 0x400000, heap_end = 0x400000, stack_low = 0\<rparr>"
  have up: "PAGE_UP 0x400000 = 0x400000" by code_simp
  have "agrees {MM_REGION_MAPPED} 0x80000000 st root []" using t(2) by (simp add: agrees_def page_in_def entry_def)
  then have "\<exists>va' rs1 st1 m1. heap_loop 0x80000000 (\<lambda>_. True) MM_REGION_USER_DATA 0x400000 0x401000 [] st (\<lambda>_. 7) = Some (va', rs1, st1, m1) \<and>
      ((\<exists>p' st' m'. proc_grow_memory 0x80000000 (\<lambda>_. True) 0x1000 ?p st (\<lambda>_. 7) = Some (0, p', st', m')) \<or> free_set (vpages st1) = {} \<or>
       (\<exists>rs2 st2. map_regions 0x80000000 root rs1 st1 = Some (- ENOMEM, rs2, st2) \<and> free_set (vpages st2) = {}))"
    using grown_heap_is_fresh_and_zero [of "0x80000000" "{0x1000..<0x5000}" ?p st "{(unat root, 0)}" "0x1000" "\<lambda>_. True" "\<lambda>_. 7"]
      t(1) example_phys_ok by (simp add: in_va_range_def up) blast
  then show ?thesis by blast
qed

end
