(* ===== verification/Bio.thy ===== *)
theory Bio
  imports Vimix_Prelude
begin

text \<open>
  The buffer cache: \<^verbatim>\<open>kernel/kernel/bio.c\<close> and \<^verbatim>\<open>kernel/kernel/buf.c\<close>. A buffer
  is named by a number in the order of allocation, its address; the list of the cache has these
  numbers. The block devices are a function from device and block number to the bytes of the
  block, and every write to a device is also recorded in the order of the writes. \<open>ok\<close> says which
  calls of \<^verbatim>\<open>kmalloc\<close> succeed. The result \<open>None\<close> of an operation that returns a buffer is a
  panic, the use of a NULL pointer, or the wait for a buffer that is locked. Reference counts are
  natural numbers: a wrap-around needs more users of one buffer than there can be processes. An
  operation is one step; between the release of the cache's lock and the lock of the buffer in
  \<^verbatim>\<open>bio_get_from_cache\<close>, where the code lets others run, the count already keeps the buffer.
\<close>

section \<open>The code\<close>

type_synonym block = "nat \<Rightarrow> byte"

record buf =
  b_valid :: bool
  b_dev :: nat
  b_blockno :: nat
  b_locked :: bool
  b_refcnt :: nat
  b_data :: block

record bio =
  bufs :: "nat \<Rightarrow> buf"
  buf_list :: "nat list"
  num_buffers :: nat
  min_buffers :: nat
  max_free_buffers :: nat
  free_buffers :: nat
  next_buf :: nat
  disk :: "nat \<Rightarrow> nat \<Rightarrow> block"
  block_devs :: "nat set"
  writes :: "(nat \<times> nat \<times> block) list"

definition upd_buf :: "nat \<Rightarrow> (buf \<Rightarrow> buf) \<Rightarrow> bio \<Rightarrow> bio" where
  "upd_buf p f s = s\<lparr>bufs := (bufs s)(p := f (bufs s p))\<rparr>"

definition buf_reinit :: "nat \<Rightarrow> nat \<Rightarrow> nat \<Rightarrow> bio \<Rightarrow> bio" where
  "buf_reinit p dev blockno s =
     upd_buf p (\<lambda>b. b\<lparr>b_dev := dev, b_blockno := blockno, b_valid := False, b_refcnt := 1\<rparr>) s"

definition buf_init :: "nat \<Rightarrow> nat \<Rightarrow> nat \<Rightarrow> bio \<Rightarrow> bio" where
  "buf_init p dev blockno s =
     (let s1 = buf_reinit p dev blockno (upd_buf p (\<lambda>b. b\<lparr>b_locked := False\<rparr>) s)
      in s1\<lparr>buf_list := p # buf_list s1, num_buffers := num_buffers s1 + 1\<rparr>)"

definition buf_alloc_init :: "(nat \<Rightarrow> bool) \<Rightarrow> nat \<Rightarrow> nat \<Rightarrow> bio \<Rightarrow> nat option \<times> bio" where
  "buf_alloc_init ok dev blockno s =
     (if \<not> ok (next_buf s) then (None, s)
      else (Some (next_buf s), buf_init (next_buf s) dev blockno (s\<lparr>next_buf := next_buf s + 1\<rparr>)))"

definition buf_deinit :: "nat \<Rightarrow> bio \<Rightarrow> bio" where
  "buf_deinit p s = s\<lparr>buf_list := remove1 p (buf_list s), num_buffers := num_buffers s - 1\<rparr>"

text \<open>The loop of \<^verbatim>\<open>bio_get_from_cache\<close>: the buffer of the block and the first unused buffer.\<close>

fun find_buf :: "(nat \<Rightarrow> buf) \<Rightarrow> nat \<Rightarrow> nat \<Rightarrow> nat list \<Rightarrow> nat option \<Rightarrow> nat option \<times> nat option" where
  "find_buf bs dev blockno [] free_buffer = (None, free_buffer)"
| "find_buf bs dev blockno (p # ps) free_buffer =
     (if b_dev (bs p) = dev \<and> b_blockno (bs p) = blockno then (Some p, free_buffer)
      else find_buf bs dev blockno ps
             (if free_buffer = None \<and> b_refcnt (bs p) = 0 then Some p else free_buffer))"

definition sleep_lock :: "nat \<Rightarrow> bio \<Rightarrow> (nat \<times> bio) option" where
  "sleep_lock p s = (if b_locked (bufs s p) then None else Some (p, upd_buf p (\<lambda>b. b\<lparr>b_locked := True\<rparr>) s))"

definition bio_get_from_cache :: "(nat \<Rightarrow> bool) \<Rightarrow> nat \<Rightarrow> nat \<Rightarrow> bio \<Rightarrow> (nat \<times> bio) option" where
  "bio_get_from_cache ok dev blockno s =
     (case find_buf (bufs s) dev blockno (buf_list s) None of
        (Some p, _) \<Rightarrow>
          sleep_lock p (upd_buf p (\<lambda>b. b\<lparr>b_refcnt := b_refcnt b + 1\<rparr>)
            (if b_refcnt (bufs s p) = 0 then s\<lparr>free_buffers := free_buffers s - 1\<rparr> else s))
      | (None, None) \<Rightarrow>
          (case buf_alloc_init ok dev blockno s of (None, _) \<Rightarrow> None | (Some p, s1) \<Rightarrow> sleep_lock p s1)
      | (None, Some p) \<Rightarrow>
          sleep_lock p ((buf_reinit p dev blockno s)\<lparr>free_buffers := free_buffers s - 1\<rparr>))"

definition bio_read :: "(nat \<Rightarrow> bool) \<Rightarrow> nat \<Rightarrow> nat \<Rightarrow> bio \<Rightarrow> (nat \<times> bio) option" where
  "bio_read ok dev blockno s =
     (case bio_get_from_cache ok dev blockno s of
        None \<Rightarrow> None
      | Some (p, s1) \<Rightarrow>
          if b_valid (bufs s1 p) then Some (p, s1)
          else if dev \<notin> block_devs s1 then None
          else Some (p, upd_buf p (\<lambda>b. b\<lparr>b_data := disk s1 (b_dev b) (b_blockno b), b_valid := True\<rparr>) s1))"

definition bio_write :: "nat \<Rightarrow> bio \<Rightarrow> bio option" where
  "bio_write p s =
     (let b = bufs s p in
      if b_dev b \<notin> block_devs s then None
      else Some (s\<lparr>disk := (disk s)(b_dev b := (disk s (b_dev b))(b_blockno b := b_data b)),
                   writes := writes s @ [(b_dev b, b_blockno b, b_data b)]\<rparr>))"

definition bio_has_too_many_buffers :: "bio \<Rightarrow> bool" where
  "bio_has_too_many_buffers s =
     (if num_buffers s \<le> min_buffers s then False
      else if free_buffers s \<le> max_free_buffers s then False
      else True)"

definition bio_might_free :: "nat \<Rightarrow> bio \<Rightarrow> bio" where
  "bio_might_free p s =
     (if bio_has_too_many_buffers s then buf_deinit p s
      else s\<lparr>buf_list := remove1 p (buf_list s) @ [p], free_buffers := free_buffers s + 1\<rparr>)"

definition bio_release :: "nat \<Rightarrow> bio \<Rightarrow> bio" where
  "bio_release p s =
     (let s1 = upd_buf p (\<lambda>b. b\<lparr>b_locked := False, b_refcnt := b_refcnt b - 1\<rparr>) s in
      if b_refcnt (bufs s1 p) = 0 then bio_might_free p s1 else s1)"

definition bio_get :: "nat \<Rightarrow> bio \<Rightarrow> bio" where
  "bio_get p s = upd_buf p (\<lambda>b. b\<lparr>b_refcnt := b_refcnt b + 1\<rparr>) s"

definition bio_put :: "nat \<Rightarrow> bio \<Rightarrow> bio" where
  "bio_put p s = upd_buf p (\<lambda>b. b\<lparr>b_refcnt := b_refcnt b - 1\<rparr>) s"

fun free_extra :: "nat list \<Rightarrow> bio \<Rightarrow> bio" where
  "free_extra [] s = s"
| "free_extra (p # ps) s =
     free_extra ps
       (if b_refcnt (bufs s p) = 0 \<and> bio_has_too_many_buffers s
        then buf_deinit p (s\<lparr>free_buffers := free_buffers s - 1\<rparr>) else s)"

definition bio_cache_free_extra_buffers :: "bio \<Rightarrow> bio" where
  "bio_cache_free_extra_buffers s = free_extra (buf_list s) s"

text \<open>The loop of \<^verbatim>\<open>bio_cache_set_min_buffers\<close>.\<close>

primrec alloc_free_buffers :: "(nat \<Rightarrow> bool) \<Rightarrow> nat \<Rightarrow> bio \<Rightarrow> bio option" where
  "alloc_free_buffers ok 0 s = Some s"
| "alloc_free_buffers ok (Suc n) s =
     (case buf_alloc_init ok 0 0 s of
        (None, _) \<Rightarrow> None
      | (Some p, s1) \<Rightarrow>
          alloc_free_buffers ok n
            ((upd_buf p (\<lambda>b. b\<lparr>b_refcnt := 0\<rparr>) s1)\<lparr>free_buffers := free_buffers s1 + 1\<rparr>))"

definition bio_cache_set_min_buffers :: "(nat \<Rightarrow> bool) \<Rightarrow> int \<Rightarrow> bio \<Rightarrow> (int \<times> bio) option" where
  "bio_cache_set_min_buffers ok m s =
     (if m < 3 then Some (- EINVAL, s)
      else let s1 = s\<lparr>min_buffers := nat m\<rparr> in
           (case alloc_free_buffers ok (min_buffers s1 - num_buffers s1) s1 of
              None \<Rightarrow> None
            | Some s2 \<Rightarrow> Some (0, bio_cache_free_extra_buffers s2)))"

definition bio_cache_set_max_free_buffers :: "int \<Rightarrow> bio \<Rightarrow> int \<times> bio" where
  "bio_cache_set_max_free_buffers m s =
     (if m < 0 then (- EINVAL, s)
      else (0, bio_cache_free_extra_buffers (s\<lparr>max_free_buffers := nat m\<rparr>)))"

definition bio_init :: "(nat \<Rightarrow> bool) \<Rightarrow> bio \<Rightarrow> bio option" where
  "bio_init ok s =
     (case bio_cache_set_min_buffers ok 16
             (s\<lparr>buf_list := [], num_buffers := 0, free_buffers := 0, max_free_buffers := 16\<rparr>) of
        None \<Rightarrow> None
      | Some (_, s1) \<Rightarrow> Some s1)"

section \<open>The invariant\<close>

text \<open>
  One buffer per block of a device, counters that count, and unused buffers without changes that
  are not on the device.
\<close>

definition bio_inv :: "bio \<Rightarrow> bool" where
  "bio_inv s \<longleftrightarrow> distinct (buf_list s) \<and> (\<forall>p\<in>set (buf_list s). p < next_buf s) \<and>
     (\<forall>p\<in>set (buf_list s). \<forall>q\<in>set (buf_list s).
        b_dev (bufs s p) \<noteq> 0 \<and> b_dev (bufs s p) = b_dev (bufs s q) \<and> b_blockno (bufs s p) = b_blockno (bufs s q) \<longrightarrow> p = q) \<and>
     num_buffers s = length (buf_list s) \<and>
     free_buffers s = length (filter (\<lambda>p. b_refcnt (bufs s p) = 0) (buf_list s)) \<and>
     (\<forall>p\<in>set (buf_list s). b_refcnt (bufs s p) = 0 \<longrightarrow> \<not> b_locked (bufs s p) \<and>
        (b_valid (bufs s p) \<longrightarrow> b_data (bufs s p) = disk s (b_dev (bufs s p)) (b_blockno (bufs s p))))"

text \<open>The content of a block for the users of the cache.\<close>

definition view :: "bio \<Rightarrow> nat \<Rightarrow> nat \<Rightarrow> block" where
  "view s dev blockno =
     (case fst (find_buf (bufs s) dev blockno (buf_list s) None) of
        None \<Rightarrow> disk s dev blockno
      | Some p \<Rightarrow> if b_valid (bufs s p) then b_data (bufs s p) else disk s dev blockno)"

definition is_buf :: "bio \<Rightarrow> nat \<Rightarrow> nat \<Rightarrow> nat \<Rightarrow> bool" where
  "is_buf s p dev blockno \<longleftrightarrow> p \<in> set (buf_list s) \<and> b_dev (bufs s p) = dev \<and> b_blockno (bufs s p) = blockno"

lemma upd_buf_simps [simp]:
  "buf_list (upd_buf p f s) = buf_list s" "bufs (upd_buf p f s) = (bufs s)(p := f (bufs s p))"
  "num_buffers (upd_buf p f s) = num_buffers s" "free_buffers (upd_buf p f s) = free_buffers s"
  "next_buf (upd_buf p f s) = next_buf s" "disk (upd_buf p f s) = disk s" "block_devs (upd_buf p f s) = block_devs s"
  "writes (upd_buf p f s) = writes s" "min_buffers (upd_buf p f s) = min_buffers s" "max_free_buffers (upd_buf p f s) = max_free_buffers s"
  by (simp_all add: upd_buf_def)

lemma find_buf_Some:
  assumes "find_buf bs dev blockno ps fr = (Some p, q)"
  shows "p \<in> set ps" "b_dev (bs p) = dev" "b_blockno (bs p) = blockno"
  using assms by (induction bs dev blockno ps fr rule: find_buf.induct) (auto split: if_splits)

lemma find_buf_None:
  assumes "find_buf bs dev blockno ps fr = (None, q)"
  shows "\<forall>p\<in>set ps. \<not> (b_dev (bs p) = dev \<and> b_blockno (bs p) = blockno)"
    "q = Some p \<Longrightarrow> fr = None \<Longrightarrow> p \<in> set ps \<and> b_refcnt (bs p) = 0"
    "fr = None \<Longrightarrow> q = None \<Longrightarrow> \<forall>p\<in>set ps. b_refcnt (bs p) \<noteq> 0"
proof -
  show "\<forall>p\<in>set ps. \<not> (b_dev (bs p) = dev \<and> b_blockno (bs p) = blockno)"
    using assms by (induction bs dev blockno ps fr rule: find_buf.induct) (auto split: if_splits)
  have "q = fr \<and> (fr = None \<longrightarrow> (\<forall>p\<in>set ps. b_refcnt (bs p) \<noteq> 0)) \<or>
      fr = None \<and> (\<exists>p\<in>set ps. q = Some p \<and> b_refcnt (bs p) = 0)"
    using assms by (induction bs dev blockno ps fr rule: find_buf.induct) (auto split: if_splits)
  then show "q = Some p \<Longrightarrow> fr = None \<Longrightarrow> p \<in> set ps \<and> b_refcnt (bs p) = 0"
    "fr = None \<Longrightarrow> q = None \<Longrightarrow> \<forall>p\<in>set ps. b_refcnt (bs p) \<noteq> 0" by auto
qed

lemma count_upd:
  assumes "distinct xs" "p \<in> set xs" "\<And>q. q \<in> set xs \<Longrightarrow> q \<noteq> p \<Longrightarrow> P' q = P q"
  shows "length (filter P' xs) + (if P p then 1 else 0) = length (filter P xs) + (if P' p then 1 else 0)"
proof -
  have *: "distinct xs \<Longrightarrow> length (filter Q xs) = card {q \<in> set xs. Q q}" for Q
    by (metis distinct_card distinct_filter set_filter)
  let ?R = "{q \<in> set xs. q \<noteq> p \<and> P q}"
  have "{q \<in> set xs. P q} = (if P p then insert p ?R else ?R)" "{q \<in> set xs. P' q} = (if P' p then insert p ?R else ?R)"
    using assms(2,3) by auto
  moreover have "finite ?R" "p \<notin> ?R" by auto
  ultimately show ?thesis unfolding * [OF assms(1)] by simp
qed

lemma bio_invD:
  assumes "bio_inv s"
  shows "distinct (buf_list s)" "p \<in> set (buf_list s) \<Longrightarrow> p < next_buf s"
    "is_buf s p dev blockno \<Longrightarrow> is_buf s q dev blockno \<Longrightarrow> dev \<noteq> 0 \<Longrightarrow> p = q"
    "num_buffers s = length (buf_list s)" "free_buffers s = length (filter (\<lambda>p. b_refcnt (bufs s p) = 0) (buf_list s))"
    "p \<in> set (buf_list s) \<Longrightarrow> b_refcnt (bufs s p) = 0 \<Longrightarrow> \<not> b_locked (bufs s p)"
    "p \<in> set (buf_list s) \<Longrightarrow> b_refcnt (bufs s p) = 0 \<Longrightarrow> b_valid (bufs s p) \<Longrightarrow>
       b_data (bufs s p) = disk s (b_dev (bufs s p)) (b_blockno (bufs s p))"
proof -
  note c = assms [unfolded bio_inv_def]
  show "distinct (buf_list s)" "p \<in> set (buf_list s) \<Longrightarrow> p < next_buf s" "num_buffers s = length (buf_list s)"
    "free_buffers s = length (filter (\<lambda>p. b_refcnt (bufs s p) = 0) (buf_list s))"
    "p \<in> set (buf_list s) \<Longrightarrow> b_refcnt (bufs s p) = 0 \<Longrightarrow> \<not> b_locked (bufs s p)"
    "p \<in> set (buf_list s) \<Longrightarrow> b_refcnt (bufs s p) = 0 \<Longrightarrow> b_valid (bufs s p) \<Longrightarrow>
       b_data (bufs s p) = disk s (b_dev (bufs s p)) (b_blockno (bufs s p))"
    using c by simp_all
  show "is_buf s p dev blockno \<Longrightarrow> is_buf s q dev blockno \<Longrightarrow> dev \<noteq> 0 \<Longrightarrow> p = q"
    using c unfolding is_buf_def by metis
qed

text \<open>References and lock of the buffer of a block.\<close>

definition refs :: "bio \<Rightarrow> nat \<Rightarrow> nat \<Rightarrow> nat" where
  "refs s dev blockno =
     (case fst (find_buf (bufs s) dev blockno (buf_list s) None) of None \<Rightarrow> 0 | Some p \<Rightarrow> b_refcnt (bufs s p))"

definition held :: "bio \<Rightarrow> nat \<Rightarrow> nat \<Rightarrow> bool" where
  "held s dev blockno =
     (case fst (find_buf (bufs s) dev blockno (buf_list s) None) of None \<Rightarrow> False | Some p \<Rightarrow> b_locked (bufs s p))"

lemma find_is_buf:
  assumes "bio_inv s" "dev \<noteq> 0" "is_buf s p dev blockno"
  shows "fst (find_buf (bufs s) dev blockno (buf_list s) fr) = Some p"
proof (cases "find_buf (bufs s) dev blockno (buf_list s) fr")
  case (Pair a q)
  then show ?thesis
  proof (cases a)
    case None
    then show ?thesis using find_buf_None(1) [of "bufs s" dev blockno "buf_list s" fr q] Pair assms(3) by (auto simp: is_buf_def)
  next
    case (Some r)
    then have r: "is_buf s r dev blockno" using find_buf_Some [of "bufs s" dev blockno "buf_list s" fr r q] Pair by (simp add: is_buf_def)
    show ?thesis using bio_invD(3) [OF assms(1) r assms(3,2)] Pair Some by simp
  qed
qed

lemma find_no_buf:
  assumes "\<forall>p. \<not> is_buf s p dev blockno"
  shows "fst (find_buf (bufs s) dev blockno (buf_list s) fr) = None"
proof (cases "find_buf (bufs s) dev blockno (buf_list s) fr")
  case (Pair a q)
  then show ?thesis using find_buf_Some [of "bufs s" dev blockno "buf_list s" fr _ q] assms
    by (cases a) (auto simp: is_buf_def)
qed

lemma abs_buf:
  assumes "bio_inv s" "dev \<noteq> 0" "is_buf s p dev blockno"
  shows "view s dev blockno = (if b_valid (bufs s p) then b_data (bufs s p) else disk s dev blockno)"
    "refs s dev blockno = b_refcnt (bufs s p)" "held s dev blockno = b_locked (bufs s p)"
  using find_is_buf [OF assms] by (simp_all add: view_def refs_def held_def)

lemma abs_no_buf:
  assumes "\<forall>p. \<not> is_buf s p dev blockno"
  shows "view s dev blockno = disk s dev blockno" "refs s dev blockno = 0" "\<not> held s dev blockno"
  using find_no_buf [OF assms] by (simp_all add: view_def refs_def held_def)

text \<open>A free buffer says nothing: its block reads as the device has it.\<close>

lemma abs_free:
  assumes "bio_inv s" "dev \<noteq> 0" "refs s dev blockno = 0"
  shows "view s dev blockno = disk s dev blockno" "\<not> held s dev blockno"
proof -
  have "view s dev blockno = disk s dev blockno \<and> \<not> held s dev blockno"
  proof (cases "\<exists>p. is_buf s p dev blockno")
    case True
    then obtain p where p: "is_buf s p dev blockno" by blast
    then show ?thesis using abs_buf [OF assms(1,2) p] assms(3) bio_invD(6,7) [OF assms(1), of p] by (auto simp: is_buf_def)
  next
    case False
    then show ?thesis using abs_no_buf by blast
  qed
  then show "view s dev blockno = disk s dev blockno" "\<not> held s dev blockno" by auto
qed

text \<open>An operation on one block leaves the others and the buffers others hold.\<close>

definition holds :: "bio \<Rightarrow> nat \<Rightarrow> nat \<Rightarrow> nat \<Rightarrow> bool" where
  "holds s p dev blockno \<longleftrightarrow> is_buf s p dev blockno \<and> b_locked (bufs s p) \<and> 0 < b_refcnt (bufs s p)"

definition others_same :: "nat \<Rightarrow> nat \<Rightarrow> bio \<Rightarrow> bio \<Rightarrow> bool" where
  "others_same dev blockno s s' \<longleftrightarrow>
     (\<forall>d b. d \<noteq> 0 \<and> (d, b) \<noteq> (dev, blockno) \<longrightarrow>
        view s' d b = view s d b \<and> refs s' d b = refs s d b \<and> held s' d b = held s d b \<and> disk s' d b = disk s d b \<and>
        (\<forall>q. holds s q d b \<longrightarrow> holds s' q d b \<and> bufs s' q = bufs s q)) \<and>
     block_devs s' = block_devs s"

lemma others_trans: "others_same d b s s1 \<Longrightarrow> others_same d b s1 s2 \<Longrightarrow> others_same d b s s2"
  unfolding others_same_def by simp

text \<open>
  How to show it: every buffer of another block is kept unless it was unused, and no new one
  holds something else than the device.
\<close>

lemma others_sameI:
  assumes inv: "bio_inv s" "bio_inv s'" and dv: "block_devs s' = block_devs s"
    and dk: "\<And>d b. (d, b) \<noteq> (dev, blockno) \<Longrightarrow> disk s' d b = disk s d b"
    and keep: "\<And>q d b. is_buf s q d b \<Longrightarrow> (d, b) \<noteq> (dev, blockno) \<Longrightarrow> d \<noteq> 0 \<Longrightarrow> b_refcnt (bufs s q) \<noteq> 0 \<Longrightarrow> is_buf s' q d b \<and> bufs s' q = bufs s q"
    and old: "\<And>q d b. is_buf s' q d b \<Longrightarrow> (d, b) \<noteq> (dev, blockno) \<Longrightarrow> d \<noteq> 0 \<Longrightarrow> is_buf s q d b \<and> bufs s' q = bufs s q"
  shows "others_same dev blockno s s'"
proof -
  have A: "view s' d b = view s d b \<and> refs s' d b = refs s d b \<and> held s' d b = held s d b"
    if o: "d \<noteq> 0" "(d, b) \<noteq> (dev, blockno)" for d b
  proof (cases "\<exists>q. is_buf s' q d b")
    case True
    then obtain q where q: "is_buf s' q d b" by blast
    then have q0: "is_buf s q d b" "bufs s' q = bufs s q" using old o by blast+
    show ?thesis using abs_buf [OF inv(1) o(1) q0(1)] abs_buf [OF inv(2) o(1) q] q0(2) dk [OF o(2)] by simp
  next
    case False
    then have n: "\<forall>q. \<not> is_buf s' q d b" by blast
    have "refs s d b = 0"
    proof (cases "\<exists>q. is_buf s q d b")
      case True
      then obtain q where q: "is_buf s q d b" by blast
      then show ?thesis using keep [OF q o(2,1)] n abs_buf(2) [OF inv(1) o(1) q] by (cases "b_refcnt (bufs s q) = 0") auto
    next
      case False
      then show ?thesis using abs_no_buf(2) by blast
    qed
    then show ?thesis using abs_free [OF inv(1) o(1)] abs_no_buf [OF n] dk [OF o(2)] by simp
  qed
  have H: "holds s' q d b \<and> bufs s' q = bufs s q" if "d \<noteq> 0" "(d, b) \<noteq> (dev, blockno)" "holds s q d b" for q d b
    using keep [of q d b] that unfolding holds_def by simp
  show ?thesis unfolding others_same_def
  proof (rule conjI [OF _ dv], intro allI impI, elim conjE)
    fix d b assume o: "d \<noteq> 0" "(d, b) \<noteq> (dev, blockno)"
    show "view s' d b = view s d b \<and> refs s' d b = refs s d b \<and> held s' d b = held s d b \<and> disk s' d b = disk s d b \<and>
        (\<forall>q. holds s q d b \<longrightarrow> holds s' q d b \<and> bufs s' q = bufs s q)"
      using A [OF o] dk [OF o(2)] H [OF o] by blast
  qed
qed

section \<open>The operations\<close>

text \<open>A state in which one buffer is changed.\<close>

lemma inv_upd:
  assumes inv: "bio_inv s" and p: "p \<in> set (buf_list s)"
    and s': "buf_list s' = buf_list s" "bufs s' = (bufs s)(p := x)" "next_buf s' = next_buf s" "num_buffers s' = num_buffers s"
    and dk: "\<And>d b. (d, b) \<noteq> (b_dev x, b_blockno x) \<Longrightarrow> disk s' d b = disk s d b"
    and fr: "free_buffers s' + (if b_refcnt (bufs s p) = 0 then 1 else 0) = free_buffers s + (if b_refcnt x = 0 then 1 else 0)"
    and key: "\<And>q. q \<in> set (buf_list s) \<Longrightarrow> q \<noteq> p \<Longrightarrow> \<not> (b_dev (bufs s q) = b_dev x \<and> b_blockno (bufs s q) = b_blockno x)"
    and cl: "b_refcnt x = 0 \<Longrightarrow> \<not> b_locked x \<and> (b_valid x \<longrightarrow> b_data x = disk s' (b_dev x) (b_blockno x))"
  shows "bio_inv s'"
proof -
  note I = bio_invD [OF inv]
  have cnt: "free_buffers s' = length (filter (\<lambda>q. b_refcnt (bufs s' q) = 0) (buf_list s))"
    using count_upd [OF I(1) p, of "\<lambda>q. b_refcnt (bufs s' q) = 0" "\<lambda>q. b_refcnt (bufs s q) = 0"] fr I(5) s'(2) by simp
  have uniq: "q = r" if "q \<in> set (buf_list s)" "r \<in> set (buf_list s)" "b_dev (bufs s' q) \<noteq> 0" "b_dev (bufs s' q) = b_dev (bufs s' r)"
      "b_blockno (bufs s' q) = b_blockno (bufs s' r)" for q r
  proof (cases "q = p \<or> r = p")
    case True
    then show ?thesis using that key [of q] key [of r] s'(2) by (auto split: if_splits)
  next
    case False
    then show ?thesis using that I(3) [of q "b_dev (bufs s q)" "b_blockno (bufs s q)" r] s'(2) by (simp add: is_buf_def)
  qed
  have "\<not> b_locked (bufs s' q) \<and> (b_valid (bufs s' q) \<longrightarrow> b_data (bufs s' q) = disk s' (b_dev (bufs s' q)) (b_blockno (bufs s' q)))"
    if "q \<in> set (buf_list s)" "b_refcnt (bufs s' q) = 0" for q
  proof (cases "q = p")
    case True
    then show ?thesis using cl that s'(2) by simp
  next
    case False
    then show ?thesis using I(6,7) [OF that(1)] that key [OF that(1)] dk [of "b_dev (bufs s q)" "b_blockno (bufs s q)"] s'(2) by auto
  qed
  then show ?thesis unfolding bio_inv_def s'(1,3,4) using I(1,2,4) cnt uniq by blast
qed

lemma others_upd:
  assumes "bio_inv s" "bio_inv s'" "p \<in> set (buf_list s)" "buf_list s' = buf_list s" "bufs s' = (bufs s)(p := x)"
    "block_devs s' = block_devs s" "\<And>d b. (d, b) \<noteq> (dev, blockno) \<Longrightarrow> disk s' d b = disk s d b"
    "b_dev x = dev" "b_blockno x = blockno" "is_buf s p dev blockno \<or> b_refcnt (bufs s p) = 0"
  shows "others_same dev blockno s s'"
proof (rule others_sameI [OF assms(1,2,6,7)])
  show "is_buf s' q d b \<and> bufs s' q = bufs s q"
    if "is_buf s q d b" "(d, b) \<noteq> (dev, blockno)" "d \<noteq> 0" "b_refcnt (bufs s q) \<noteq> 0" for q d b
    using that assms(4,5,10) unfolding is_buf_def by auto
  show "is_buf s q d b \<and> bufs s' q = bufs s q" if "is_buf s' q d b" "(d, b) \<noteq> (dev, blockno)" "d \<noteq> 0" for q d b
    using that assms(4,5,8,9) unfolding is_buf_def by (auto split: if_splits)
qed

text \<open>The outcome of taking a buffer of a block.\<close>

definition got :: "nat \<Rightarrow> nat \<Rightarrow> bio \<Rightarrow> nat \<Rightarrow> bio \<Rightarrow> bool" where
  "got dev blockno s p s' \<longleftrightarrow> bio_inv s' \<and> holds s' p dev blockno \<and> refs s' dev blockno = refs s dev blockno + 1 \<and>
     view s' dev blockno = view s dev blockno \<and> disk s' = disk s \<and> others_same dev blockno s s' \<and> writes s' = writes s"

lemma got_found:
  assumes inv: "bio_inv s" and dev: "dev \<noteq> 0" and p: "is_buf s p dev blockno"
    and x: "x = (bufs s p)\<lparr>b_refcnt := b_refcnt (bufs s p) + 1, b_locked := True\<rparr>"
    and s': "s' = s\<lparr>bufs := (bufs s)(p := x), free_buffers := free_buffers s - (if b_refcnt (bufs s p) = 0 then 1 else 0)\<rparr>"
  shows "got dev blockno s p s'"
proof -
  note I = bio_invD [OF inv]
  have pl: "p \<in> set (buf_list s)" "b_dev (bufs s p) = dev" "b_blockno (bufs s p) = blockno" using p by (simp_all add: is_buf_def)
  have f: "0 < free_buffers s" if "b_refcnt (bufs s p) = 0"
    unfolding I(5) using that pl by (auto simp: filter_empty_conv)
  have key: "\<not> (b_dev (bufs s q) = b_dev x \<and> b_blockno (bufs s q) = b_blockno x)" if "q \<in> set (buf_list s)" "q \<noteq> p" for q
    using I(3) [of q dev blockno p] p dev that pl by (auto simp: is_buf_def x)
  have inv': "bio_inv s'"
    by (rule inv_upd [OF inv pl(1), of s' x]) (use f key in \<open>simp_all add: s', simp_all add: x\<close>)
  have p': "is_buf s' p dev blockno" using p by (simp add: is_buf_def s' x)
  have "others_same dev blockno s s'"
    by (rule others_upd [OF inv inv' pl(1), of x]) (use p pl in \<open>simp_all add: s' x\<close>)
  moreover have "holds s' p dev blockno" using p' by (simp add: holds_def s' x)
  ultimately show ?thesis using inv' abs_buf [OF inv dev p] abs_buf [OF inv' dev p'] by (simp add: got_def s' x)
qed

lemma got_reused:
  assumes inv: "bio_inv s" and dev: "dev \<noteq> 0" and no: "\<forall>q. \<not> is_buf s q dev blockno"
    and p: "p \<in> set (buf_list s)" "b_refcnt (bufs s p) = 0"
    and x: "x = (bufs s p)\<lparr>b_dev := dev, b_blockno := blockno, b_valid := False, b_refcnt := 1, b_locked := True\<rparr>"
    and s': "s' = s\<lparr>bufs := (bufs s)(p := x), free_buffers := free_buffers s - 1\<rparr>"
  shows "got dev blockno s p s'"
proof -
  note I = bio_invD [OF inv]
  have f: "0 < free_buffers s" unfolding I(5) using p by (auto simp: filter_empty_conv)
  have key: "\<not> (b_dev (bufs s q) = b_dev x \<and> b_blockno (bufs s q) = b_blockno x)" if "q \<in> set (buf_list s)" for q
    using no that by (auto simp: is_buf_def x)
  have inv': "bio_inv s'"
    by (rule inv_upd [OF inv p(1), of s' x]) (use p f key in \<open>simp_all add: s', simp_all add: x\<close>)
  have p': "is_buf s' p dev blockno" using p by (simp add: is_buf_def s' x)
  have "others_same dev blockno s s'"
    by (rule others_upd [OF inv inv' p(1), of x]) (use p in \<open>simp_all add: s' x\<close>)
  moreover have "holds s' p dev blockno" using p' by (simp add: holds_def s' x)
  ultimately show ?thesis using inv' abs_no_buf [OF no] abs_buf [OF inv' dev p'] by (simp add: got_def s' x)
qed

lemma inv_new:
  assumes inv: "bio_inv s" and no: "\<And>q. b_dev x \<noteq> 0 \<Longrightarrow> \<not> is_buf s q (b_dev x) (b_blockno x)"
    and s': "buf_list s' = next_buf s # buf_list s" "bufs s' = (bufs s)(next_buf s := x)" "next_buf s' = next_buf s + 1"
      "num_buffers s' = num_buffers s + 1" "free_buffers s' = free_buffers s + (if b_refcnt x = 0 then 1 else 0)" "disk s' = disk s"
    and x: "\<not> b_valid x" "b_refcnt x = 0 \<Longrightarrow> \<not> b_locked x"
  shows "bio_inv s'"
proof -
  note I = bio_invD [OF inv]
  have np: "next_buf s \<notin> set (buf_list s)" using I(2) by blast
  have b: "bufs s' q = bufs s q" if "q \<in> set (buf_list s)" for q using that np by (auto simp: s'(2))
  have bp: "bufs s' (next_buf s) = x" by (simp add: s'(2))
  have cnt: "filter (\<lambda>q. b_refcnt (bufs s' q) = 0) (buf_list s) = filter (\<lambda>q. b_refcnt (bufs s q) = 0) (buf_list s)"
    using b by (simp cong: filter_cong)
  have u: "q = r" if "q \<in> set (buf_list s)" "r \<in> set (buf_list s)" "b_dev (bufs s q) \<noteq> 0"
      "b_dev (bufs s q) = b_dev (bufs s r)" "b_blockno (bufs s q) = b_blockno (bufs s r)" for q r
    using I(3) [of q "b_dev (bufs s q)" "b_blockno (bufs s q)" r] that by (simp add: is_buf_def)
  have n: "b_dev (bufs s q) = b_dev x \<Longrightarrow> b_blockno (bufs s q) \<noteq> b_blockno x" if "q \<in> set (buf_list s)" "b_dev x \<noteq> 0" for q
    using no [OF that(2), of q] that by (auto simp: is_buf_def)
  have d: "distinct (buf_list s')" using np I(1) by (simp add: s'(1))
  have lt: "\<forall>q\<in>set (buf_list s'). q < next_buf s'" using I(2) by (auto simp: s'(1,3) less_Suc_eq)
  have uq: "\<forall>q\<in>set (buf_list s'). \<forall>r\<in>set (buf_list s'). b_dev (bufs s' q) \<noteq> 0 \<and> b_dev (bufs s' q) = b_dev (bufs s' r) \<and>
      b_blockno (bufs s' q) = b_blockno (bufs s' r) \<longrightarrow> q = r"
    unfolding s'(1) using u n by (simp add: b bp ball_conj_distrib) (metis n)
  have nb: "num_buffers s' = length (buf_list s')" using I(4) by (simp add: s'(1,4))
  have fb: "free_buffers s' = length (filter (\<lambda>q. b_refcnt (bufs s' q) = 0) (buf_list s'))"
    unfolding s'(1,5) using I(5) by (simp add: bp cnt)
  have "\<forall>q\<in>set (buf_list s'). b_refcnt (bufs s' q) = 0 \<longrightarrow> \<not> b_locked (bufs s' q) \<and>
      (b_valid (bufs s' q) \<longrightarrow> b_data (bufs s' q) = disk s' (b_dev (bufs s' q)) (b_blockno (bufs s' q)))"
    unfolding s'(1,6) using I(6,7) x by (simp add: b bp)
  then show ?thesis unfolding bio_inv_def using d lt uq nb fb by blast
qed

lemma got_new:
  assumes inv: "bio_inv s" and dev: "dev \<noteq> 0" and no: "\<forall>q. \<not> is_buf s q dev blockno" and p: "p = next_buf s"
    and x: "x = (bufs s p)\<lparr>b_dev := dev, b_blockno := blockno, b_valid := False, b_refcnt := 1, b_locked := True\<rparr>"
    and s': "s' = s\<lparr>next_buf := p + 1, buf_list := p # buf_list s, num_buffers := num_buffers s + 1, bufs := (bufs s)(p := x)\<rparr>"
  shows "got dev blockno s p s'"
proof -
  have np: "p \<notin> set (buf_list s)" using bio_invD(2) [OF inv] p by blast
  have inv': "bio_inv s'" by (rule inv_new [OF inv, of x]) (use no in \<open>simp_all add: s' p x\<close>)
  have p': "is_buf s' p dev blockno" by (simp add: is_buf_def s' x)
  have "others_same dev blockno s s'"
  proof (rule others_sameI [OF inv inv'])
    show "is_buf s' q d b \<and> bufs s' q = bufs s q" if "is_buf s q d b" for q d b
      using that np by (auto simp: is_buf_def s')
    show "is_buf s q d b \<and> bufs s' q = bufs s q" if "is_buf s' q d b" "(d, b) \<noteq> (dev, blockno)" for q d b
      using that by (cases "q = p") (auto simp: is_buf_def s' x)
  qed (simp_all add: s')
  moreover have "holds s' p dev blockno" using p' by (simp add: holds_def s' x)
  ultimately show ?thesis using inv' abs_no_buf [OF no] abs_buf [OF inv' dev p'] by (simp add: got_def s' x)
qed

lemma get_from_cache_ok:
  assumes inv: "bio_inv s" and dev: "dev \<noteq> 0" and ok: "\<forall>n. ok n" and nh: "\<not> held s dev blockno"
  obtains p s' where "bio_get_from_cache ok dev blockno s = Some (p, s')" "got dev blockno s p s'"
proof -
  obtain a fr where f: "find_buf (bufs s) dev blockno (buf_list s) None = (a, fr)" by fastforce
  show ?thesis
  proof (cases a)
    case (Some p)
    then have p: "is_buf s p dev blockno" using find_buf_Some f by (simp add: is_buf_def)
    show ?thesis
      by (rule that [OF _ got_found [OF inv dev p refl refl]])
        (use f Some nh abs_buf(3) [OF inv dev p] in \<open>auto simp: bio_get_from_cache_def sleep_lock_def upd_buf_def\<close>)
  next
    case None
    note N = find_buf_None [OF f [unfolded None]]
    have no: "\<forall>q. \<not> is_buf s q dev blockno" using N(1) by (simp add: is_buf_def)
    show ?thesis
    proof (cases fr)
      case None
      show ?thesis
        by (rule that [OF _ got_new [OF inv dev no refl refl refl]])
          (use f \<open>a = None\<close> None ok in \<open>simp add: bio_get_from_cache_def buf_alloc_init_def buf_init_def buf_reinit_def sleep_lock_def upd_buf_def Let_def\<close>)
    next
      case (Some p)
      then have p: "p \<in> set (buf_list s)" "b_refcnt (bufs s p) = 0" using N(2) by auto
      show ?thesis
        by (rule that [OF _ got_reused [OF inv dev no p refl refl]])
          (use f \<open>a = None\<close> Some bio_invD(6) [OF inv p] in \<open>simp add: bio_get_from_cache_def buf_reinit_def sleep_lock_def upd_buf_def\<close>)
    qed
  qed
qed

text \<open>A buffer that is in use is changed and stays in use.\<close>

lemma used_upd:
  assumes inv: "bio_inv s" and dev: "dev \<noteq> 0" and p: "is_buf s p dev blockno" "0 < b_refcnt (bufs s p)"
    and s': "buf_list s' = buf_list s" "bufs s' = (bufs s)(p := x)" "next_buf s' = next_buf s" "num_buffers s' = num_buffers s"
      "free_buffers s' = free_buffers s" "block_devs s' = block_devs s"
    and x: "b_dev x = dev" "b_blockno x = blockno" "0 < b_refcnt x"
    and dk: "\<And>d b. (d, b) \<noteq> (dev, blockno) \<Longrightarrow> disk s' d b = disk s d b"
  shows "bio_inv s'" "others_same dev blockno s s'" "is_buf s' p dev blockno" "refs s' dev blockno = b_refcnt x"
    "held s' dev blockno = b_locked x" "view s' dev blockno = (if b_valid x then b_data x else disk s' dev blockno)"
proof -
  note I = bio_invD [OF inv]
  have pl: "p \<in> set (buf_list s)" using p by (simp add: is_buf_def)
  have key: "\<not> (b_dev (bufs s q) = b_dev x \<and> b_blockno (bufs s q) = b_blockno x)" if "q \<in> set (buf_list s)" "q \<noteq> p" for q
    using I(3) [of q dev blockno p] p dev that x by (auto simp: is_buf_def)
  show inv': "bio_inv s'"
    by (rule inv_upd [OF inv pl, of s' x]) (use s' p x dk key in simp_all)
  show "others_same dev blockno s s'"
    by (rule others_upd [OF inv inv' pl s'(1,2,6) dk]) (use p x in simp_all)
  show p': "is_buf s' p dev blockno" using pl x by (simp add: is_buf_def s')
  show "refs s' dev blockno = b_refcnt x" "held s' dev blockno = b_locked x"
    "view s' dev blockno = (if b_valid x then b_data x else disk s' dev blockno)"
    using abs_buf [OF inv' dev p'] s'(2) by simp_all
qed

lemma bio_read_ok:
  assumes inv: "bio_inv s" and dev: "dev \<noteq> 0" "dev \<in> block_devs s" and ok: "\<forall>n. ok n" and nh: "\<not> held s dev blockno"
  obtains p s' where "bio_read ok dev blockno s = Some (p, s')" "got dev blockno s p s'" "b_valid (bufs s' p)"
    "b_data (bufs s' p) = view s dev blockno"
proof -
  obtain p s1 where g: "bio_get_from_cache ok dev blockno s = Some (p, s1)" "got dev blockno s p s1"
    using get_from_cache_ok [OF inv dev(1) ok nh] by blast
  have h: "bio_inv s1" "is_buf s1 p dev blockno" "b_locked (bufs s1 p)" "0 < b_refcnt (bufs s1 p)" "disk s1 = disk s"
    "view s1 dev blockno = view s dev blockno" "others_same dev blockno s s1" "refs s1 dev blockno = refs s dev blockno + 1"
    "writes s1 = writes s"
    using g(2) by (simp_all add: got_def holds_def)
  have dv: "dev \<in> block_devs s1" using h(7) dev(2) by (simp add: others_same_def)
  have k: "b_dev (bufs s1 p) = dev" "b_blockno (bufs s1 p) = blockno" using h(2) by (simp_all add: is_buf_def)
  note A = abs_buf [OF h(1) dev(1) h(2)]
  show ?thesis
  proof (cases "b_valid (bufs s1 p)")
    case True
    then show ?thesis using that [of p s1] g A h(6) by (simp add: bio_read_def)
  next
    case False
    define x where "x = (bufs s1 p)\<lparr>b_data := disk s1 dev blockno, b_valid := True\<rparr>"
    let ?s' = "upd_buf p (\<lambda>b. b\<lparr>b_data := disk s1 (b_dev b) (b_blockno b), b_valid := True\<rparr>) s1"
    have r: "bio_read ok dev blockno s = Some (p, ?s')" using False g(1) dv by (simp add: bio_read_def)
    have b: "bufs ?s' = (bufs s1)(p := x)" by (simp add: x_def k)
    have U: "bio_inv ?s'" "others_same dev blockno s1 ?s'" "is_buf ?s' p dev blockno" "refs ?s' dev blockno = b_refcnt x"
      "view ?s' dev blockno = (if b_valid x then b_data x else disk ?s' dev blockno)"
      by (rule used_upd [OF h(1) dev(1) h(2,4) _ b]; simp add: x_def k h(4))+
    have "b_locked (bufs ?s' p)" "0 < b_refcnt (bufs ?s' p)" "b_valid (bufs ?s' p)" "b_data (bufs ?s' p) = view s1 dev blockno"
      using h(3,4) False A(1) k by simp_all
    then show ?thesis
      using that [OF r] U h False A others_trans [OF h(7) U(2)] by (simp add: got_def holds_def x_def)
  qed
qed

text \<open>What the holder of a buffer does with it.\<close>

lemma buf_modify_ok:
  assumes inv: "bio_inv s" and dev: "dev \<noteq> 0" and p: "holds s p dev blockno" "b_valid (bufs s p)"
    and s': "s' = upd_buf p (\<lambda>b. b\<lparr>b_data := d\<rparr>) s"
  shows "bio_inv s'" "holds s' p dev blockno" "view s' dev blockno = d" "refs s' dev blockno = refs s dev blockno"
    "others_same dev blockno s s'"
proof -
  have h: "is_buf s p dev blockno" "b_locked (bufs s p)" "0 < b_refcnt (bufs s p)" "b_dev (bufs s p) = dev" "b_blockno (bufs s p) = blockno"
    using p by (simp_all add: holds_def is_buf_def)
  have b: "bufs s' = (bufs s)(p := (bufs s p)\<lparr>b_data := d\<rparr>)" by (simp add: s')
  note U = used_upd [OF inv dev h(1,3) _ b]
  show "bio_inv s'" "others_same dev blockno s s'" "view s' dev blockno = d" using U p h by (simp_all add: s')
  show "holds s' p dev blockno" using U(3) h by (simp add: holds_def s')
  show "refs s' dev blockno = refs s dev blockno" using U(4) h abs_buf(2) [OF inv dev h(1)] by (simp add: s')
qed

lemma bio_write_ok:
  assumes inv: "bio_inv s" and dev: "dev \<noteq> 0" "dev \<in> block_devs s" and p: "holds s p dev blockno" "b_valid (bufs s p)"
  obtains s' where "bio_write p s = Some s'" "bio_inv s'" "holds s' p dev blockno" "view s' dev blockno = view s dev blockno"
    "refs s' dev blockno = refs s dev blockno" "others_same dev blockno s s'" "bufs s' = bufs s"
    "disk s' = (disk s)(dev := (disk s dev)(blockno := view s dev blockno))"
    "writes s' = writes s @ [(dev, blockno, view s dev blockno)]"
proof -
  have h: "is_buf s p dev blockno" "b_locked (bufs s p)" "0 < b_refcnt (bufs s p)" "b_dev (bufs s p) = dev" "b_blockno (bufs s p) = blockno"
    using p by (simp_all add: holds_def is_buf_def)
  note A = abs_buf [OF inv dev(1) h(1)]
  define s' where "s' = s\<lparr>disk := (disk s)(dev := (disk s dev)(blockno := b_data (bufs s p))),
      writes := writes s @ [(dev, blockno, b_data (bufs s p))]\<rparr>"
  have r: "bio_write p s = Some s'" using dev h by (simp add: bio_write_def s'_def Let_def)
  have b: "bufs s' = (bufs s)(p := bufs s p)" by (simp add: s'_def)
  note U = used_upd [OF inv dev(1) h(1,3) _ b]
  have "bio_inv s'" "others_same dev blockno s s'" "view s' dev blockno = b_data (bufs s p)" using U p h by (auto simp: s'_def)
  moreover have "holds s' p dev blockno" using h by (simp add: holds_def is_buf_def s'_def)
  moreover have "refs s' dev blockno = refs s dev blockno" by (simp add: refs_def s'_def split: option.split)
  ultimately show ?thesis using that [OF r] A(1) p(2) by (simp add: s'_def)
qed

lemma bio_get_ok:
  assumes inv: "bio_inv s" and dev: "dev \<noteq> 0" and p: "holds s p dev blockno"
  shows "bio_inv (bio_get p s)" "holds (bio_get p s) p dev blockno" "view (bio_get p s) dev blockno = view s dev blockno"
    "refs (bio_get p s) dev blockno = refs s dev blockno + 1" "others_same dev blockno s (bio_get p s)"
proof -
  have h: "is_buf s p dev blockno" "b_locked (bufs s p)" "0 < b_refcnt (bufs s p)" "b_dev (bufs s p) = dev" "b_blockno (bufs s p) = blockno"
    using p by (simp_all add: holds_def is_buf_def)
  have b: "bufs (bio_get p s) = (bufs s)(p := (bufs s p)\<lparr>b_refcnt := b_refcnt (bufs s p) + 1\<rparr>)" by (simp add: bio_get_def)
  note U = used_upd [OF inv dev h(1,3) _ b] and A = abs_buf [OF inv dev h(1)]
  show "bio_inv (bio_get p s)" "others_same dev blockno s (bio_get p s)" "view (bio_get p s) dev blockno = view s dev blockno"
    "refs (bio_get p s) dev blockno = refs s dev blockno + 1" using U h A by (simp_all add: bio_get_def)
  show "holds (bio_get p s) p dev blockno" using U(3) h by (simp add: holds_def bio_get_def)
qed

lemma bio_put_ok:
  assumes inv: "bio_inv s" and dev: "dev \<noteq> 0" and p: "holds s p dev blockno" "1 < refs s dev blockno"
  shows "bio_inv (bio_put p s)" "holds (bio_put p s) p dev blockno" "view (bio_put p s) dev blockno = view s dev blockno"
    "refs (bio_put p s) dev blockno = refs s dev blockno - 1" "others_same dev blockno s (bio_put p s)"
proof -
  have h: "is_buf s p dev blockno" "b_locked (bufs s p)" "0 < b_refcnt (bufs s p)" "b_dev (bufs s p) = dev" "b_blockno (bufs s p) = blockno"
    using p by (simp_all add: holds_def is_buf_def)
  have b: "bufs (bio_put p s) = (bufs s)(p := (bufs s p)\<lparr>b_refcnt := b_refcnt (bufs s p) - 1\<rparr>)" by (simp add: bio_put_def)
  note U = used_upd [OF inv dev h(1,3) _ b] and A = abs_buf [OF inv dev h(1)]
  show "bio_inv (bio_put p s)" "others_same dev blockno s (bio_put p s)" "view (bio_put p s) dev blockno = view s dev blockno"
    "refs (bio_put p s) dev blockno = refs s dev blockno - 1" using U h A p by (simp_all add: bio_put_def)
  show "holds (bio_put p s) p dev blockno" using U(3) h A p by (simp add: holds_def bio_put_def)
qed

text \<open>An unused buffer leaves the list, or moves to its end.\<close>

lemma others_all: "others_same 0 0 s s' \<Longrightarrow> others_same dev blockno s s'"
  unfolding others_same_def by (simp only: prod.inject) blast

lemma list_change_ok:
  assumes inv: "bio_inv s" and s': "bufs s' = bufs s" "disk s' = disk s" "next_buf s' = next_buf s" "block_devs s' = block_devs s"
      "num_buffers s' = length (buf_list s')"
      "free_buffers s' = length (filter (\<lambda>q. b_refcnt (bufs s q) = 0) (buf_list s'))"
    and l: "distinct (buf_list s')" "set (buf_list s') \<subseteq> set (buf_list s)"
      "\<And>q. q \<in> set (buf_list s) \<Longrightarrow> b_refcnt (bufs s q) \<noteq> 0 \<Longrightarrow> q \<in> set (buf_list s')"
  shows "bio_inv s'" "others_same 0 0 s s'"
proof -
  note I = bio_invD [OF inv]
  have i: "q \<in> set (buf_list s)" if "q \<in> set (buf_list s')" for q using that l(2) by blast
  have u: "q = r" if "q \<in> set (buf_list s')" "r \<in> set (buf_list s')" "b_dev (bufs s q) \<noteq> 0"
      "b_dev (bufs s q) = b_dev (bufs s r)" "b_blockno (bufs s q) = b_blockno (bufs s r)" for q r
    using I(3) [of q "b_dev (bufs s q)" "b_blockno (bufs s q)" r] that i by (simp add: is_buf_def)
  show inv': "bio_inv s'"
    unfolding bio_inv_def s' using l(1) u i I(2,6,7) by simp
  show "others_same 0 0 s s'"
    by (rule others_sameI [OF inv inv']) (use i l(3) in \<open>simp_all add: s' is_buf_def\<close>)
qed

lemma count_remove:
  assumes "distinct xs" "p \<in> set xs" "P p"
  shows "length (filter P (remove1 p xs)) = length (filter P xs) - 1"
  using assms by (simp add: filter_remove1 length_remove1)

lemma free_removed:
  assumes inv: "bio_inv s" and p: "p \<in> set (buf_list s)" "b_refcnt (bufs s p) = 0"
    and s': "s' = buf_deinit p (s\<lparr>free_buffers := free_buffers s - 1\<rparr>)"
  shows "bio_inv s'" "others_same 0 0 s s'"
proof -
  note I = bio_invD [OF inv]
  have "length (buf_list s') = num_buffers s - 1" using p I(4) by (simp add: s' buf_deinit_def length_remove1)
  moreover have "free_buffers s' = length (filter (\<lambda>q. b_refcnt (bufs s q) = 0) (buf_list s'))"
    using count_remove [OF I(1) p(1), of "\<lambda>q. b_refcnt (bufs s q) = 0"] p(2) I(5) by (simp add: s' buf_deinit_def)
  moreover have "q \<in> set (buf_list s')" if "q \<in> set (buf_list s)" "b_refcnt (bufs s q) \<noteq> 0" for q
    using that p I(1) by (auto simp: s' buf_deinit_def)
  moreover have "distinct (buf_list s')" "set (buf_list s') \<subseteq> set (buf_list s)"
    using I(1) by (auto simp: s' buf_deinit_def)
  ultimately show "bio_inv s'" "others_same 0 0 s s'"
    using list_change_ok [OF inv, of s'] by (simp_all add: s' buf_deinit_def)
qed

lemma free_moved:
  assumes inv: "bio_inv s" and p: "p \<in> set (buf_list s)" "b_refcnt (bufs s p) = 0"
    and s': "s' = s\<lparr>buf_list := remove1 p (buf_list s) @ [p]\<rparr>"
  shows "bio_inv s'" "others_same 0 0 s s'"
proof -
  note I = bio_invD [OF inv]
  have n: "0 < length (buf_list s)" using p by (cases "buf_list s") auto
  have n': "0 < length (filter (\<lambda>q. b_refcnt (bufs s q) = 0) (buf_list s))" using p by (auto simp: filter_empty_conv)
  have "length (buf_list s') = num_buffers s" using n p I(4) by (simp add: s' length_remove1)
  moreover have "free_buffers s' = length (filter (\<lambda>q. b_refcnt (bufs s q) = 0) (buf_list s'))"
    using count_remove [OF I(1) p(1), of "\<lambda>q. b_refcnt (bufs s q) = 0"] p(2) I(5) n' by (simp add: s')
  moreover have "distinct (buf_list s')" "set (buf_list s') = set (buf_list s)"
    using I(1) p by (auto simp: s')
  ultimately show "bio_inv s'" "others_same 0 0 s s'"
    using list_change_ok [OF inv, of s'] by (simp_all add: s')
qed

lemma bio_release_ok:
  assumes inv: "bio_inv s" and dev: "dev \<noteq> 0" and p: "holds s p dev blockno"
    and clean: "refs s dev blockno = 1 \<Longrightarrow> view s dev blockno = disk s dev blockno"
  shows "bio_inv (bio_release p s)" "\<not> held (bio_release p s) dev blockno"
    "view (bio_release p s) dev blockno = view s dev blockno" "refs (bio_release p s) dev blockno = refs s dev blockno - 1"
    "others_same dev blockno s (bio_release p s)" "disk (bio_release p s) = disk s" "writes (bio_release p s) = writes s"
proof -
  have h: "is_buf s p dev blockno" "b_locked (bufs s p)" "0 < b_refcnt (bufs s p)" "b_dev (bufs s p) = dev" "b_blockno (bufs s p) = blockno"
    "p \<in> set (buf_list s)"
    using p by (simp_all add: holds_def is_buf_def)
  note A = abs_buf [OF inv dev h(1)]
  let ?r = "bio_release p s"
  define x where "x = (bufs s p)\<lparr>b_locked := False, b_refcnt := b_refcnt (bufs s p) - 1\<rparr>"
  show "disk ?r = disk s" "writes ?r = writes s"
    by (simp_all add: bio_release_def bio_might_free_def buf_deinit_def Let_def)
  have "bio_inv ?r \<and> \<not> held ?r dev blockno \<and> view ?r dev blockno = view s dev blockno \<and>
      refs ?r dev blockno = refs s dev blockno - 1 \<and> others_same dev blockno s ?r"
  proof (cases "b_refcnt (bufs s p) = 1")
    case False
    then have r: "?r = upd_buf p (\<lambda>b. b\<lparr>b_locked := False, b_refcnt := b_refcnt b - 1\<rparr>) s"
      using h by (simp add: bio_release_def Let_def)
    have b: "bufs ?r = (bufs s)(p := x)" by (simp add: r x_def)
    show ?thesis using used_upd [OF inv dev h(1,3) _ b] False h A by (simp add: r x_def)
  next
    case True
    define s1 where "s1 = (upd_buf p (\<lambda>b. b\<lparr>b_locked := False, b_refcnt := b_refcnt b - 1\<rparr>) s)\<lparr>free_buffers := free_buffers s + 1\<rparr>"
    have b1: "bufs s1 = (bufs s)(p := x)" by (simp add: s1_def x_def)
    have key: "\<not> (b_dev (bufs s q) = b_dev x \<and> b_blockno (bufs s q) = b_blockno x)" if "q \<in> set (buf_list s)" "q \<noteq> p" for q
      using bio_invD(3) [OF inv _ h(1) dev, of q] that h by (auto simp: is_buf_def x_def)
    have cl: "b_valid (bufs s p) \<Longrightarrow> b_data (bufs s p) = disk s dev blockno" using clean A True by simp
    have inv1: "bio_inv s1"
      by (rule inv_upd [OF inv h(6) _ b1]) (use h True key cl in \<open>simp_all add: s1_def\<close>, simp_all add: x_def)
    have o1: "others_same dev blockno s s1"
      by (rule others_upd [OF inv inv1 h(6) _ b1]) (use h in \<open>simp_all add: s1_def x_def\<close>)
    have p1: "p \<in> set (buf_list s1)" "b_refcnt (bufs s1 p) = 0" using h True by (simp_all add: s1_def)
    have "?r = buf_deinit p (s1\<lparr>free_buffers := free_buffers s1 - 1\<rparr>) \<or> ?r = s1\<lparr>buf_list := remove1 p (buf_list s1) @ [p]\<rparr>"
      using True by (simp add: bio_release_def bio_might_free_def s1_def Let_def buf_deinit_def upd_buf_def)
    then have r: "bio_inv ?r" "others_same 0 0 s1 ?r"
      using free_removed [OF inv1 p1] free_moved [OF inv1 p1] by blast+
    have "view s1 dev blockno = view s dev blockno" "refs s1 dev blockno = 0" "\<not> held s1 dev blockno"
      using abs_buf [OF inv1 dev, of p blockno] h A b1 cl True by (simp_all add: is_buf_def s1_def x_def)
    then show ?thesis using r o1 others_trans [OF o1 others_all [OF r(2)]] A True dev by (auto simp: others_same_def)
  qed
  then show "bio_inv ?r" "\<not> held ?r dev blockno" "view ?r dev blockno = view s dev blockno"
    "refs ?r dev blockno = refs s dev blockno - 1" "others_same dev blockno s ?r" by auto
qed

section \<open>The size of the cache\<close>

lemma free_extra_ok:
  assumes "bio_inv s" "set ps \<subseteq> set (buf_list s)" "distinct ps"
  shows "bio_inv (free_extra ps s) \<and> others_same 0 0 s (free_extra ps s) \<and> disk (free_extra ps s) = disk s"
  using assms
proof (induction ps s rule: free_extra.induct)
  case (1 s)
  then show ?case by (simp add: others_same_def)
next
  case (2 p ps s)
  define s1 where "s1 = (if b_refcnt (bufs s p) = 0 \<and> bio_has_too_many_buffers s
    then buf_deinit p (s\<lparr>free_buffers := free_buffers s - 1\<rparr>) else s)"
  have p: "p \<in> set (buf_list s)" "p \<notin> set ps" "distinct ps" "set ps \<subseteq> set (buf_list s)" using 2(3,4) by auto
  have s1: "bio_inv s1" "others_same 0 0 s s1" "disk s1 = disk s"
    using free_removed [OF 2(2) p(1) _ refl] 2(2) by (auto simp: s1_def others_same_def buf_deinit_def)
  have "set ps \<subseteq> set (buf_list s1)"
    using p bio_invD(1) [OF 2(2)] by (auto simp: s1_def buf_deinit_def)
  then have "bio_inv (free_extra ps s1) \<and> others_same 0 0 s1 (free_extra ps s1) \<and> disk (free_extra ps s1) = disk s1"
    using 2(1) [folded s1_def] s1(1) p(3) by blast
  then show ?case using others_trans [OF s1(2)] s1(3) by (simp add: s1_def [symmetric])
qed

lemma bio_cache_free_extra_buffers_ok:
  assumes "bio_inv s"
  shows "bio_inv (bio_cache_free_extra_buffers s)" "others_same 0 0 s (bio_cache_free_extra_buffers s)"
    "disk (bio_cache_free_extra_buffers s) = disk s"
  using free_extra_ok [OF assms order_refl] bio_invD(1) [OF assms] by (simp_all add: bio_cache_free_extra_buffers_def)

lemma free_new:
  assumes inv: "bio_inv s" and ok: "buf_alloc_init ok 0 0 s = (Some p, s1)"
    and s': "s' = (upd_buf p (\<lambda>b. b\<lparr>b_refcnt := 0\<rparr>) s1)\<lparr>free_buffers := free_buffers s1 + 1\<rparr>"
  shows "bio_inv s'" "others_same 0 0 s s'" "disk s' = disk s" "num_buffers s' = num_buffers s + 1"
proof -
  define x where "x = (bufs s (next_buf s))\<lparr>b_locked := False, b_dev := 0, b_blockno := 0, b_valid := False, b_refcnt := 0\<rparr>"
  have e: "p = next_buf s" "buf_list s' = next_buf s # buf_list s" "bufs s' = (bufs s)(next_buf s := x)" "next_buf s' = next_buf s + 1"
    "num_buffers s' = num_buffers s + 1" "free_buffers s' = free_buffers s + 1" "disk s' = disk s" "block_devs s' = block_devs s"
    using ok by (auto simp: s' x_def buf_alloc_init_def buf_init_def buf_reinit_def Let_def split: if_splits)
  have np: "next_buf s \<notin> set (buf_list s)" using bio_invD(2) [OF inv] by blast
  show inv': "bio_inv s'" by (rule inv_new [OF inv _ e(2-5)]) (simp_all add: e x_def)
  show "others_same 0 0 s s'"
  proof (rule others_sameI [OF inv inv' e(8)])
    show "is_buf s' q d b \<and> bufs s' q = bufs s q" if "is_buf s q d b" for q d b
      using that np by (auto simp: is_buf_def e)
    show "is_buf s q d b \<and> bufs s' q = bufs s q" if "is_buf s' q d b" "d \<noteq> 0" for q d b
      using that by (cases "q = next_buf s") (auto simp: is_buf_def e x_def)
  qed (simp add: e)
  show "disk s' = disk s" "num_buffers s' = num_buffers s + 1" using e by simp_all
qed

lemma alloc_free_buffers_ok:
  assumes "bio_inv s" "\<forall>n. ok n"
  shows "\<exists>s'. alloc_free_buffers ok n s = Some s' \<and> bio_inv s' \<and> others_same 0 0 s s' \<and> disk s' = disk s"
  using assms(1)
proof (induction n arbitrary: s)
  case 0
  then show ?case by (simp add: others_same_def)
next
  case (Suc n)
  obtain p s1 where a: "buf_alloc_init ok 0 0 s = (Some p, s1)" using assms(2) by (simp add: buf_alloc_init_def)
  let ?s2 = "(upd_buf p (\<lambda>b. b\<lparr>b_refcnt := 0\<rparr>) s1)\<lparr>free_buffers := free_buffers s1 + 1\<rparr>"
  note N = free_new [OF Suc.prems a refl]
  obtain s' where s': "alloc_free_buffers ok n ?s2 = Some s'" "bio_inv s'" "others_same 0 0 ?s2 s'" "disk s' = disk ?s2"
    using Suc.IH [OF N(1)] by blast
  show ?case using s' a N(3) others_trans [OF N(2) s'(3)] by simp
qed

lemma bio_inv_limits [simp]: "bio_inv (s\<lparr>min_buffers := n\<rparr>) = bio_inv s" "bio_inv (s\<lparr>max_free_buffers := n\<rparr>) = bio_inv s"
  by (simp_all add: bio_inv_def)

lemma abs_limits [simp]:
  "view (s\<lparr>min_buffers := n\<rparr>) d b = view s d b" "view (s\<lparr>max_free_buffers := n\<rparr>) d b = view s d b"
  "refs (s\<lparr>min_buffers := n\<rparr>) d b = refs s d b" "refs (s\<lparr>max_free_buffers := n\<rparr>) d b = refs s d b"
  "held (s\<lparr>min_buffers := n\<rparr>) d b = held s d b" "held (s\<lparr>max_free_buffers := n\<rparr>) d b = held s d b"
  "holds (s\<lparr>min_buffers := n\<rparr>) p d b = holds s p d b" "holds (s\<lparr>max_free_buffers := n\<rparr>) p d b = holds s p d b"
  by (simp_all add: view_def refs_def held_def holds_def is_buf_def split: option.split)

lemma others_limits:
  "others_same 0 0 (s\<lparr>min_buffers := n\<rparr>) s' = others_same 0 0 s s'" "others_same 0 0 (s\<lparr>max_free_buffers := n\<rparr>) s' = others_same 0 0 s s'"
  by (simp_all add: others_same_def)

lemma bio_cache_set_min_buffers_ok:
  assumes "bio_inv s" "\<forall>n. ok n"
  shows "\<exists>e s'. bio_cache_set_min_buffers ok m s = Some (e, s') \<and> bio_inv s' \<and> others_same 0 0 s s' \<and> disk s' = disk s"
proof (cases "m < 3")
  case True
  then show ?thesis using assms(1) by (simp add: bio_cache_set_min_buffers_def others_same_def)
next
  case False
  let ?s1 = "s\<lparr>min_buffers := nat m\<rparr>"
  obtain s2 where s2: "alloc_free_buffers ok (min_buffers ?s1 - num_buffers ?s1) ?s1 = Some s2" "bio_inv s2"
      "others_same 0 0 ?s1 s2" "disk s2 = disk ?s1"
    using alloc_free_buffers_ok [of ?s1 ok] assms by auto
  have o: "others_same 0 0 s s2" using s2(3) by (simp only: others_limits)
  note F = bio_cache_free_extra_buffers_ok [OF s2(2)]
  show ?thesis using False s2 F others_trans [OF o F(2)] by (simp add: bio_cache_set_min_buffers_def Let_def)
qed

lemma bio_cache_set_max_free_buffers_ok:
  assumes "bio_inv s"
  shows "bio_inv (snd (bio_cache_set_max_free_buffers m s))" "others_same 0 0 s (snd (bio_cache_set_max_free_buffers m s))"
    "disk (snd (bio_cache_set_max_free_buffers m s)) = disk s"
proof -
  note F = bio_cache_free_extra_buffers_ok [of "s\<lparr>max_free_buffers := nat m\<rparr>"]
  show "bio_inv (snd (bio_cache_set_max_free_buffers m s))" "disk (snd (bio_cache_set_max_free_buffers m s)) = disk s"
    using F(1,3) assms by (simp_all add: bio_cache_set_max_free_buffers_def)
  show "others_same 0 0 s (snd (bio_cache_set_max_free_buffers m s))"
    using F(2) assms others_limits(2) [where s = s and n = "nat m"] by (simp add: bio_cache_set_max_free_buffers_def others_same_def)
qed

lemma bio_init_ok:
  assumes "\<forall>n. ok n"
  shows "\<exists>s'. bio_init ok s = Some s' \<and> bio_inv s' \<and> disk s' = disk s \<and> block_devs s' = block_devs s \<and>
    (\<forall>d b. d \<noteq> 0 \<longrightarrow> view s' d b = disk s d b \<and> refs s' d b = 0 \<and> \<not> held s' d b)"
proof -
  let ?s = "s\<lparr>buf_list := [], num_buffers := 0, free_buffers := 0, max_free_buffers := 16\<rparr>"
  have i: "bio_inv ?s" by (simp add: bio_inv_def)
  have v: "view ?s d b = disk s d b" "refs ?s d b = 0" "\<not> held ?s d b" for d b by (simp_all add: view_def refs_def held_def)
  obtain e s' where r: "bio_cache_set_min_buffers ok 16 ?s = Some (e, s')" "bio_inv s'" "others_same 0 0 ?s s'" "disk s' = disk ?s"
    using bio_cache_set_min_buffers_ok [OF i assms] by blast
  show ?thesis using r v by (intro exI [of _ s']) (simp add: bio_init_def others_same_def)
qed

section \<open>The cache is transparent\<close>

text \<open>
  The uses of the cache: \<open>V\<close> is what the users last stored in each block, \<open>D\<close> the blocks changed
  since they were written to the device. The last user of a changed block writes it before the
  release.
\<close>

inductive cache_run :: "bio \<Rightarrow> (nat \<Rightarrow> nat \<Rightarrow> block) \<Rightarrow> (nat \<times> nat) set \<Rightarrow> bool" where
  cr_init: "\<forall>n. ok n \<Longrightarrow> bio_init ok s = Some s' \<Longrightarrow> cache_run s' (disk s) {}"
| cr_read: "cache_run s V D \<Longrightarrow> dev \<noteq> 0 \<Longrightarrow> dev \<in> block_devs s \<Longrightarrow> \<forall>n. ok n \<Longrightarrow> \<not> held s dev blockno \<Longrightarrow>
    bio_read ok dev blockno s = Some (p, s') \<Longrightarrow> cache_run s' V D"
| cr_modify: "cache_run s V D \<Longrightarrow> dev \<noteq> 0 \<Longrightarrow> holds s p dev blockno \<Longrightarrow> b_valid (bufs s p) \<Longrightarrow>
    cache_run (upd_buf p (\<lambda>b. b\<lparr>b_data := d\<rparr>) s) (V(dev := (V dev)(blockno := d))) (insert (dev, blockno) D)"
| cr_write: "cache_run s V D \<Longrightarrow> dev \<noteq> 0 \<Longrightarrow> holds s p dev blockno \<Longrightarrow> b_valid (bufs s p) \<Longrightarrow>
    dev \<in> block_devs s \<Longrightarrow> bio_write p s = Some s' \<Longrightarrow> cache_run s' V (D - {(dev, blockno)})"
| cr_release: "cache_run s V D \<Longrightarrow> dev \<noteq> 0 \<Longrightarrow> holds s p dev blockno \<Longrightarrow>
    1 < refs s dev blockno \<or> (dev, blockno) \<notin> D \<Longrightarrow> cache_run (bio_release p s) V D"
| cr_get: "cache_run s V D \<Longrightarrow> dev \<noteq> 0 \<Longrightarrow> holds s p dev blockno \<Longrightarrow> cache_run (bio_get p s) V D"
| cr_put: "cache_run s V D \<Longrightarrow> dev \<noteq> 0 \<Longrightarrow> holds s p dev blockno \<Longrightarrow> 1 < refs s dev blockno \<Longrightarrow> cache_run (bio_put p s) V D"
| cr_min: "cache_run s V D \<Longrightarrow> \<forall>n. ok n \<Longrightarrow> bio_cache_set_min_buffers ok m s = Some (e, s') \<Longrightarrow> cache_run s' V D"
| cr_max: "cache_run s V D \<Longrightarrow> cache_run (snd (bio_cache_set_max_free_buffers m s)) V D"

definition cache_ok :: "bio \<Rightarrow> (nat \<Rightarrow> nat \<Rightarrow> block) \<Rightarrow> (nat \<times> nat) set \<Rightarrow> bool" where
  "cache_ok s V D \<longleftrightarrow> bio_inv s \<and>
     (\<forall>d b. d \<noteq> 0 \<longrightarrow> view s d b = V d b \<and> ((d, b) \<notin> D \<longrightarrow> V d b = disk s d b))"

lemma cache_okD:
  assumes "cache_ok s V D"
  shows "bio_inv s" "d \<noteq> 0 \<Longrightarrow> view s d b = V d b" "d \<noteq> 0 \<Longrightarrow> (d, b) \<notin> D \<Longrightarrow> disk s d b = V d b"
  using assms by (simp_all add: cache_ok_def)

lemma cache_ok_step:
  assumes c: "cache_ok s V D" and i: "bio_inv s'" and o: "others_same dev blockno s s'"
    and b: "dev \<noteq> 0 \<Longrightarrow> view s' dev blockno = V' dev blockno \<and> ((dev, blockno) \<notin> D' \<longrightarrow> V' dev blockno = disk s' dev blockno)"
    and V: "\<And>d b. (d, b) \<noteq> (dev, blockno) \<Longrightarrow> V' d b = V d b \<and> ((d, b) \<in> D' \<longleftrightarrow> (d, b) \<in> D)"
  shows "cache_ok s' V' D'"
  unfolding cache_ok_def
proof (intro conjI i allI impI)
  fix d b assume d: "d \<noteq> (0 :: nat)"
  show "view s' d b = V' d b"
    using cache_okD(2) [OF c d, of b] o b d V [of d b] by (cases "(d, b) = (dev, blockno)") (auto simp: others_same_def)
  show "V' d b = disk s' d b" if n: "(d, b) \<notin> D'"
    using cache_okD(3) [OF c d, of b] o b d n V [of d b] by (cases "(d, b) = (dev, blockno)") (auto simp: others_same_def)
qed

lemma cache_run_ok: "cache_run s V D \<Longrightarrow> cache_ok s V D"
proof (induction rule: cache_run.induct)
  case (cr_init ok s s')
  obtain t where t: "bio_init ok s = Some t" "bio_inv t" "disk t = disk s" "\<forall>d b. d \<noteq> 0 \<longrightarrow> view t d b = disk s d b"
    using bio_init_ok [OF cr_init(1), of s] by blast
  then show ?case using cr_init(2) by (simp add: cache_ok_def)
next
  case (cr_read s V D dev ok blockno p s')
  note c = cache_okD [OF cr_read.IH]
  from cr_read(6) have "got dev blockno s p s'"
    using bio_read_ok [OF c(1) cr_read(2-5)] by fastforce
  then have g: "bio_inv s'" "others_same dev blockno s s'" "view s' dev blockno = view s dev blockno" "disk s' = disk s"
    by (simp_all add: got_def)
  show ?case by (rule cache_ok_step [OF cr_read.IH g(1,2)]) (use g c(2,3) in auto)
next
  case (cr_modify s V D dev p blockno d)
  note c = cache_okD [OF cr_modify.IH] and m = buf_modify_ok [OF cache_okD(1) [OF cr_modify.IH] cr_modify(2-4) refl]
  show ?case by (rule cache_ok_step [OF cr_modify.IH m(1,5)]) (use m(3) in auto)
next
  case (cr_write s V D dev p blockno s')
  note c = cache_okD [OF cr_write.IH]
  obtain w: "bio_inv s'" "view s' dev blockno = view s dev blockno" "others_same dev blockno s s'"
      "disk s' = (disk s)(dev := (disk s dev)(blockno := view s dev blockno))"
    using bio_write_ok [OF c(1) cr_write(2,5,3,4)] cr_write(6) by (metis option.inject)
  show ?case by (rule cache_ok_step [OF cr_write.IH w(1,3)]) (use w c(2) in auto)
next
  case (cr_release s V D dev p blockno)
  note c = cache_okD [OF cr_release.IH]
  have "refs s dev blockno = 1 \<Longrightarrow> view s dev blockno = disk s dev blockno" using cr_release(4) c(2,3) [OF cr_release(2)] by auto
  note r = bio_release_ok [OF c(1) cr_release(2,3) this]
  show ?case by (rule cache_ok_step [OF cr_release.IH r(1,5)]) (use r c(2,3) in auto)
next
  case (cr_get s V D dev p blockno)
  note c = cache_okD [OF cr_get.IH] and r = bio_get_ok [OF cache_okD(1) [OF cr_get.IH] cr_get(2,3)]
  show ?case by (rule cache_ok_step [OF cr_get.IH r(1,5)]) (use r c(2,3) in \<open>auto simp: bio_get_def\<close>)
next
  case (cr_put s V D dev p blockno)
  note c = cache_okD [OF cr_put.IH] and r = bio_put_ok [OF cache_okD(1) [OF cr_put.IH] cr_put(2-4)]
  show ?case by (rule cache_ok_step [OF cr_put.IH r(1,5)]) (use r c(2,3) in \<open>auto simp: bio_put_def\<close>)
next
  case (cr_min s V D ok m e s')
  note c = cache_okD [OF cr_min.IH]
  obtain e' t where t: "bio_cache_set_min_buffers ok m s = Some (e', t)" "bio_inv t" "others_same 0 0 s t"
    using bio_cache_set_min_buffers_ok [OF c(1) cr_min(2), of m] by blast
  then have r: "bio_inv s'" "others_same 0 0 s s'" using cr_min(3) by simp_all
  show ?case by (rule cache_ok_step [OF cr_min.IH r]) auto
next
  case (cr_max s V D m)
  note r = bio_cache_set_max_free_buffers_ok(1,2) [OF cache_okD(1) [OF cr_max.IH]]
  show ?case by (rule cache_ok_step [OF cr_max.IH r]) auto
qed

text \<open>
  C4: The buffer cache is transparent and keeps one buffer per block: after any sequence of
  initialisation, reads, changes, writes, releases, pins and unpins, and changes of the limits, in
  which the last user of a changed block writes it before the release, \<^verbatim>\<open>bio_read\<close> of a block
  of a block device that nobody has locked returns the locked and only buffer of that block with
  the content last stored there, whether the block was cached, replaced in the cache or freed in
  between; the counters of the buffers and of the free buffers are exact; and a block that is not
  changed since its last write is on the device as it was stored.
\<close>

theorem bio_cache_transparent:
  assumes run: "cache_run s V D" and dev: "dev \<noteq> 0" "dev \<in> block_devs s" and ok: "\<forall>n. ok n" and nh: "\<not> held s dev blockno"
  shows "\<exists>p s'. bio_read ok dev blockno s = Some (p, s') \<and> b_data (bufs s' p) = V dev blockno \<and> cache_run s' V D \<and>
    holds s' p dev blockno \<and> (\<forall>q. is_buf s' q dev blockno \<longrightarrow> q = p) \<and> num_buffers s' = length (buf_list s') \<and>
    free_buffers s' = length (filter (\<lambda>q. b_refcnt (bufs s' q) = 0) (buf_list s')) \<and>
    ((dev, blockno) \<notin> D \<longrightarrow> disk s' dev blockno = V dev blockno)"
proof -
  note c = cache_okD [OF cache_run_ok [OF run]]
  obtain p s' where r: "bio_read ok dev blockno s = Some (p, s')" "got dev blockno s p s'" "b_data (bufs s' p) = view s dev blockno"
    using bio_read_ok [OF c(1) dev ok nh] by blast
  have g: "bio_inv s'" "holds s' p dev blockno" "disk s' = disk s" using r(2) by (simp_all add: got_def)
  have u: "\<forall>q. is_buf s' q dev blockno \<longrightarrow> q = p" using bio_invD(3) [OF g(1) _ _ dev(1)] g(2) by (auto simp: holds_def)
  show ?thesis
    using r g u c(2,3) [OF dev(1)] bio_invD(4,5) [OF g(1)] cr_read [OF run dev ok nh r(1)] by (intro exI [of _ p] exI [of _ s']) simp
qed

definition example_bio :: bio where
  "example_bio = \<lparr>bufs = (\<lambda>_. \<lparr>b_valid = False, b_dev = 0, b_blockno = 0, b_locked = False, b_refcnt = 0, b_data = (\<lambda>_. 0)\<rparr>),
     buf_list = [], num_buffers = 0, min_buffers = 0, max_free_buffers = 0, free_buffers = 0, next_buf = 0,
     disk = (\<lambda>_ b _. of_nat b), block_devs = {1}, writes = []\<rparr>"

lemma bio_cache_transparent_witness:
  "\<exists>s p s'. bio_init (\<lambda>_. True) example_bio = Some s \<and> bio_read (\<lambda>_. True) 1 5 s = Some (p, s') \<and>
     b_data (bufs s' p) = (\<lambda>_. 5) \<and> holds s' p 1 5"
proof -
  obtain s where s: "bio_init (\<lambda>_. True) example_bio = Some s" "block_devs s = {1}" "\<not> held s 1 5"
    using bio_init_ok [of "\<lambda>_. True" example_bio] by (auto simp: example_bio_def)
  have run: "cache_run s (disk example_bio) {}" by (rule cr_init [OF _ s(1)]) simp
  from bio_cache_transparent [OF run, of 1 "\<lambda>_. True" 5] s(2,3)
  obtain p s' where "bio_read (\<lambda>_. True) 1 5 s = Some (p, s')" "b_data (bufs s' p) = disk example_bio 1 5" "holds s' p 1 5"
    by (simp, elim exE conjE) blast
  then show ?thesis using s(1) by (intro exI [of _ s] exI [of _ p] exI [of _ s']) (simp add: example_bio_def)
qed

end
