(* ===== verification/Log.thy ===== *)
theory Log
  imports Bio "HOL-Library.Monad_Syntax"
begin

text \<open>
  The write-ahead log of the file system: \<^verbatim>\<open>kernel/fs/vimixfs/log.c\<close>, on top of the buffer
  cache. The content of a block is the whole data of a buffer, so a copy of BLOCK_SIZE bytes is a
  copy of the content. The result \<open>None\<close> is a panic, an access out of an array, or the wait for a
  buffer that is locked; where \<^verbatim>\<open>log_begin_fs_transaction_explicit\<close> goes to sleep it returns no
  client number, and the process is added to those that sleep on the channel of the log.
\<close>

section \<open>The code\<close>

definition BLOCK_SIZE :: nat where "BLOCK_SIZE = 1024"
definition VIMIXFS_MAX_LOG_BLOCKS :: nat where "VIMIXFS_MAX_LOG_BLOCKS = BLOCK_SIZE div 4 - 1"
definition MAX_CONCURRENT_LOG_CLIENTS :: nat where "MAX_CONCURRENT_LOG_CLIENTS = 4"

record vimixfs_superblock =
  magic :: nat
  sb_size :: nat
  nblocks :: nat
  ninode_blocks :: nat
  nlog :: nat
  logstart :: nat
  inodestart :: nat
  bmapstart :: nat

text \<open>
  The struct, and \<open>waiters\<close>: the processes that sleep on it as a channel, which
  \<^verbatim>\<open>sleep(log, ...)\<close> enters and \<^verbatim>\<open>wakeup(log)\<close> empties.
\<close>

record log =
  l_start :: nat
  l_size :: nat
  outstanding :: int
  committing :: bool
  l_dev :: nat
  lh_n :: nat
  lh_block :: "nat list"
  clients :: "int list"
  blocks_used :: "int list"
  blocks_reserved :: "int list"
  blocks_used_old_clients :: int
  waiters :: "int set"

definition log_sleep :: "int \<Rightarrow> log \<Rightarrow> log" where
  "log_sleep pid log = log\<lparr>waiters := insert pid (waiters log)\<rparr>"

definition log_wakeup :: "log \<Rightarrow> log" where
  "log_wakeup log = log\<lparr>waiters := {}\<rparr>"

text \<open>A 32-bit number in a block, in the byte order of the machine.\<close>

definition get32 :: "block \<Rightarrow> nat \<Rightarrow> nat" where
  "get32 b i = unat (b i) + 256 * (unat (b (i + 1)) + 256 * (unat (b (i + 2)) + 256 * unat (b (i + 3))))"

definition put32 :: "nat \<Rightarrow> nat \<Rightarrow> block \<Rightarrow> block" where
  "put32 i n b = b(i := of_nat n, i + 1 := of_nat (n div 256), i + 2 := of_nat (n div 256 div 256), i + 3 := of_nat (n div 256 div 256 div 256))"

text \<open>The loop of \<^verbatim>\<open>write_head\<close>.\<close>

fun put_blocks :: "nat list \<Rightarrow> nat \<Rightarrow> block \<Rightarrow> block" where
  "put_blocks [] i b = b"
| "put_blocks (n # ns) i b = put_blocks ns (i + 1) (put32 (4 + 4 * i) n b)"

definition log_client_from_pid :: "log \<Rightarrow> int \<Rightarrow> nat option" where
  "log_client_from_pid log pid = find (\<lambda>i. clients log ! i = pid) [0..<MAX_CONCURRENT_LOG_CLIENTS]"

text \<open>The body of the loop of \<^verbatim>\<open>install_trans\<close>, and the loop over the indices.\<close>

definition install_block :: "(nat \<Rightarrow> bool) \<Rightarrow> log \<Rightarrow> bool \<Rightarrow> nat \<Rightarrow> bio \<Rightarrow> bio option" where
  "install_block ok log recovering tail s = do {
     (lbuf, s1) \<leftarrow> bio_read ok (l_dev log) (l_start log + tail + 1) s;
     (if tail < length (lh_block log) then Some () else None);
     (dbuf, s2) \<leftarrow> bio_get_from_cache ok (l_dev log) (lh_block log ! tail) s1;
     let s3 = upd_buf dbuf (\<lambda>b. b\<lparr>b_valid := True\<rparr>) s2;
     let s4 = upd_buf dbuf (\<lambda>b. b\<lparr>b_data := b_data (bufs s3 lbuf)\<rparr>) s3;
     s5 \<leftarrow> bio_write dbuf s4;
     let s6 = (if recovering then s5 else bio_put dbuf s5);
     Some (bio_release dbuf (bio_release lbuf s6)) }"

fun install_loop :: "(nat \<Rightarrow> bool) \<Rightarrow> log \<Rightarrow> bool \<Rightarrow> nat list \<Rightarrow> bio \<Rightarrow> bio option" where
  "install_loop ok log recovering [] s = Some s"
| "install_loop ok log recovering (tail # ts) s =
     Option.bind (install_block ok log recovering tail s) (install_loop ok log recovering ts)"

definition install_trans :: "(nat \<Rightarrow> bool) \<Rightarrow> log \<Rightarrow> bool \<Rightarrow> bio \<Rightarrow> bio option" where
  "install_trans ok log recovering s = install_loop ok log recovering [0..<lh_n log] s"

definition read_head :: "(nat \<Rightarrow> bool) \<Rightarrow> log \<Rightarrow> bio \<Rightarrow> (log \<times> bio) option" where
  "read_head ok log s = do {
     (buf, s1) \<leftarrow> bio_read ok (l_dev log) (l_start log) s;
     let lh = b_data (bufs s1 buf);
     let n = get32 lh 0;
     (if n \<le> length (lh_block log) \<and> n \<le> VIMIXFS_MAX_LOG_BLOCKS then Some () else None);
     Some (log\<lparr>lh_n := n, lh_block := map (\<lambda>i. get32 lh (4 + 4 * i)) [0..<n] @ drop n (lh_block log)\<rparr>, bio_release buf s1) }"

definition write_head :: "(nat \<Rightarrow> bool) \<Rightarrow> log \<Rightarrow> bio \<Rightarrow> bio option" where
  "write_head ok log s = do {
     (buf, s1) \<leftarrow> bio_get_from_cache ok (l_dev log) (l_start log) s;
     let s2 = upd_buf buf (\<lambda>b. b\<lparr>b_valid := True\<rparr>) s1;
     (if lh_n log \<le> length (lh_block log) \<and> lh_n log \<le> VIMIXFS_MAX_LOG_BLOCKS then Some () else None);
     let hb = put_blocks (take (lh_n log) (lh_block log)) 0 (put32 0 (lh_n log) (\<lambda>_. 0));
     s3 \<leftarrow> bio_write buf (upd_buf buf (\<lambda>b. b\<lparr>b_data := hb\<rparr>) s2);
     Some (bio_release buf s3) }"

definition recover_from_log :: "(nat \<Rightarrow> bool) \<Rightarrow> log \<Rightarrow> bio \<Rightarrow> (log \<times> bio) option" where
  "recover_from_log ok log s = do {
     (log1, s1) \<leftarrow> read_head ok log s;
     s2 \<leftarrow> install_trans ok log1 True s1;
     let log2 = log1\<lparr>lh_n := 0\<rparr>;
     s3 \<leftarrow> write_head ok log2 s2;
     Some (log2, s3) }"

text \<open>\<open>log\<close> is the memory of the struct before; \<open>kok\<close> says whether the array can be allocated.\<close>

definition log_init :: "(nat \<Rightarrow> bool) \<Rightarrow> bool \<Rightarrow> log \<Rightarrow> nat \<Rightarrow> vimixfs_superblock \<Rightarrow> bio \<Rightarrow> (int \<times> log \<times> bio) option" where
  "log_init ok kok log dev sb s =
     (let log1 = log\<lparr>l_start := logstart sb, l_size := nlog sb, l_dev := dev, committing := False,
                     blocks_used_old_clients := 0, lh_n := 0\<rparr> in
      if \<not> kok then Some (- ENOMEM, log1\<lparr>lh_block := []\<rparr>, s)
      else do {
        (log2, s2) \<leftarrow> recover_from_log ok
          (log1\<lparr>lh_block := replicate (nlog sb) 0, clients := replicate MAX_CONCURRENT_LOG_CLIENTS 0,
                blocks_used := replicate MAX_CONCURRENT_LOG_CLIENTS 0,
                blocks_reserved := replicate MAX_CONCURRENT_LOG_CLIENTS 0\<rparr>) s;
        Some (0, log2, s2) })"

definition log_deinit :: "log \<Rightarrow> log" where
  "log_deinit log = log\<lparr>lh_block := []\<rparr>"

text \<open>
  One round of the loop of \<^verbatim>\<open>log_begin_fs_transaction_explicit\<close>. \<open>depth\<close> is the process's
  \<^verbatim>\<open>debug_log_depth\<close>; the subtraction is one of \<^verbatim>\<open>size_t\<close>, the reservation is stored as an
  \<^verbatim>\<open>int32_t\<close>.
\<close>

definition log_begin_fs_transaction_explicit :: "int \<Rightarrow> nat \<Rightarrow> nat \<Rightarrow> nat \<Rightarrow> log \<Rightarrow> (nat option \<times> log) option" where
  "log_begin_fs_transaction_explicit pid depth request_min request_ideal log =
     (if depth + 1 \<noteq> 1 then None
      else if committing log then Some (None, log_sleep pid log)
      else
        let reserved = blocks_used_old_clients log + sum_list (blocks_reserved log);
            available = nat ((int (l_size log) - reserved) mod 2 ^ 64) in
        if available < request_min then Some (None, log_sleep pid log)
        else
          let to_reserve = min available request_ideal in
          (case log_client_from_pid log 0 of
             None \<Rightarrow> Some (None, log_sleep pid log)
           | Some i \<Rightarrow>
               Some (Some i, log\<lparr>clients := (clients log)[i := pid],
                                 blocks_reserved := (blocks_reserved log)[i := sint (of_nat to_reserve :: 32 word)],
                                 blocks_used := (blocks_used log)[i := 0],
                                 outstanding := outstanding log + 1\<rparr>)))"

definition log_begin_fs_transaction :: "int \<Rightarrow> nat \<Rightarrow> log \<Rightarrow> (nat option \<times> log) option" where
  "log_begin_fs_transaction pid depth log = log_begin_fs_transaction_explicit pid depth 10 10 log"

definition write_log_block :: "(nat \<Rightarrow> bool) \<Rightarrow> log \<Rightarrow> nat \<Rightarrow> bio \<Rightarrow> bio option" where
  "write_log_block ok log tail s = do {
     (to, s1) \<leftarrow> bio_get_from_cache ok (l_dev log) (l_start log + tail + 1) s;
     let s2 = upd_buf to (\<lambda>b. b\<lparr>b_valid := True\<rparr>) s1;
     (if tail < length (lh_block log) then Some () else None);
     (from, s3) \<leftarrow> bio_read ok (l_dev log) (lh_block log ! tail) s2;
     s4 \<leftarrow> bio_write to (upd_buf to (\<lambda>b. b\<lparr>b_data := b_data (bufs s3 from)\<rparr>) s3);
     Some (bio_release to (bio_release from s4)) }"

fun write_log_loop :: "(nat \<Rightarrow> bool) \<Rightarrow> log \<Rightarrow> nat list \<Rightarrow> bio \<Rightarrow> bio option" where
  "write_log_loop ok log [] s = Some s"
| "write_log_loop ok log (tail # ts) s = Option.bind (write_log_block ok log tail s) (write_log_loop ok log ts)"

definition write_log :: "(nat \<Rightarrow> bool) \<Rightarrow> log \<Rightarrow> bio \<Rightarrow> bio option" where
  "write_log ok log s = write_log_loop ok log [0..<lh_n log] s"

definition commit :: "(nat \<Rightarrow> bool) \<Rightarrow> log \<Rightarrow> bio \<Rightarrow> (log \<times> bio) option" where
  "commit ok log s =
     (if lh_n log > 0 then do {
        s1 \<leftarrow> write_log ok log s;
        s2 \<leftarrow> write_head ok log s1;
        s3 \<leftarrow> install_trans ok log False s2;
        let log1 = log\<lparr>lh_n := 0\<rparr>;
        s4 \<leftarrow> write_head ok log1 s3;
        Some (log1\<lparr>blocks_used_old_clients := 0\<rparr>, s4) }
      else Some (log, s))"

text \<open>
  \<^verbatim>\<open>log_end_fs_transaction\<close> holds the lock of the log twice: to give the reservation back, and after
  the commit. The flag is \<^verbatim>\<open>do_commit\<close>.
\<close>

definition log_end_release :: "int \<Rightarrow> log \<Rightarrow> (bool \<times> log) option" where
  "log_end_release pid log =
     (case log_client_from_pid log pid of
        None \<Rightarrow> None
      | Some client \<Rightarrow>
          let log1 = log\<lparr>outstanding := outstanding log - 1, clients := (clients log)[client := 0],
                         blocks_used_old_clients := blocks_used_old_clients log + blocks_used log ! client,
                         blocks_used := (blocks_used log)[client := 0],
                         blocks_reserved := (blocks_reserved log)[client := 0]\<rparr> in
          if outstanding log1 = 0 then Some (True, log1\<lparr>committing := True\<rparr>)
          else Some (False, log_wakeup log1))"

definition log_end_commit :: "(nat \<Rightarrow> bool) \<Rightarrow> log \<Rightarrow> bio \<Rightarrow> (log \<times> bio) option" where
  "log_end_commit ok log s = do {
     (log1, s1) \<leftarrow> commit ok log s;
     Some (log_wakeup (log1\<lparr>committing := False\<rparr>), s1) }"


definition log_write :: "int \<Rightarrow> nat \<Rightarrow> log \<Rightarrow> bio \<Rightarrow> (log \<times> bio) option" where
  "log_write pid p log s =
     (if lh_n log \<ge> l_size log then None
      else if outstanding log < 1 then None
      else if b_blockno (bufs s p) \<in> set (take (lh_n log) (lh_block log)) then Some (log, s)
      else if lh_n log \<ge> length (lh_block log) then None
      else case log_client_from_pid log pid of
             None \<Rightarrow> None
           | Some client \<Rightarrow>
               Some (log\<lparr>lh_block := (lh_block log)[lh_n log := b_blockno (bufs s p)], lh_n := lh_n log + 1,
                         blocks_used := (blocks_used log)[client := blocks_used log ! client + 1]\<rparr>, bio_get p s))"

definition log_get_client_available_blocks :: "log \<Rightarrow> nat \<Rightarrow> nat option" where
  "log_get_client_available_blocks log client =
     (if client < MAX_CONCURRENT_LOG_CLIENTS
      then Some (nat ((blocks_reserved log ! client - blocks_used log ! client) mod 2 ^ 64)) else None)"

section \<open>Blocks through the cache\<close>

lemma others_sameD:
  assumes "others_same dev b s s'" "d \<noteq> 0" "(d, c) \<noteq> (dev, b)"
  shows "view s' d c = view s d c" "refs s' d c = refs s d c" "held s' d c = held s d c" "disk s' d c = disk s d c"
    "holds s q d c \<Longrightarrow> holds s' q d c" "holds s q d c \<Longrightarrow> bufs s' q = bufs s q"
  using assms by (simp_all add: others_same_def)

lemma others_devs: "others_same dev b s s' \<Longrightarrow> block_devs s' = block_devs s"
  by (simp add: others_same_def)

text \<open>A buffer taken to be overwritten, and the new content written to the device.\<close>

lemma get_valid:
  assumes inv: "bio_inv s" and dev: "dev \<noteq> 0" and ok: "\<forall>n. ok n" and nh: "\<not> held s dev b"
  obtains p s1 s2 where "bio_get_from_cache ok dev b s = Some (p, s1)" "s2 = upd_buf p (\<lambda>b. b\<lparr>b_valid := True\<rparr>) s1"
    "bio_inv s2" "holds s2 p dev b" "b_valid (bufs s2 p)" "refs s2 dev b = refs s dev b + 1" "disk s2 = disk s"
    "writes s2 = writes s" "others_same dev b s s2"
proof -
  obtain p s1 where g: "bio_get_from_cache ok dev b s = Some (p, s1)" "got dev b s p s1"
    using get_from_cache_ok [OF inv dev ok nh] by blast
  then have g': "bio_inv s1" "is_buf s1 p dev b" "b_locked (bufs s1 p)" "0 < b_refcnt (bufs s1 p)" "disk s1 = disk s"
    "writes s1 = writes s" "refs s1 dev b = refs s dev b + 1" "others_same dev b s s1" by (simp_all add: got_def holds_def)
  have k: "b_dev (bufs s1 p) = dev" "b_blockno (bufs s1 p) = b" using g'(2) by (simp_all add: is_buf_def)
  let ?s2 = "upd_buf p (\<lambda>b. b\<lparr>b_valid := True\<rparr>) s1"
  have b2: "bufs ?s2 = (bufs s1)(p := (bufs s1 p)\<lparr>b_valid := True\<rparr>)" by simp
  note U = used_upd [OF g'(1) dev g'(2,4) _ b2]
  have u: "bio_inv ?s2" "others_same dev b s1 ?s2" "is_buf ?s2 p dev b" "refs ?s2 dev b = b_refcnt (bufs s1 p)"
    using U k g'(4) by simp_all
  show ?thesis
    using that [OF g(1) refl u(1)] u(3,4) g' others_trans [OF g'(8) u(2)] abs_buf(2) [OF g'(1) dev g'(2)] by (simp add: holds_def)
qed

lemma store_block:
  assumes inv: "bio_inv s" and dev: "dev \<noteq> 0" "dev \<in> block_devs s" and p: "holds s p dev b" "b_valid (bufs s p)"
  obtains s' where "bio_write p (upd_buf p (\<lambda>b. b\<lparr>b_data := v\<rparr>) s) = Some s'" "bio_inv s'" "holds s' p dev b"
    "view s' dev b = v" "refs s' dev b = refs s dev b" "others_same dev b s s'"
    "disk s' = (disk s)(dev := (disk s dev)(b := v))" "writes s' = writes s @ [(dev, b, v)]"
proof -
  let ?s1 = "upd_buf p (\<lambda>b. b\<lparr>b_data := v\<rparr>) s"
  note m = buf_modify_ok [OF inv dev(1) p refl, where d = v]
  have "dev \<in> block_devs ?s1" "b_valid (bufs ?s1 p)" using dev p by simp_all
  from bio_write_ok [OF m(1) dev(1) this(1) m(2) this(2)]
  obtain s' where w: "bio_write p ?s1 = Some s'" "bio_inv s'" "holds s' p dev b" "view s' dev b = view ?s1 dev b"
    "refs s' dev b = refs ?s1 dev b" "others_same dev b ?s1 s'"
    "disk s' = (disk ?s1)(dev := (disk ?s1 dev)(b := view ?s1 dev b))" "writes s' = writes ?s1 @ [(dev, b, view ?s1 dev b)]" by blast
  show ?thesis using that [OF w(1-3)] w(4-8) m(3,4) others_trans [OF m(5) w(6)] by simp
qed

definition apply_writes :: "(nat \<times> nat \<times> block) list \<Rightarrow> (nat \<Rightarrow> nat \<Rightarrow> block) \<Rightarrow> nat \<Rightarrow> nat \<Rightarrow> block" where
  "apply_writes W f = fold (\<lambda>(d, b, v) g. g(d := (g d)(b := v))) W f"

lemma apply_writes_simps [simp]:
  "apply_writes [] f = f" "apply_writes ((d, b, v) # W) f = apply_writes W (f(d := (f d)(b := v)))"
  "apply_writes (W @ W') f = apply_writes W' (apply_writes W f)"
  by (simp_all add: apply_writes_def)

text \<open>
  A run of the code that writes the blocks \<open>W\<close> and does nothing else to the content of the blocks
  and the locks; \<open>R\<close> are the references that are left.
\<close>

definition run_to :: "bio \<Rightarrow> (nat \<times> nat \<times> block) list \<Rightarrow> (nat \<Rightarrow> nat \<Rightarrow> nat) \<Rightarrow> bio \<Rightarrow> bool" where
  "run_to s W R s' \<longleftrightarrow> bio_inv s' \<and> block_devs s' = block_devs s \<and> writes s' = writes s @ W \<and> disk s' = apply_writes W (disk s) \<and>
     (\<forall>d b. d \<noteq> 0 \<longrightarrow> view s' d b = apply_writes W (view s) d b \<and> held s' d b = held s d b \<and> refs s' d b = R d b)"

lemma run_toD:
  assumes "run_to s W R s'"
  shows "bio_inv s'" "block_devs s' = block_devs s" "writes s' = writes s @ W" "disk s' = apply_writes W (disk s)"
    "d \<noteq> 0 \<Longrightarrow> view s' d b = apply_writes W (view s) d b" "d \<noteq> 0 \<Longrightarrow> held s' d b = held s d b" "d \<noteq> 0 \<Longrightarrow> refs s' d b = R d b"
  using assms by (simp_all add: run_to_def)

lemma apply_writes_cong: "f d b = g d b \<Longrightarrow> apply_writes W f d b = apply_writes W g d b"
proof (induction W arbitrary: f g)
  case (Cons w W)
  obtain d' b' v where w: "w = (d', b', v)" by (cases w)
  show ?case unfolding w apply_writes_simps by (rule Cons.IH) (use Cons.prems in auto)
qed simp

lemma run_to_trans:
  assumes "run_to s W R s1" "run_to s1 W' R' s2"
  shows "run_to s (W @ W') R' s2"
proof -
  note A = run_toD [OF assms(1)] and B = run_toD [OF assms(2)]
  have "view s2 d b = apply_writes W' (apply_writes W (view s)) d b" if "d \<noteq> 0" for d b
    using B(5) [OF that] A(5) [OF that] apply_writes_cong [of "view s1" d b "apply_writes W (view s)" W'] by simp
  then show ?thesis unfolding run_to_def using A B by simp
qed

lemma run_toI:
  assumes "bio_inv s'" "block_devs s' = block_devs s" "writes s' = writes s @ [(dev, b, v)]" "disk s' = (disk s)(dev := (disk s dev)(b := v))"
    "view s' dev b = v" "held s' dev b = held s dev b" "refs s' dev b = R dev b"
    "\<And>d c. d \<noteq> 0 \<Longrightarrow> (d, c) \<noteq> (dev, b) \<Longrightarrow> view s' d c = view s d c \<and> held s' d c = held s d c \<and> refs s' d c = R d c"
  shows "run_to s [(dev, b, v)] R s'"
proof -
  have "view s' d c = apply_writes [(dev, b, v)] (view s) d c \<and> held s' d c = held s d c \<and> refs s' d c = R d c" if "d \<noteq> 0" for d c
    using assms(5-7) assms(8) [OF that, of c] by (cases "(d, c) = (dev, b)") auto
  then show ?thesis unfolding run_to_def using assms(1-4) by simp
qed

lemma write_head_ok:
  assumes inv: "bio_inv s" and dev: "l_dev log \<noteq> 0" "l_dev log \<in> block_devs s" and ok: "\<forall>n. ok n"
    and nh: "\<not> held s (l_dev log) (l_start log)" and n: "lh_n log \<le> length (lh_block log)" "lh_n log \<le> VIMIXFS_MAX_LOG_BLOCKS"
  shows "\<exists>s'. write_head ok log s = Some s' \<and>
    run_to s [(l_dev log, l_start log, put_blocks (take (lh_n log) (lh_block log)) 0 (put32 0 (lh_n log) (\<lambda>_. 0)))] (refs s) s'"
proof -
  let ?d = "l_dev log" and ?b = "l_start log" and ?v = "put_blocks (take (lh_n log) (lh_block log)) 0 (put32 0 (lh_n log) (\<lambda>_. 0))"
  obtain p s1 s2 where g: "bio_get_from_cache ok ?d ?b s = Some (p, s1)" "s2 = upd_buf p (\<lambda>b. b\<lparr>b_valid := True\<rparr>) s1"
      "bio_inv s2" "holds s2 p ?d ?b" "b_valid (bufs s2 p)" "refs s2 ?d ?b = refs s ?d ?b + 1" "disk s2 = disk s"
      "writes s2 = writes s" "others_same ?d ?b s s2"
    using get_valid [OF inv dev(1) ok nh] by blast
  have dv: "?d \<in> block_devs s2" using others_devs [OF g(9)] dev(2) by simp
  obtain s3 where w: "bio_write p (upd_buf p (\<lambda>b. b\<lparr>b_data := ?v\<rparr>) s2) = Some s3" "bio_inv s3" "holds s3 p ?d ?b"
    "view s3 ?d ?b = ?v" "refs s3 ?d ?b = refs s2 ?d ?b" "others_same ?d ?b s2 s3"
    "disk s3 = (disk s2)(?d := (disk s2 ?d)(?b := ?v))" "writes s3 = writes s2 @ [(?d, ?b, ?v)]"
    using store_block [OF g(3) dev(1) dv g(4,5), where v = ?v] by blast
  have "view s3 ?d ?b = disk s3 ?d ?b" using w(4,7) by simp
  note r = bio_release_ok [OF w(2) dev(1) w(3) this]
  have o: "others_same ?d ?b s (bio_release p s3)" by (rule others_trans [OF others_trans [OF g(9) w(6)] r(5)])
  have "run_to s [(?d, ?b, ?v)] (refs s) (bio_release p s3)"
    by (rule run_toI) (use r g(6-8) w(4,5,7,8) nh others_devs [OF o] others_sameD(1-3) [OF o] in simp_all)
  then show ?thesis using g(1,2) w(1) n by (simp add: write_head_def Let_def)
qed

lemma write_log_block_ok:
  assumes inv: "bio_inv s" and dev: "l_dev log \<noteq> 0" "l_dev log \<in> block_devs s" and ok: "\<forall>n. ok n"
    and t: "\<not> held s (l_dev log) (l_start log + tail + 1)" "\<not> held s (l_dev log) (lh_block log ! tail)"
      "l_start log + tail + 1 \<noteq> lh_block log ! tail" "0 < refs s (l_dev log) (lh_block log ! tail)" "tail < length (lh_block log)"
  shows "\<exists>s'. write_log_block ok log tail s = Some s' \<and>
    run_to s [(l_dev log, l_start log + tail + 1, view s (l_dev log) (lh_block log ! tail))] (refs s) s'"
proof -
  let ?d = "l_dev log" and ?t = "l_start log + tail + 1" and ?h = "lh_block log ! tail"
  let ?v = "view s ?d ?h"
  have th: "(?d, ?h) \<noteq> (?d, ?t)" "(?d, ?t) \<noteq> (?d, ?h)" using t(3) by auto
  obtain p s1 s2 where g: "bio_get_from_cache ok ?d ?t s = Some (p, s1)" "s2 = upd_buf p (\<lambda>b. b\<lparr>b_valid := True\<rparr>) s1"
      "bio_inv s2" "holds s2 p ?d ?t" "b_valid (bufs s2 p)" "refs s2 ?d ?t = refs s ?d ?t + 1" "disk s2 = disk s"
      "writes s2 = writes s" "others_same ?d ?t s s2"
    using get_valid [OF inv dev(1) ok t(1)] by blast
  note G = others_sameD [OF g(9) dev(1) th(1)] and dv2 = others_devs [OF g(9)]
  have pre: "?d \<in> block_devs s2" "\<not> held s2 ?d ?h" using G(3) dv2 dev(2) t(2) by simp_all
  obtain q s3 where f: "bio_read ok ?d ?h s2 = Some (q, s3)" "got ?d ?h s2 q s3" "b_data (bufs s3 q) = ?v"
    using bio_read_ok [OF g(3) dev(1) pre(1) ok pre(2)] unfolding G(1) by blast
  have f': "bio_inv s3" "holds s3 q ?d ?h" "refs s3 ?d ?h = refs s ?d ?h + 1" "view s3 ?d ?h = ?v" "disk s3 = disk s" "writes s3 = writes s"
      "others_same ?d ?h s2 s3"
    using f(2) G g(7,8) by (simp_all add: got_def)
  note O3 = others_sameD [OF f'(7) dev(1) th(2)] and dv3 = others_devs [OF f'(7)]
  have p3: "holds s3 p ?d ?t" "b_valid (bufs s3 p)" "?d \<in> block_devs s3" using O3(5,6) [OF g(4)] g(5) dv2 dv3 dev(2) by simp_all
  obtain s4 where w: "bio_write p (upd_buf p (\<lambda>b. b\<lparr>b_data := ?v\<rparr>) s3) = Some s4" "bio_inv s4" "holds s4 p ?d ?t"
    "view s4 ?d ?t = ?v" "refs s4 ?d ?t = refs s3 ?d ?t" "others_same ?d ?t s3 s4"
    "disk s4 = (disk s3)(?d := (disk s3 ?d)(?t := ?v))" "writes s4 = writes s3 @ [(?d, ?t, ?v)]"
    using store_block [OF f'(1) dev(1) p3(3,1,2), where v = ?v] by blast
  note O4 = others_sameD [OF w(6) dev(1) th(1)]
  let ?s5 = "bio_release q s4"
  have "refs s4 ?d ?h \<noteq> 1" using O4(2) f'(3) t(4) by simp
  then have r: "bio_inv ?s5" "\<not> held ?s5 ?d ?h" "view ?s5 ?d ?h = view s4 ?d ?h" "refs ?s5 ?d ?h = refs s4 ?d ?h - 1"
      "others_same ?d ?h s4 ?s5" "disk ?s5 = disk s4" "writes ?s5 = writes s4"
    using bio_release_ok [OF w(2) dev(1) O4(5) [OF f'(2)]] by simp_all
  note O5 = others_sameD [OF r(5) dev(1) th(2)]
  have "view ?s5 ?d ?t = disk ?s5 ?d ?t" using O5(1) r(6) w(4,7) by simp
  note z = bio_release_ok [OF r(1) dev(1) O5(5) [OF w(3)] this]
  let ?s6 = "bio_release p ?s5"
  note O6 = others_sameD [OF z(5) dev(1) th(1)]
  have "run_to s [(?d, ?t, ?v)] (refs s) ?s6"
  proof (rule run_toI)
    show "block_devs ?s6 = block_devs s" using others_devs [OF z(5)] others_devs [OF r(5)] others_devs [OF w(6)] dv3 dv2 by simp
    show "held ?s6 ?d ?t = held s ?d ?t" "view ?s6 ?d ?t = ?v" using z(2,3) t(1) O5(1) w(4) by simp_all
    show "refs ?s6 ?d ?t = refs s ?d ?t" using z(4) O5(2) w(5) O3(2) g(6) by simp
    show "view ?s6 a c = view s a c \<and> held ?s6 a c = held s a c \<and> refs ?s6 a c = refs s a c" if "a \<noteq> 0" "(a, c) \<noteq> (?d, ?t)" for a c
    proof (cases "(a, c) = (?d, ?h)")
      case True
      have "view ?s6 ?d ?h = ?v" "\<not> held ?s6 ?d ?h" "refs ?s6 ?d ?h = refs s ?d ?h"
        using O6(1-3) r(2-4) O4(1,2) f'(3,4) by simp_all
      then show ?thesis using True t(2) by simp
    next
      case False
      then show ?thesis
        using others_sameD(1-3) [OF z(5) that] others_sameD(1-3) [OF r(5) that(1) False] others_sameD(1-3) [OF w(6) that]
          others_sameD(1-3) [OF f'(7) that(1) False] others_sameD(1-3) [OF g(9) that] by simp
    qed
  qed (use z(1,6,7) r(6,7) w(7,8) f'(5,6) in simp_all)
  then show ?thesis using g(1,2) f(1,3) w(1) t(5) by (simp add: write_log_block_def Let_def)
qed

lemma install_block_ok:
  assumes inv: "bio_inv s" and dev: "l_dev log \<noteq> 0" "l_dev log \<in> block_devs s" and ok: "\<forall>n. ok n"
    and t: "\<not> held s (l_dev log) (l_start log + tail + 1)" "\<not> held s (l_dev log) (lh_block log ! tail)"
      "l_start log + tail + 1 \<noteq> lh_block log ! tail" "tail < length (lh_block log)"
    and clean: "refs s (l_dev log) (l_start log + tail + 1) = 0"
    and rc: "\<not> recovering \<Longrightarrow> 0 < refs s (l_dev log) (lh_block log ! tail)"
    and R: "R = (if recovering then refs s else (\<lambda>d b. refs s d b - (if (d, b) = (l_dev log, lh_block log ! tail) then 1 else 0)))"
  shows "\<exists>s'. install_block ok log recovering tail s = Some s' \<and>
    run_to s [(l_dev log, lh_block log ! tail, view s (l_dev log) (l_start log + tail + 1))] R s'"
proof -
  let ?d = "l_dev log" and ?t = "l_start log + tail + 1" and ?h = "lh_block log ! tail"
  let ?v = "view s ?d ?t"
  have th: "(?d, ?h) \<noteq> (?d, ?t)" "(?d, ?t) \<noteq> (?d, ?h)" using t(3) by auto
  obtain q s1 where f: "bio_read ok ?d ?t s = Some (q, s1)" "got ?d ?t s q s1" "b_data (bufs s1 q) = ?v"
    using bio_read_ok [OF inv dev ok t(1)] by blast
  then have f': "bio_inv s1" "holds s1 q ?d ?t" "refs s1 ?d ?t = 1" "view s1 ?d ?t = ?v" "disk s1 = disk s" "writes s1 = writes s"
      "others_same ?d ?t s s1" using clean by (simp_all add: got_def)
  note O1 = others_sameD [OF f'(7) dev(1) th(1)] and dv1 = others_devs [OF f'(7)]
  have "\<not> held s1 ?d ?h" using O1(3) t(2) by simp
  from get_valid [OF f'(1) dev(1) ok this]
  obtain p s2 s3 where g: "bio_get_from_cache ok ?d ?h s1 = Some (p, s2)" "s3 = upd_buf p (\<lambda>b. b\<lparr>b_valid := True\<rparr>) s2"
      "bio_inv s3" "holds s3 p ?d ?h" "b_valid (bufs s3 p)" "refs s3 ?d ?h = refs s1 ?d ?h + 1" "disk s3 = disk s1"
      "writes s3 = writes s1" "others_same ?d ?h s1 s3" by blast
  note O3 = others_sameD [OF g(9) dev(1) th(2)] and dv3 = others_devs [OF g(9)]
  have dv: "?d \<in> block_devs s3" using dv1 dv3 dev(2) by simp
  have v: "b_data (bufs s3 q) = ?v" using O3(6) [OF f'(2)] f(3) by simp
  obtain s5 where w: "bio_write p (upd_buf p (\<lambda>b. b\<lparr>b_data := ?v\<rparr>) s3) = Some s5" "bio_inv s5" "holds s5 p ?d ?h"
    "view s5 ?d ?h = ?v" "refs s5 ?d ?h = refs s3 ?d ?h" "others_same ?d ?h s3 s5"
    "disk s5 = (disk s3)(?d := (disk s3 ?d)(?h := ?v))" "writes s5 = writes s3 @ [(?d, ?h, ?v)]"
    using store_block [OF g(3) dev(1) dv g(4,5), where v = ?v] by blast
  define s6 where "s6 = (if recovering then s5 else bio_put p s5)"
  have u: "bio_inv s6" "holds s6 p ?d ?h" "view s6 ?d ?h = ?v" "refs s6 ?d ?h = refs s5 ?d ?h - (if recovering then 0 else 1)"
      "others_same ?d ?h s5 s6" "disk s6 = disk s5" "writes s6 = writes s5"
    using w bio_put_ok [OF w(2) dev(1) w(3)] g(6) O1(2) rc by (auto simp: s6_def others_same_def bio_put_def)
  have o36: "others_same ?d ?h s3 s6" by (rule others_trans [OF w(6) u(5)])
  note O6 = others_sameD [OF o36 dev(1) th(2)]
  have "view s6 ?d ?t = disk s6 ?d ?t"
    using O6(1) O3(1) f'(4) abs_free(1) [OF inv dev(1) clean] u(6) w(7) g(7) f'(5) t(3) by simp
  note r = bio_release_ok [OF u(1) dev(1) O6(5) [OF O3(5) [OF f'(2)]] this]
  let ?s7 = "bio_release q s6"
  note O7 = others_sameD [OF r(5) dev(1) th(1)]
  have "view ?s7 ?d ?h = disk ?s7 ?d ?h" using O7(1) r(6) u(3,6) w(7) by simp
  note z = bio_release_ok [OF r(1) dev(1) O7(5) [OF u(2)] this]
  let ?s8 = "bio_release p ?s7"
  note O8 = others_sameD [OF z(5) dev(1) th(2)]
  have "run_to s [(?d, ?h, ?v)] R ?s8"
  proof (rule run_toI)
    show "block_devs ?s8 = block_devs s" using others_devs [OF z(5)] others_devs [OF r(5)] others_devs [OF o36] dv3 dv1 by simp
    show "held ?s8 ?d ?h = held s ?d ?h" "view ?s8 ?d ?h = ?v" using z(2,3) t(2) O7(1) u(3) by simp_all
    show "refs ?s8 ?d ?h = R ?d ?h" using z(4) O7(2) u(4) w(5) g(6) O1(2) by (simp add: R)
    show "view ?s8 a c = view s a c \<and> held ?s8 a c = held s a c \<and> refs ?s8 a c = R a c" if "a \<noteq> 0" "(a, c) \<noteq> (?d, ?h)" for a c
    proof (cases "(a, c) = (?d, ?t)")
      case True
      have "view ?s8 ?d ?t = ?v" "\<not> held ?s8 ?d ?t" "refs ?s8 ?d ?t = refs s ?d ?t"
        using O8(1-3) r(2-4) O6(1,2) O3(1,2) f'(3,4) clean by simp_all
      then show ?thesis using True t(1,3) by (simp add: R)
    next
      case False
      then show ?thesis
        using others_sameD(1-3) [OF z(5) that] others_sameD(1-3) [OF r(5) that(1) False] others_sameD(1-3) [OF o36 that]
          others_sameD(1-3) [OF f'(7) that(1) False] others_sameD(1-3) [OF g(9) that] that(2) by (auto simp: R)
    qed
  qed (use z(1,6,7) r(6,7) u(6,7) w(7,8) g(7,8) f'(5,6) in simp_all)
  moreover have "install_block ok log recovering tail s = Some ?s8"
    using f(1) g(1) t(4) w(1) v unfolding install_block_def s6_def g(2) by (simp add: Let_def)
  ultimately show ?thesis by blast
qed

lemma run_to_refs: "run_to s W R s' \<Longrightarrow> (\<And>d b. d \<noteq> 0 \<Longrightarrow> R d b = R' d b) \<Longrightarrow> run_to s W R' s'"
  unfolding run_to_def by simp

text \<open>The blocks of the log and the home blocks, which are not in the log.\<close>

definition log_blocks :: "log \<Rightarrow> nat set \<Rightarrow> bool" where
  "log_blocks log I \<longleftrightarrow> (\<forall>i\<in>I. i < length (lh_block log) \<and> (\<forall>j\<in>I. lh_block log ! i \<noteq> l_start log + j + 1))"

definition quiet :: "log \<Rightarrow> bio \<Rightarrow> bool" where
  "quiet log s \<longleftrightarrow> bio_inv s \<and> l_dev log \<noteq> 0 \<and> l_dev log \<in> block_devs s \<and> (\<forall>b. \<not> held s (l_dev log) b)"

lemma quietD:
  assumes "quiet log s"
  shows "bio_inv s" "l_dev log \<noteq> 0" "l_dev log \<in> block_devs s" "\<not> held s (l_dev log) b"
  using assms by (simp_all add: quiet_def)

lemma quiet_run: "quiet log s \<Longrightarrow> run_to s W R s' \<Longrightarrow> quiet log s'"
  unfolding quiet_def run_to_def by simp

lemma write_log_loop_ok:
  assumes ok: "\<forall>n. ok n" and q: "quiet log s" and l: "log_blocks log I" "set ts \<subseteq> I"
    and pin: "\<forall>i\<in>I. 0 < refs s (l_dev log) (lh_block log ! i)"
  shows "\<exists>s'. write_log_loop ok log ts s = Some s' \<and>
    run_to s (map (\<lambda>i. (l_dev log, l_start log + i + 1, view s (l_dev log) (lh_block log ! i))) ts) (refs s) s'"
  using q l(2) pin
proof (induction ts arbitrary: s)
  case Nil
  then show ?case by (simp add: run_to_def quiet_def)
next
  case (Cons t ts)
  let ?d = "l_dev log"
  have t: "t \<in> I" "set ts \<subseteq> I" using Cons.prems(2) by auto
  note Q = quietD [OF Cons.prems(1)]
  have n: "l_start log + t + 1 \<noteq> lh_block log ! i" if "i \<in> I" for i using l(1) t(1) that unfolding log_blocks_def by force
  have "0 < refs s ?d (lh_block log ! t)" "t < length (lh_block log)" using Cons.prems(3) l(1) t(1) unfolding log_blocks_def by blast+
  from write_log_block_ok [OF Q(1-3) ok Q(4) Q(4) n [OF t(1)] this]
  obtain s1 where s1: "write_log_block ok log t s = Some s1"
      "run_to s [(?d, l_start log + t + 1, view s ?d (lh_block log ! t))] (refs s) s1" by (elim exE conjE)
  note D = run_toD [OF s1(2)]
  have pin1: "\<forall>i\<in>I. 0 < refs s1 ?d (lh_block log ! i)" using D(7) [OF Q(2)] Cons.prems(3) by simp
  have v: "view s1 ?d (lh_block log ! i) = view s ?d (lh_block log ! i)" if "i \<in> I" for i
    using D(5) [OF Q(2)] n [OF that] by simp
  obtain s' where s': "write_log_loop ok log ts s1 = Some s'"
      "run_to s1 (map (\<lambda>i. (?d, l_start log + i + 1, view s1 ?d (lh_block log ! i))) ts) (refs s1) s'"
    using Cons.IH [OF quiet_run [OF Cons.prems(1) s1(2)] t(2) pin1] by blast
  have m: "map (\<lambda>i. (?d, l_start log + i + 1, view s1 ?d (lh_block log ! i))) ts = map (\<lambda>i. (?d, l_start log + i + 1, view s ?d (lh_block log ! i))) ts"
    using v t(2) by auto
  have "run_to s (map (\<lambda>i. (?d, l_start log + i + 1, view s ?d (lh_block log ! i))) (t # ts)) (refs s) s'"
    using run_to_refs [OF run_to_trans [OF s1(2) s'(2) [unfolded m]] D(7)] by simp
  then show ?case using s1(1) s'(1) by simp
qed

lemma install_loop_ok:
  assumes ok: "\<forall>n. ok n" and q: "quiet log s" and l: "log_blocks log I" "set ts \<subseteq> I" "distinct (map (\<lambda>i. lh_block log ! i) ts)"
    and free: "\<forall>i\<in>I. refs s (l_dev log) (l_start log + i + 1) = 0"
    and pin: "\<not> recovering \<Longrightarrow> \<forall>i\<in>set ts. 0 < refs s (l_dev log) (lh_block log ! i)"
  shows "\<exists>s'. install_loop ok log recovering ts s = Some s' \<and>
    run_to s (map (\<lambda>i. (l_dev log, lh_block log ! i, view s (l_dev log) (l_start log + i + 1))) ts)
      (\<lambda>d b. refs s d b - (if \<not> recovering \<and> d = l_dev log \<and> b \<in> (\<lambda>i. lh_block log ! i) ` set ts then 1 else 0)) s'"
  using q l(2,3) free pin
proof (induction ts arbitrary: s)
  case Nil
  then show ?case by (simp add: run_to_def quiet_def)
next
  case (Cons t ts)
  let ?d = "l_dev log"
  have t: "t \<in> I" "set ts \<subseteq> I" "distinct (map (\<lambda>i. lh_block log ! i) ts)" "lh_block log ! t \<notin> (\<lambda>i. lh_block log ! i) ` set ts"
    using Cons.prems(2,3) by auto
  note Q = quietD [OF Cons.prems(1)]
  have n: "lh_block log ! t \<noteq> l_start log + i + 1" if "i \<in> I" for i using l(1) t(1) that unfolding log_blocks_def by blast
  let ?R = "if recovering then refs s else (\<lambda>d b. refs s d b - (if (d, b) = (?d, lh_block log ! t) then 1 else 0))"
  have "t < length (lh_block log)" "refs s ?d (l_start log + t + 1) = 0" using l(1) t(1) Cons.prems(4) unfolding log_blocks_def by blast+
  from install_block_ok [OF Q(1-3) ok Q(4) Q(4) n [OF t(1), symmetric] this, of recovering ?R] Cons.prems(5)
  obtain s1 where s1: "install_block ok log recovering t s = Some s1"
      "run_to s [(?d, lh_block log ! t, view s ?d (l_start log + t + 1))] ?R s1" by auto
  note D = run_toD [OF s1(2)]
  have free1: "\<forall>i\<in>I. refs s1 ?d (l_start log + i + 1) = 0" using D(7) [OF Q(2)] Cons.prems(4) n by simp
  have pin1: "\<forall>i\<in>set ts. 0 < refs s1 ?d (lh_block log ! i)" if "\<not> recovering"
  proof
    fix i assume i: "i \<in> set ts"
    then have "lh_block log ! i \<noteq> lh_block log ! t" using t(4) by (metis image_eqI)
    then show "0 < refs s1 ?d (lh_block log ! i)" using D(7) [OF Q(2)] Cons.prems(5) [OF that] i that by simp
  qed
  have v: "view s1 ?d (l_start log + i + 1) = view s ?d (l_start log + i + 1)" if "i \<in> I" for i
    using D(5) [OF Q(2)] n [OF that] by simp
  let ?R1 = "\<lambda>d b. refs s1 d b - (if \<not> recovering \<and> d = ?d \<and> b \<in> (\<lambda>i. lh_block log ! i) ` set ts then 1 else 0)"
  obtain s' where s': "install_loop ok log recovering ts s1 = Some s'"
      "run_to s1 (map (\<lambda>i. (?d, lh_block log ! i, view s1 ?d (l_start log + i + 1))) ts) ?R1 s'"
    using Cons.IH [OF quiet_run [OF Cons.prems(1) s1(2)] t(2,3) free1 pin1] by blast
  have m: "map (\<lambda>i. (?d, lh_block log ! i, view s1 ?d (l_start log + i + 1))) ts = map (\<lambda>i. (?d, lh_block log ! i, view s ?d (l_start log + i + 1))) ts"
    using v t(2) by auto
  have "run_to s (map (\<lambda>i. (?d, lh_block log ! i, view s ?d (l_start log + i + 1))) (t # ts)) ?R1 s'"
    using run_to_trans [OF s1(2) s'(2) [unfolded m]] by simp
  moreover have "?R1 d b = refs s d b - (if \<not> recovering \<and> d = ?d \<and> b \<in> (\<lambda>i. lh_block log ! i) ` set (t # ts) then 1 else 0)"
    if "d \<noteq> 0" for d b using D(7) [OF that, of b] t(4) by auto
  ultimately show ?case using s1(1) s'(1) run_to_refs by (auto intro!: exI [of _ s'] simp del: list.map)
qed

section \<open>The header block\<close>

definition head_of :: "nat list \<Rightarrow> block" where
  "head_of bl = put_blocks bl 0 (put32 0 (length bl) (\<lambda>_. 0))"

lemma get_put32: "n < 2 ^ 32 \<Longrightarrow> get32 (put32 i n b) i = n"
proof -
  assume n: "n < 2 ^ 32"
  have u: "unat (of_nat m :: byte) = m mod 256" for m by (simp add: unat_of_nat)
  have "n = n mod 256 + 256 * (n div 256)" for n :: nat by simp
  have "n div 256 div 256 div 256 < 256" using n by (simp add: div_mult2_eq [symmetric] less_mult_imp_div_less)
  then have "n div 256 div 256 div 256 mod 256 = n div 256 div 256 div 256" by simp
  then show ?thesis by (simp add: get32_def put32_def u)
qed

lemma get_put32_other: "j + 4 \<le> i \<or> i + 4 \<le> j \<Longrightarrow> get32 (put32 i n b) j = get32 b j"
  by (auto simp: get32_def put32_def)

lemma get_put_blocks:
  assumes "\<forall>n\<in>set ns. n < 2 ^ 32"
  shows "get32 (put_blocks ns i b) 0 = get32 b 0"
    "get32 (put_blocks ns i b) (4 + 4 * k) = (if i \<le> k \<and> k < i + length ns then ns ! (k - i) else get32 b (4 + 4 * k))"
  using assms
proof (induction ns i b rule: put_blocks.induct)
  case (2 n ns i b)
  { case 1 then show ?case using 2 by (simp add: get_put32_other) }
  { case 2
    have *: "get32 (put_blocks ns (i + 1) (put32 (4 + 4 * i) n b)) (4 + 4 * k) =
      (if i + 1 \<le> k \<and> k < i + 1 + length ns then ns ! (k - (i + 1)) else get32 (put32 (4 + 4 * i) n b) (4 + 4 * k))"
      using "2.IH"(2) "2" by simp
    consider "k = i" | "k < i" | "i < k" by linarith
    then show ?case
    proof cases
      assume "k = i"
      then show ?thesis using * get_put32 [of n "4 + 4 * i" b] 2 by simp
    next
      assume "k < i"
      then show ?thesis using * get_put32_other [of "4 + 4 * k" "4 + 4 * i" n b] by simp
    next
      assume k: "i < k"
      then have "(n # ns) ! (k - i) = ns ! (k - (i + 1))" by (simp add: nth_Cons')
      then show ?thesis using * get_put32_other [of "4 + 4 * k" "4 + 4 * i" n b] k by simp
    qed }
qed simp_all

lemma head_of_simps:
  assumes "\<forall>n\<in>set bl. n < 2 ^ 32" "length bl \<le> VIMIXFS_MAX_LOG_BLOCKS"
  shows "get32 (head_of bl) 0 = length bl" "map (\<lambda>i. get32 (head_of bl) (4 + 4 * i)) [0..<length bl] = bl"
proof -
  have "length bl < 2 ^ 32" using assms(2) by (simp add: VIMIXFS_MAX_LOG_BLOCKS_def BLOCK_SIZE_def)
  then show "get32 (head_of bl) 0 = length bl" using get_put_blocks(1) [OF assms(1)] get_put32 by (simp add: head_of_def)
  show "map (\<lambda>i. get32 (head_of bl) (4 + 4 * i)) [0..<length bl] = bl"
    by (rule nth_equalityI) (simp_all add: head_of_def get_put_blocks(2) [OF assms(1)])
qed

lemma read_head_ok:
  assumes q: "quiet log s" and ok: "\<forall>n. ok n" and c: "refs s (l_dev log) (l_start log) = 0"
    and h: "view s (l_dev log) (l_start log) = head_of bl" "\<forall>n\<in>set bl. n < 2 ^ 32" "length bl \<le> VIMIXFS_MAX_LOG_BLOCKS"
      "length bl \<le> length (lh_block log)"
  shows "\<exists>s'. read_head ok log s = Some (log\<lparr>lh_n := length bl, lh_block := bl @ drop (length bl) (lh_block log)\<rparr>, s') \<and>
    run_to s [] (refs s) s'"
proof -
  let ?d = "l_dev log" and ?b = "l_start log"
  note Q = quietD [OF q]
  obtain p s1 where f: "bio_read ok ?d ?b s = Some (p, s1)" "got ?d ?b s p s1" "b_data (bufs s1 p) = view s ?d ?b"
    using bio_read_ok [OF Q(1-3) ok Q(4)] by blast
  then have f': "bio_inv s1" "holds s1 p ?d ?b" "refs s1 ?d ?b = refs s ?d ?b + 1" "view s1 ?d ?b = view s ?d ?b" "disk s1 = disk s"
      "writes s1 = writes s" "others_same ?d ?b s s1" by (simp_all add: got_def)
  have "view s1 ?d ?b = disk s1 ?d ?b" using f'(4,5) abs_free(1) [OF Q(1,2) c] by simp
  note r = bio_release_ok [OF f'(1) Q(2) f'(2) this]
  have o: "others_same ?d ?b s (bio_release p s1)" by (rule others_trans [OF f'(7) r(5)])
  have "view (bio_release p s1) d b = view s d b \<and> held (bio_release p s1) d b = held s d b \<and> refs (bio_release p s1) d b = refs s d b"
    if "d \<noteq> 0" for d b
    using others_sameD(1-3) [OF o that, of b] r(2-4) f'(3,4) Q(4) by (cases "(d, b) = (?d, ?b)") auto
  then have "run_to s [] (refs s) (bio_release p s1)"
    unfolding run_to_def using r(1,6,7) f'(5,6) others_devs [OF o] by simp
  then show ?thesis using f(1,3) h(1,4) head_of_simps [OF h(2,3)] h(3) by (simp add: read_head_def Let_def)
qed

section \<open>Commit and recovery\<close>

lemma apply_map_other:
  "(d, b) \<notin> (\<lambda>i. (dev, k i)) ` set ts \<Longrightarrow> apply_writes (map (\<lambda>i. (dev, k i, v i)) ts) f d b = f d b"
proof (induction ts arbitrary: f)
  case (Cons t ts)
  then have n: "(d, b) \<notin> (\<lambda>i. (dev, k i)) ` set ts" and "(d, b) \<noteq> (dev, k t)" by auto
  then have e: "(f(dev := (f dev)(k t := v t))) d b = f d b" by auto
  show ?case unfolding list.map apply_writes_simps by (rule trans [OF Cons.IH [OF n, of "f(dev := (f dev)(k t := v t))"] e])
qed simp

lemma apply_map_same:
  "distinct (map k ts) \<Longrightarrow> i \<in> set ts \<Longrightarrow> apply_writes (map (\<lambda>i. (dev, k i, v i)) ts) f dev (k i) = v i"
proof (induction ts arbitrary: f)
  case (Cons t ts)
  show ?case
  proof (cases "i = t")
    case True
    then have "(dev, k i) \<notin> (\<lambda>i. (dev, k i)) ` set ts" using Cons.prems by auto
    then show ?thesis using apply_map_other [of dev "k i" dev k ts v] True by simp
  next
    case False
    then show ?thesis using Cons by simp
  qed
qed simp

definition log_data :: "nat \<Rightarrow> nat \<Rightarrow> nat \<Rightarrow> (nat \<Rightarrow> block) \<Rightarrow> (nat \<times> nat \<times> block) list" where
  "log_data dev start n N = map (\<lambda>i. (dev, start + i + 1, N i)) [0..<n]"

definition home_data :: "nat \<Rightarrow> nat \<Rightarrow> nat list \<Rightarrow> (nat \<Rightarrow> block) \<Rightarrow> (nat \<times> nat \<times> block) list" where
  "home_data dev start bl N = map (\<lambda>i. (dev, bl ! i, N i)) [0..<length bl] @ [(dev, start, head_of [])]"

lemma write_head_empty: "lh_n log = 0 \<Longrightarrow> put_blocks (take (lh_n log) (lh_block log)) 0 (put32 0 (lh_n log) (\<lambda>_. 0)) = head_of []"
  by (simp add: head_of_def)

lemma recover_ok:
  assumes q: "quiet log s" and ok: "\<forall>n. ok n" and c: "\<forall>b. refs s (l_dev log) b = 0"
    and h: "disk s (l_dev log) (l_start log) = head_of bl" "\<forall>n\<in>set bl. n < 2 ^ 32" "length bl \<le> VIMIXFS_MAX_LOG_BLOCKS"
      "length bl \<le> length (lh_block log)" "distinct bl" "\<forall>b\<in>set bl. b \<notin> {l_start log..l_start log + length bl}"
  shows "\<exists>log' s'. recover_from_log ok log s = Some (log', s') \<and> lh_n log' = 0 \<and>
    run_to s (home_data (l_dev log) (l_start log) bl (\<lambda>i. disk s (l_dev log) (l_start log + i + 1))) (refs s) s'"
proof -
  let ?d = "l_dev log" and ?n = "length bl"
  note Q = quietD [OF q]
  have V: "view s ?d b = disk s ?d b" for b using abs_free(1) [OF Q(1,2)] c by blast
  define log1 where "log1 = log\<lparr>lh_n := ?n, lh_block := bl @ drop ?n (lh_block log)\<rparr>"
  obtain s1 where s1: "read_head ok log s = Some (log1, s1)" "run_to s [] (refs s) s1"
    using read_head_ok [OF q ok _ _ h(2-4)] c V h(1) unfolding log1_def by auto
  note A = run_toD [OF s1(2)]
  have l1: "l_dev log1 = ?d" "l_start log1 = l_start log" "lh_n log1 = ?n" "\<And>i. i < ?n \<Longrightarrow> lh_block log1 ! i = bl ! i" "?n \<le> length (lh_block log1)"
    by (simp_all add: log1_def nth_append)
  have q1: "quiet log1 s1" using quiet_run [OF q s1(2)] by (simp add: quiet_def l1)
  have lb: "log_blocks log1 {..<?n}"
    unfolding log_blocks_def using h(6) l1 by (auto simp: log1_def nth_append Ball_def in_set_conv_nth)
  have m: "map (\<lambda>i. lh_block log1 ! i) [0..<?n] = bl" using l1(4) by (intro nth_equalityI) simp_all
  have fr: "\<forall>i\<in>{..<?n}. refs s1 (l_dev log1) (l_start log1 + i + 1) = 0" using A(7) [OF Q(2)] c by (simp add: l1)
  have sub: "set [0..<?n] \<subseteq> {..<?n}" by auto
  from install_loop_ok [OF ok q1 lb sub _ fr, of True]
  obtain s2 where s2: "install_loop ok log1 True [0..<?n] s1 = Some s2"
      "run_to s1 (map (\<lambda>i. (?d, lh_block log1 ! i, view s1 ?d (l_start log + i + 1))) [0..<?n]) (refs s1) s2"
    using m h(5) by (auto simp: l1)
  have "map (\<lambda>i. (?d, lh_block log1 ! i, view s1 ?d (l_start log + i + 1))) [0..<?n] =
      map (\<lambda>i. (?d, bl ! i, disk s ?d (l_start log + i + 1))) [0..<?n]"
    using A(5) [OF Q(2)] V l1(4) by simp
  note s2' = s2(2) [unfolded this]
  let ?log2 = "log1\<lparr>lh_n := 0\<rparr>"
  have "quiet ?log2 s2" using quiet_run [OF q1 s2(2)] by (simp add: quiet_def)
  note q2 = quietD [OF this]
  have "\<exists>s3. write_head ok ?log2 s2 = Some s3 \<and> run_to s2 [(l_dev ?log2, l_start ?log2, head_of [])] (refs s2) s3"
    using write_head_ok [OF q2(1-3) ok q2(4)] by (simp add: head_of_def)
  then obtain s3 where s3: "write_head ok ?log2 s2 = Some s3" "run_to s2 [(?d, l_start log, head_of [])] (refs s2) s3" by (auto simp: l1)
  have R: "refs s2 a b = refs s a b" if "a \<noteq> 0" for a b using run_toD(7) [OF s2' that] A(7) [OF that] by simp
  have "run_to s (home_data ?d (l_start log) bl (\<lambda>i. disk s ?d (l_start log + i + 1))) (refs s) s3"
    using run_to_refs [OF run_to_trans [OF run_to_trans [OF s1(2) s2'] s3(2)] R] by (simp add: home_data_def)
  then show ?thesis using s1(1) s2(1) s3(1) by (simp add: recover_from_log_def install_trans_def l1(3) Let_def)
qed

text \<open>What the commit needs: the changed blocks are pinned, are not in the log and fit into it.\<close>

definition transaction :: "log \<Rightarrow> bio \<Rightarrow> bool" where
  "transaction log s \<longleftrightarrow> quiet log s \<and> 0 < lh_n log \<and> lh_n log \<le> length (lh_block log) \<and> lh_n log \<le> VIMIXFS_MAX_LOG_BLOCKS \<and>
     distinct (take (lh_n log) (lh_block log)) \<and>
     (\<forall>b\<in>set (take (lh_n log) (lh_block log)). b < 2 ^ 32 \<and> b \<notin> {l_start log..l_start log + lh_n log} \<and> 0 < refs s (l_dev log) b) \<and>
     (\<forall>b\<in>{l_start log<..l_start log + lh_n log}. refs s (l_dev log) b = 0)"

lemma transactionD:
  assumes "transaction log s"
  shows "quiet log s" "0 < lh_n log" "lh_n log \<le> length (lh_block log)" "lh_n log \<le> VIMIXFS_MAX_LOG_BLOCKS"
    "distinct (take (lh_n log) (lh_block log))" "i < lh_n log \<Longrightarrow> lh_block log ! i < 2 ^ 32"
    "i < lh_n log \<Longrightarrow> lh_block log ! i \<notin> {l_start log..l_start log + lh_n log}" "i < lh_n log \<Longrightarrow> 0 < refs s (l_dev log) (lh_block log ! i)"
    "i < lh_n log \<Longrightarrow> refs s (l_dev log) (l_start log + i + 1) = 0"
proof -
  note c = assms [unfolded transaction_def]
  show "quiet log s" "0 < lh_n log" "lh_n log \<le> length (lh_block log)" "lh_n log \<le> VIMIXFS_MAX_LOG_BLOCKS"
    "distinct (take (lh_n log) (lh_block log))" using c by simp_all
  have m: "lh_block log ! i \<in> set (take (lh_n log) (lh_block log))" if "i < lh_n log" for i
    using that c by (auto simp: in_set_conv_nth intro!: exI [of _ i])
  show "i < lh_n log \<Longrightarrow> lh_block log ! i < 2 ^ 32" "i < lh_n log \<Longrightarrow> lh_block log ! i \<notin> {l_start log..l_start log + lh_n log}"
    "i < lh_n log \<Longrightarrow> 0 < refs s (l_dev log) (lh_block log ! i)" using c m by blast+
  show "i < lh_n log \<Longrightarrow> refs s (l_dev log) (l_start log + i + 1) = 0" using c by simp
qed

definition commit_writes :: "nat \<Rightarrow> nat \<Rightarrow> nat list \<Rightarrow> (nat \<Rightarrow> block) \<Rightarrow> (nat \<times> nat \<times> block) list" where
  "commit_writes dev start bl N = log_data dev start (length bl) N @ [(dev, start, head_of bl)] @ home_data dev start bl N"

lemma commit_ok:
  assumes t: "transaction log s" and ok: "\<forall>n. ok n"
  shows "\<exists>log' s'. commit ok log s = Some (log', s') \<and> lh_n log' = 0 \<and>
    run_to s (commit_writes (l_dev log) (l_start log) (take (lh_n log) (lh_block log)) (\<lambda>i. view s (l_dev log) (lh_block log ! i)))
      (\<lambda>d b. refs s d b - (if d = l_dev log \<and> b \<in> set (take (lh_n log) (lh_block log)) then 1 else 0)) s'"
proof -
  let ?d = "l_dev log" and ?n = "lh_n log" and ?bl = "take (lh_n log) (lh_block log)" and ?st = "l_start log"
  let ?N = "\<lambda>i. view s ?d (lh_block log ! i)"
  note T = transactionD [OF t]
  note Q = quietD [OF T(1)]
  have lb: "log_blocks log {..<?n}" unfolding log_blocks_def
  proof (intro ballI conjI)
    fix i j assume "i \<in> {..<?n}" "j \<in> {..<?n}"
    then show "lh_block log ! i \<noteq> ?st + j + 1" using T(7) [of i] by auto
  qed (use T(3) in auto)
  have sub: "set [0..<?n] \<subseteq> {..<?n}" by auto
  have pin: "\<forall>i\<in>{..<?n}. 0 < refs s ?d (lh_block log ! i)" using T(8) by simp
  obtain s1 where s1: "write_log ok log s = Some s1" "run_to s (log_data ?d ?st ?n ?N) (refs s) s1"
    using write_log_loop_ok [OF ok T(1) lb sub pin] unfolding write_log_def log_data_def by blast
  note q1 = quiet_run [OF T(1) s1(2)] and A = run_toD [OF s1(2)]
  obtain s2 where s2: "write_head ok log s1 = Some s2" "run_to s1 [(?d, ?st, head_of ?bl)] (refs s1) s2"
    using write_head_ok [OF quietD(1-3) [OF q1] ok quietD(4) [OF q1] T(3,4)] T(3) by (auto simp: head_of_def)
  note q2 = quiet_run [OF q1 s2(2)] and B = run_toD [OF s2(2)]
  have R: "refs s2 a b = refs s a b" if "a \<noteq> 0" for a b using B(7) [OF that] A(7) [OF that] by simp
  have V: "view s2 ?d (?st + i + 1) = ?N i" if "i < ?n" for i
  proof -
    have "view s2 ?d (?st + i + 1) = view s1 ?d (?st + i + 1)" using B(5) [OF Q(2)] by simp
    also have "\<dots> = ?N i" unfolding A(5) [OF Q(2)] log_data_def
      using apply_map_same [of "\<lambda>i. ?st + i + 1" "[0..<?n]" i ?d ?N] that by (simp add: distinct_map inj_on_def)
    finally show ?thesis .
  qed
  have m: "map (\<lambda>i. lh_block log ! i) [0..<?n] = ?bl" using T(3) by (intro nth_equalityI) simp_all
  have img: "(\<lambda>i. lh_block log ! i) ` set [0..<?n] = set ?bl" using arg_cong [OF m, of set] by (simp only: set_map)
  have fr: "\<forall>i\<in>{..<?n}. refs s2 ?d (?st + i + 1) = 0" using R [OF Q(2)] T(9) by simp
  have pin2: "\<forall>i\<in>set [0..<?n]. 0 < refs s2 ?d (lh_block log ! i)" using R [OF Q(2)] T(8) by simp
  have dm: "distinct (map (\<lambda>i. lh_block log ! i) [0..<?n])" unfolding m by (rule T(5))
  from install_loop_ok [OF ok q2 lb sub dm fr pin2, of False]
  obtain s3 where s3: "install_trans ok log False s2 = Some s3"
      "run_to s2 (map (\<lambda>i. (?d, lh_block log ! i, view s2 ?d (?st + i + 1))) [0..<?n])
         (\<lambda>d b. refs s2 d b - (if d = ?d \<and> b \<in> set ?bl then 1 else 0)) s3"
    unfolding install_trans_def img by auto
  have I: "map (\<lambda>i. (?d, lh_block log ! i, view s2 ?d (?st + i + 1))) [0..<?n] = map (\<lambda>i. (?d, ?bl ! i, ?N i)) [0..<length ?bl]"
    using V T(3) by simp
  let ?log1 = "log\<lparr>lh_n := 0\<rparr>"
  have "quiet ?log1 s3" using quiet_run [OF q2 s3(2)] by (simp add: quiet_def)
  note q3 = quietD [OF this]
  have "\<exists>s4. write_head ok ?log1 s3 = Some s4 \<and> run_to s3 [(l_dev ?log1, l_start ?log1, head_of [])] (refs s3) s4"
    using write_head_ok [OF q3(1-3) ok q3(4)] by (simp add: head_of_def)
  then obtain s4 where s4: "write_head ok ?log1 s3 = Some s4" "run_to s3 [(?d, ?st, head_of [])] (refs s3) s4" by auto
  note r = run_to_trans [OF run_to_trans [OF run_to_trans [OF s1(2) s2(2)] s3(2) [unfolded I]] s4(2)]
  have R4: "refs s3 a b = refs s a b - (if a = ?d \<and> b \<in> set ?bl then 1 else 0)" if "a \<noteq> 0" for a b
    using run_toD(7) [OF s3(2) that, of b] R [OF that, of b] by simp
  have "run_to s (commit_writes ?d ?st ?bl ?N) (\<lambda>d b. refs s d b - (if d = ?d \<and> b \<in> set ?bl then 1 else 0)) s4"
    using run_to_refs [OF r R4] T(3) by (simp add: commit_writes_def home_data_def min_absorb2)
  then show ?thesis using s1(1) s2(1) s3(1) s4(1) T(2) by (simp add: commit_def Let_def)
qed

section \<open>Crashes\<close>

type_synonym device = "nat \<Rightarrow> nat \<Rightarrow> block"

text \<open>
  The device after a crash: \<open>bl\<close> are the home blocks of the transaction, \<open>N\<close> their new contents and
  \<open>D0\<close> the device before. Nothing is committed, everything can be done again, or all is done.
\<close>

definition not_committed :: "nat \<Rightarrow> nat \<Rightarrow> nat list \<Rightarrow> device \<Rightarrow> device \<Rightarrow> bool" where
  "not_committed dev start bl D0 D \<longleftrightarrow> D dev start = head_of [] \<and> (\<forall>b. b \<notin> {start..start + length bl} \<longrightarrow> D dev b = D0 dev b)"

definition redo :: "nat \<Rightarrow> nat \<Rightarrow> nat list \<Rightarrow> (nat \<Rightarrow> block) \<Rightarrow> device \<Rightarrow> device \<Rightarrow> bool" where
  "redo dev start bl N D0 D \<longleftrightarrow> D dev start = head_of bl \<and> (\<forall>i<length bl. D dev (start + i + 1) = N i) \<and>
     (\<forall>b. b \<notin> {start..start + length bl} \<union> set bl \<longrightarrow> D dev b = D0 dev b)"

definition installed :: "nat \<Rightarrow> nat \<Rightarrow> nat list \<Rightarrow> (nat \<Rightarrow> block) \<Rightarrow> device \<Rightarrow> device \<Rightarrow> bool" where
  "installed dev start bl N D0 D \<longleftrightarrow> D dev start = head_of [] \<and> (\<forall>i<length bl. D dev (bl ! i) = N i) \<and>
     (\<forall>b. b \<notin> {start..start + length bl} \<union> set bl \<longrightarrow> D dev b = D0 dev b)"

definition crash_ok :: "nat \<Rightarrow> nat \<Rightarrow> nat list \<Rightarrow> (nat \<Rightarrow> block) \<Rightarrow> device \<Rightarrow> device \<Rightarrow> bool" where
  "crash_ok dev start bl N D0 D \<longleftrightarrow> not_committed dev start bl D0 D \<or> redo dev start bl N D0 D \<or> installed dev start bl N D0 D"

lemma prefix_keeps:
  assumes "\<And>d b v f. (d, b, v) \<in> set W \<Longrightarrow> P f \<Longrightarrow> P (f(d := (f d)(b := v)))" "P f"
  shows "P (apply_writes (take k W) f)"
  using assms
proof (induction W arbitrary: f k)
  case (Cons w W)
  obtain d b v where w: "w = (d, b, v)" by (cases w)
  show ?case
  proof (cases k)
    case (Suc j)
    have "(d, b, v) \<in> set (w # W)" by (simp add: w)
    then have "P (f(d := (f d)(b := v)))" using Cons.prems by blast
    then have "P (apply_writes (take j W) (f(d := (f d)(b := v))))"
      by (rule Cons.IH [rotated]) (rule Cons.prems(1), simp_all)
    then show ?thesis by (simp add: Suc w)
  qed (simp add: Cons.prems)
qed simp

lemma take_append_cases:
  assumes "k \<le> length xs \<Longrightarrow> P (take k xs)" "length xs \<le> k \<Longrightarrow> P (xs @ take (k - length xs) ys)"
  shows "P (take k (xs @ ys))"
  using assms by (cases "k \<le> length xs") auto

lemma prefix_keeps_all: "(\<And>d b v f. (d, b, v) \<in> set W \<Longrightarrow> P f \<Longrightarrow> P (f(d := (f d)(b := v)))) \<Longrightarrow> P f \<Longrightarrow> P (apply_writes W f)"
  using prefix_keeps [of W P f "length W"] by simp

lemma install_prefix:
  assumes bl: "distinct bl" "\<forall>b\<in>set bl. b \<notin> {start..start + length bl}" and r: "redo dev start bl N D0 D"
  shows "crash_ok dev start bl N D0 (apply_writes (take k (home_data dev start bl N)) D)"
    "installed dev start bl N D0 (apply_writes (home_data dev start bl N) D)"
proof -
  let ?I = "map (\<lambda>i. (dev, bl ! i, N i)) [0..<length bl]"
  have step: "redo dev start bl N D0 (f(d := (f d)(b := v)))" if "(d, b, v) \<in> set ?I" "redo dev start bl N D0 f" for d b v f
  proof -
    have b: "d = dev" "b \<in> set bl" using that(1) by auto
    then have "b \<notin> {start..start + length bl}" using bl(2) by blast
    then have "b \<noteq> start" "\<forall>i<length bl. start + i + 1 \<noteq> b" by auto
    then show ?thesis using that(2) b unfolding redo_def by auto
  qed
  have m: "map (\<lambda>i. bl ! i) [0..<length bl] = bl" by (rule map_nth)
  have inst: "apply_writes ?I D dev (bl ! i) = N i" if "i < length bl" for i
    using apply_map_same [of "\<lambda>i. bl ! i" "[0..<length bl]" i dev N D] that bl(1) unfolding m by simp
  have keep: "redo dev start bl N D0 (apply_writes ?I D)" by (rule prefix_keeps_all [where P = "redo dev start bl N D0", OF step r])
  show fin: "installed dev start bl N D0 (apply_writes (home_data dev start bl N) D)"
    unfolding installed_def home_data_def apply_writes_simps
  proof (intro conjI allI impI)
    fix i assume i: "i < length bl"
    then have "bl ! i \<noteq> start" using bl(2) nth_mem [OF i] by auto
    then show "((apply_writes ?I D)(dev := (apply_writes ?I D dev)(start := head_of []))) dev (bl ! i) = N i" using inst [OF i] by simp
  next
    fix b assume "b \<notin> {start..start + length bl} \<union> set bl"
    then show "((apply_writes ?I D)(dev := (apply_writes ?I D dev)(start := head_of []))) dev b = D0 dev b"
      using keep unfolding redo_def by auto
  qed simp
  show "crash_ok dev start bl N D0 (apply_writes (take k (home_data dev start bl N)) D)"
    unfolding home_data_def
  proof (rule take_append_cases [where P = "\<lambda>W. crash_ok dev start bl N D0 (apply_writes W D)"])
    show "crash_ok dev start bl N D0 (apply_writes (take k ?I) D)"
      using prefix_keeps [where P = "redo dev start bl N D0", OF step r] unfolding crash_ok_def by blast
    show "crash_ok dev start bl N D0 (apply_writes (?I @ take (k - length ?I) [(dev, start, head_of [])]) D)"
    proof (cases "k - length ?I")
      case 0
      then show ?thesis using keep by (simp add: crash_ok_def)
    next
      case (Suc j)
      then show ?thesis using fin by (simp add: crash_ok_def home_data_def)
    qed
  qed
qed

lemma commit_prefix:
  assumes bl: "distinct bl" "\<forall>b\<in>set bl. b \<notin> {start..start + length bl}" and D0: "D0 dev start = head_of []"
  shows "crash_ok dev start bl N D0 (apply_writes (take k (commit_writes dev start bl N)) D0)"
    "installed dev start bl N D0 (apply_writes (commit_writes dev start bl N) D0)"
proof -
  let ?n = "length bl"
  let ?L = "log_data dev start ?n N" and ?H = "[(dev, start, head_of bl)]"
  have step: "not_committed dev start bl D0 (f(d := (f d)(b := v)))" if "(d, b, v) \<in> set ?L" "not_committed dev start bl D0 f" for d b v f
    using that unfolding not_committed_def log_data_def by auto
  have nc: "not_committed dev start bl D0 D0" using D0 by (simp add: not_committed_def)
  have a: "not_committed dev start bl D0 (apply_writes (take k ?L) D0)" for k by (rule prefix_keeps [OF step nc])
  have data: "apply_writes ?L D0 dev (start + i + 1) = N i" if "i < ?n" for i
    using apply_map_same [of "\<lambda>i. start + i + 1" "[0..<?n]" i dev N D0] that by (simp add: log_data_def distinct_map inj_on_def)
  have "not_committed dev start bl D0 (apply_writes ?L D0)" using a [of "length ?L"] by simp
  then have r: "redo dev start bl N D0 (apply_writes (?L @ ?H) D0)"
    using data by (auto simp: redo_def not_committed_def)
  show "installed dev start bl N D0 (apply_writes (commit_writes dev start bl N) D0)"
    using install_prefix(2) [OF bl r] by (simp add: commit_writes_def)
  show "crash_ok dev start bl N D0 (apply_writes (take k (commit_writes dev start bl N)) D0)"
    unfolding commit_writes_def
  proof (rule take_append_cases [where P = "\<lambda>W. crash_ok dev start bl N D0 (apply_writes W D0)"])
    show "crash_ok dev start bl N D0 (apply_writes (take k ?L) D0)" using a by (simp add: crash_ok_def)
    show "crash_ok dev start bl N D0 (apply_writes (?L @ take (k - length ?L) (?H @ home_data dev start bl N)) D0)"
    proof (cases "k - length ?L")
      case 0
      then show ?thesis using a [of "length ?L"] by (simp add: crash_ok_def)
    next
      case (Suc j)
      then show ?thesis using install_prefix(1) [OF bl r, of j] by simp
    qed
  qed
qed

text \<open>Recovery from a device after a crash: the header says what is done again.\<close>

lemma recover_prefix:
  assumes bl: "distinct bl" "\<forall>b\<in>set bl. b \<notin> {start..start + length bl}" and c: "crash_ok dev start bl N D0 D"
  obtains bl' where "D dev start = head_of bl'" "bl' = [] \<or> bl' = bl"
    "\<And>k. crash_ok dev start bl N D0 (apply_writes (take k (home_data dev start bl' (\<lambda>i. D dev (start + i + 1)))) D)"
    "not_committed dev start bl D0 (apply_writes (home_data dev start bl' (\<lambda>i. D dev (start + i + 1))) D) \<or>
     installed dev start bl N D0 (apply_writes (home_data dev start bl' (\<lambda>i. D dev (start + i + 1))) D)"
proof (cases "redo dev start bl N D0 D")
  case True
  then have h: "D dev start = head_of bl" "home_data dev start bl (\<lambda>i. D dev (start + i + 1)) = home_data dev start bl N"
    by (simp_all add: home_data_def redo_def)
  show ?thesis using that [OF h(1)] install_prefix [OF bl True] unfolding h(2) by simp
next
  case False
  then have s: "not_committed dev start bl D0 D \<or> installed dev start bl N D0 D" using c by (simp add: crash_ok_def)
  then have e: "D dev start = head_of []" by (auto simp: not_committed_def installed_def)
  let ?W = "home_data dev start [] (\<lambda>i. D dev (start + i + 1))"
  have same: "D(dev := (D dev)(start := head_of [])) = D" using e by (simp add: fun_eq_iff)
  have W: "?W = [(dev, start, head_of [])]" by (simp add: home_data_def)
  have t: "apply_writes (take k ?W) D = D" for k unfolding W using same by (cases k) simp_all
  have "apply_writes ?W D = D" unfolding W using same by simp
  then show ?thesis using that [OF e] s t c by simp
qed

text \<open>
  The devices after a crash: in the middle of the commit, or in the middle of a recovery after a
  crash. The system starts with an empty cache; \<open>mem\<close> is the memory of the new log.
\<close>

inductive crashed :: "(nat \<Rightarrow> bool) \<Rightarrow> log \<Rightarrow> vimixfs_superblock \<Rightarrow> bio \<Rightarrow> device \<Rightarrow> bool"
  for ok :: "nat \<Rightarrow> bool" and log :: log and sb :: vimixfs_superblock and s :: bio where
  in_commit: "commit ok log s = Some (log', s') \<Longrightarrow> writes s' = writes s @ W \<Longrightarrow> crashed ok log sb s (apply_writes (take k W) (disk s))"
| in_recovery: "crashed ok log sb s (disk s0) \<Longrightarrow> l_dev log \<in> block_devs s0 \<Longrightarrow> bio_init ok s0 = Some s1 \<Longrightarrow>
    log_init ok True mem (l_dev log) sb s1 = Some (0, log2, s2) \<Longrightarrow> writes s2 = writes s1 @ W \<Longrightarrow>
    crashed ok log sb s (apply_writes (take k W) (disk s0))"

lemma boot_recovers:
  assumes t: "transaction log s" and ok: "\<forall>n. ok n" and sb: "logstart sb = l_start log" "nlog sb = length (lh_block log)"
    and c: "crash_ok (l_dev log) (l_start log) (take (lh_n log) (lh_block log)) N D0 (disk s0)"
    and b: "l_dev log \<in> block_devs s0" "bio_init ok s0 = Some s1"
  obtains log2 s2 W where "log_init ok True mem (l_dev log) sb s1 = Some (0, log2, s2)" "lh_n log2 = 0" "writes s2 = writes s1 @ W"
    "\<And>k. crash_ok (l_dev log) (l_start log) (take (lh_n log) (lh_block log)) N D0 (apply_writes (take k W) (disk s0))"
    "not_committed (l_dev log) (l_start log) (take (lh_n log) (lh_block log)) D0 (disk s2) \<or>
     installed (l_dev log) (l_start log) (take (lh_n log) (lh_block log)) N D0 (disk s2)"
proof -
  let ?d = "l_dev log" and ?st = "l_start log" and ?bl = "take (lh_n log) (lh_block log)"
  note T = transactionD [OF t]
  have len: "length ?bl = lh_n log" using T(3) by simp
  have bl: "distinct ?bl" "\<forall>b\<in>set ?bl. b \<notin> {?st..?st + length ?bl}" "\<forall>b\<in>set ?bl. b < 2 ^ 32"
    using t len unfolding transaction_def by auto
  obtain t1 where t1: "bio_init ok s0 = Some t1" "bio_inv t1" "disk t1 = disk s0" "block_devs t1 = block_devs s0"
      "\<forall>d b. d \<noteq> 0 \<longrightarrow> view t1 d b = disk s0 d b \<and> refs t1 d b = 0 \<and> \<not> held t1 d b"
    using bio_init_ok [OF ok] by blast
  have st: "t1 = s1" using t1(1) b(2) by simp
  define l1 where "l1 = mem\<lparr>l_start := logstart sb, l_size := nlog sb, l_dev := ?d, committing := False, blocks_used_old_clients := 0, lh_n := 0,
    lh_block := replicate (nlog sb) 0, clients := replicate MAX_CONCURRENT_LOG_CLIENTS 0,
    blocks_used := replicate MAX_CONCURRENT_LOG_CLIENTS 0, blocks_reserved := replicate MAX_CONCURRENT_LOG_CLIENTS 0\<rparr>"
  have l: "l_dev l1 = ?d" "l_start l1 = ?st" "length (lh_block l1) = length (lh_block log)" using sb by (simp_all add: l1_def)
  have q: "quiet l1 s1" using t1 b(1) quietD(2) [OF T(1)] unfolding quiet_def st l by simp
  have c1: "\<forall>b. refs s1 (l_dev l1) b = 0" using t1(5) quietD(2) [OF T(1)] unfolding st l by simp
  obtain bl' where h: "disk s0 ?d ?st = head_of bl'" "bl' = [] \<or> bl' = ?bl"
      "\<And>k. crash_ok ?d ?st ?bl N D0 (apply_writes (take k (home_data ?d ?st bl' (\<lambda>i. disk s0 ?d (?st + i + 1)))) (disk s0))"
      "not_committed ?d ?st ?bl D0 (apply_writes (home_data ?d ?st bl' (\<lambda>i. disk s0 ?d (?st + i + 1))) (disk s0)) \<or>
       installed ?d ?st ?bl N D0 (apply_writes (home_data ?d ?st bl' (\<lambda>i. disk s0 ?d (?st + i + 1))) (disk s0))"
    using recover_prefix [OF bl(1,2) c] by blast
  have "length bl' \<le> lh_n log" using h(2) len by auto
  then have f: "length bl' \<le> VIMIXFS_MAX_LOG_BLOCKS" "length bl' \<le> length (lh_block l1)" using T(3,4) l(3) by simp_all
  have g: "\<forall>n\<in>set bl'. n < 2 ^ 32" "distinct bl'" "\<forall>b\<in>set bl'. b \<notin> {l_start l1..l_start l1 + length bl'}"
    using h(2) bl l(2) by auto
  have "disk s1 (l_dev l1) (l_start l1) = head_of bl'" using h(1) t1(3) by (simp add: st l)
  from recover_ok [OF q ok c1 this g(1) f g(2,3)]
  obtain log2 s2 where r: "recover_from_log ok l1 s1 = Some (log2, s2)" "lh_n log2 = 0"
      "run_to s1 (home_data ?d ?st bl' (\<lambda>i. disk s1 ?d (?st + i + 1))) (refs s1) s2"
    unfolding l by blast
  note R = run_toD [OF r(3)]
  have d1: "disk s1 = disk s0" using t1(3) st by simp
  have "log_init ok True mem ?d sb s1 = Some (0, log2, s2)" using r(1) by (simp add: log_init_def l1_def Let_def)
  from that [OF this r(2) R(3)] h(3,4) R(4) show ?thesis unfolding d1 by simp
qed

lemma head_of_empty: "head_of [] = (\<lambda>_. 0)"
  by (simp add: head_of_def put32_def fun_eq_iff)

lemma take_facts:
  assumes "transaction log s"
  shows "length (take (lh_n log) (lh_block log)) = lh_n log" "distinct (take (lh_n log) (lh_block log))"
    "\<forall>b\<in>set (take (lh_n log) (lh_block log)). b \<notin> {l_start log..l_start log + length (take (lh_n log) (lh_block log))}"
  using assms by (auto simp: transaction_def)

lemma crashed_ok:
  assumes t: "transaction log s" and ok: "\<forall>n. ok n" and sb: "logstart sb = l_start log" "nlog sb = length (lh_block log)"
    and e: "disk s (l_dev log) (l_start log) = (\<lambda>_. 0)" and c: "crashed ok log sb s D"
  shows "crash_ok (l_dev log) (l_start log) (take (lh_n log) (lh_block log)) (\<lambda>i. view s (l_dev log) (lh_block log ! i)) (disk s) D"
  using c
proof (induction rule: crashed.induct)
  case (in_commit log' s' W k)
  obtain l2 s2 where r: "commit ok log s = Some (l2, s2)"
      "run_to s (commit_writes (l_dev log) (l_start log) (take (lh_n log) (lh_block log)) (\<lambda>i. view s (l_dev log) (lh_block log ! i)))
        (\<lambda>d b. refs s d b - (if d = l_dev log \<and> b \<in> set (take (lh_n log) (lh_block log)) then 1 else 0)) s2"
    using commit_ok [OF t ok] by blast
  have "W = commit_writes (l_dev log) (l_start log) (take (lh_n log) (lh_block log)) (\<lambda>i. view s (l_dev log) (lh_block log ! i))"
    using run_toD(3) [OF r(2)] r(1) in_commit by simp
  then show ?case using commit_prefix(1) [OF take_facts(2,3) [OF t], of "disk s" "l_dev log"] e unfolding head_of_empty by simp
next
  case (in_recovery s0 s1 mem log2 s2 W k)
  from in_recovery.IH in_recovery(2-5) show ?case
    by (elim boot_recovers [OF t ok sb, of _ _ s0 s1 mem]) simp_all
qed

lemma home_nth:
  assumes "transaction log s" "b \<in> set (take (lh_n log) (lh_block log))"
  obtains i where "i < lh_n log" "b = lh_block log ! i"
  using assms transactionD(3) [OF assms(1)] by (auto simp: in_set_conv_nth)

lemma installed_contents:
  assumes t: "transaction log s"
    and i: "installed (l_dev log) (l_start log) (take (lh_n log) (lh_block log)) (\<lambda>i. view s (l_dev log) (lh_block log ! i)) (disk s) D"
    and b: "b \<notin> {l_start log..l_start log + lh_n log}"
  shows "D (l_dev log) b = (if b \<in> set (take (lh_n log) (lh_block log)) then view s (l_dev log) b else disk s (l_dev log) b)"
proof (cases "b \<in> set (take (lh_n log) (lh_block log))")
  case True
  then obtain j where "j < lh_n log" "b = lh_block log ! j" using home_nth [OF t] by blast
  then show ?thesis using i True take_facts(1) [OF t] by (auto simp: installed_def)
next
  case False
  then show ?thesis using i b take_facts(1) [OF t] by (simp add: installed_def)
qed

section \<open>Reservations\<close>

definition log_inv :: "log \<Rightarrow> bool" where
  "log_inv l \<longleftrightarrow> length (clients l) = MAX_CONCURRENT_LOG_CLIENTS \<and> length (blocks_used l) = MAX_CONCURRENT_LOG_CLIENTS \<and>
     length (blocks_reserved l) = MAX_CONCURRENT_LOG_CLIENTS \<and> length (lh_block l) = l_size l \<and> l_size l < 2 ^ 31 \<and> (committing l \<longrightarrow> outstanding l = 0) \<and>
     int (lh_n l) = blocks_used_old_clients l + sum_list (blocks_used l) \<and> 0 \<le> blocks_used_old_clients l \<and>
     (\<forall>i<MAX_CONCURRENT_LOG_CLIENTS. 0 \<le> blocks_used l ! i \<and> blocks_used l ! i \<le> blocks_reserved l ! i \<and>
        (clients l ! i = 0 \<longrightarrow> blocks_reserved l ! i = 0)) \<and>
     blocks_used_old_clients l + sum_list (blocks_reserved l) \<le> int (l_size l) \<and>
     outstanding l = int (length (filter (\<lambda>c. c \<noteq> 0) (clients l))) \<and>
     (outstanding l = 0 \<and> \<not> committing l \<longrightarrow> blocks_used_old_clients l = 0)"

lemma log_invD:
  assumes "log_inv l"
  shows "length (clients l) = MAX_CONCURRENT_LOG_CLIENTS" "length (blocks_used l) = MAX_CONCURRENT_LOG_CLIENTS"
    "length (blocks_reserved l) = MAX_CONCURRENT_LOG_CLIENTS" "length (lh_block l) = l_size l" "l_size l < 2 ^ 31" "committing l \<Longrightarrow> outstanding l = 0"
    "int (lh_n l) = blocks_used_old_clients l + sum_list (blocks_used l)" "0 \<le> blocks_used_old_clients l"
    "i < MAX_CONCURRENT_LOG_CLIENTS \<Longrightarrow> 0 \<le> blocks_used l ! i" "i < MAX_CONCURRENT_LOG_CLIENTS \<Longrightarrow> blocks_used l ! i \<le> blocks_reserved l ! i"
    "i < MAX_CONCURRENT_LOG_CLIENTS \<Longrightarrow> clients l ! i = 0 \<Longrightarrow> blocks_reserved l ! i = 0"
    "blocks_used_old_clients l + sum_list (blocks_reserved l) \<le> int (l_size l)"
    "outstanding l = int (length (filter (\<lambda>c. c \<noteq> 0) (clients l)))" 
    "outstanding l = 0 \<Longrightarrow> \<not> committing l \<Longrightarrow> blocks_used_old_clients l = 0"
  using assms unfolding log_inv_def by blast+

lemma log_inv_waiters [simp]: "log_inv (l\<lparr>waiters := X\<rparr>) = log_inv l"
  by (simp add: log_inv_def)

lemma idle_sums:
  assumes "log_inv l" "outstanding l = 0"
  shows "sum_list (blocks_used l) = 0" "sum_list (blocks_reserved l) = 0"
    "i < MAX_CONCURRENT_LOG_CLIENTS \<Longrightarrow> clients l ! i = 0"
proof -
  note I = log_invD [OF assms(1)]
  have z: "clients l ! i = 0" if "i < MAX_CONCURRENT_LOG_CLIENTS" for i
    using I(13) assms(2) that I(1) by (auto simp: filter_empty_conv)
  then show "i < MAX_CONCURRENT_LOG_CLIENTS \<Longrightarrow> clients l ! i = 0" .
  have "blocks_reserved l = replicate MAX_CONCURRENT_LOG_CLIENTS 0" by (rule nth_equalityI) (use I(3,11) z in auto)
  moreover have "blocks_used l = replicate MAX_CONCURRENT_LOG_CLIENTS 0"
    by (rule nth_equalityI) (use I(2,9,10,11) z in \<open>auto intro: antisym\<close>)
  ultimately show "sum_list (blocks_used l) = 0" "sum_list (blocks_reserved l) = 0" by (simp_all add: sum_list_replicate)
qed

lemma client_found:
  assumes "log_client_from_pid l pid = Some i"
  shows "i < MAX_CONCURRENT_LOG_CLIENTS" "clients l ! i = pid"
  using assms by (auto simp: log_client_from_pid_def find_Some_iff)

lemma client_not_found: "log_client_from_pid l pid = None \<Longrightarrow> i < MAX_CONCURRENT_LOG_CLIENTS \<Longrightarrow> clients l ! i \<noteq> pid"
  by (auto simp: log_client_from_pid_def find_None_iff)

lemma sum_list_upd: "i < length xs \<Longrightarrow> sum_list (xs[i := v]) = sum_list xs - xs ! i + (v :: int)"
  by (induction xs arbitrary: i) (auto split: nat.split)

lemma count_list_upd:
  "i < length xs \<Longrightarrow> int (length (filter P (xs[i := v]))) = int (length (filter P xs)) - (if P (xs ! i) then 1 else 0) + (if P v then 1 else 0)"
proof (induction xs arbitrary: i)
  case (Cons x xs)
  show ?case
  proof (cases i)
    case (Suc j)
    then show ?thesis using Cons.IH [of j] Cons.prems by (simp split: if_splits)
  qed simp
qed simp

lemma sum_list_le: "length xs = length ys \<Longrightarrow> (\<forall>i<length xs. xs ! i \<le> ys ! i) \<Longrightarrow> sum_list xs \<le> (sum_list ys :: int)"
  by (induction xs ys rule: list_induct2) (auto simp: All_less_Suc2)

lemma sum_list_nonneg_nth: "(\<forall>i<length xs. 0 \<le> xs ! i) \<Longrightarrow> 0 \<le> sum_list (xs :: int list)"
  by (rule sum_list_nonneg) (auto simp: in_set_conv_nth)

lemma log_n_le: "log_inv l \<Longrightarrow> lh_n l \<le> l_size l"
proof -
  assume i: "log_inv l"
  note I = log_invD [OF i]
  have "sum_list (blocks_used l) \<le> sum_list (blocks_reserved l)" by (rule sum_list_le) (use I(2,3,10) in simp_all)
  then show ?thesis using I(7,12) by linarith
qed

lemma log_begin_inv:
  assumes i: "log_inv l" and b: "log_begin_fs_transaction_explicit pid depth mn ideal l = Some (Some c, l')" and p: "pid \<noteq> 0"
  shows "log_inv l'" "l_size l' = l_size l" "outstanding l' = outstanding l + 1" "c < MAX_CONCURRENT_LOG_CLIENTS"
    "blocks_reserved l' ! c = min (int (l_size l) - blocks_used_old_clients l - sum_list (blocks_reserved l)) (int ideal)"
    "clients l' = (clients l)[c := pid]" "blocks_used l' ! c = 0" "lh_n l' = lh_n l" "\<not> committing l'"
    "blocks_used_old_clients l' = blocks_used_old_clients l" "sum_list (blocks_reserved l') = sum_list (blocks_reserved l) + blocks_reserved l' ! c"
proof -
  note I = log_invD [OF i]
  define av where "av = nat ((int (l_size l) - (blocks_used_old_clients l + sum_list (blocks_reserved l))) mod 2 ^ 64)"
  have r0: "0 \<le> sum_list (blocks_reserved l)"
    by (rule sum_list_nonneg_nth) (use I(3,9,10) in \<open>auto intro: order_trans\<close>)
  have av: "int av = int (l_size l) - blocks_used_old_clients l - sum_list (blocks_reserved l)"
    using I(5,8,12) r0 by (simp add: av_def)
  define v where "v = sint (of_nat (min av ideal) :: 32 word)"
  have f: "log_client_from_pid l 0 = Some c" "\<not> committing l"
      "l' = l\<lparr>clients := (clients l)[c := pid], blocks_reserved := (blocks_reserved l)[c := v],
              blocks_used := (blocks_used l)[c := 0], outstanding := outstanding l + 1\<rparr>"
    using b unfolding log_begin_fs_transaction_explicit_def Let_def av_def [symmetric] v_def
    by (auto split: if_splits option.splits)
  note C = client_found [OF f(1)]
  have "min av ideal < 2 ^ 31" using av I(5,8) r0 by simp
  then have v: "v = int (min av ideal)"
    unfolding v_def by (simp add: signed_take_bit_int_eq_self sint_uint uint_nat unat_of_nat)
  have z: "blocks_reserved l ! c = 0" "blocks_used l ! c = 0" using I(9,10,11) [OF C(1)] C(2) by simp_all
  have e: "clients l' = (clients l)[c := pid]" "blocks_reserved l' = (blocks_reserved l)[c := v]" "blocks_used l' = (blocks_used l)[c := 0]"
      "outstanding l' = outstanding l + 1" "lh_block l' = lh_block l" "l_size l' = l_size l" "lh_n l' = lh_n l" "committing l' = committing l"
      "blocks_used_old_clients l' = blocks_used_old_clients l" by (simp_all add: f(3))
  have cnt: "outstanding l' = int (length (filter (\<lambda>c. c \<noteq> 0) (clients l')))"
    unfolding e using count_list_upd [of c "clients l" "\<lambda>c. c \<noteq> 0" pid] C I(1,13) p by simp
  have sums: "sum_list (blocks_reserved l') = sum_list (blocks_reserved l) + v" "sum_list (blocks_used l') = sum_list (blocks_used l)"
    unfolding e using sum_list_upd [of c "blocks_reserved l" v] sum_list_upd [of c "blocks_used l" 0] C(1) I(2,3) z by simp_all
  have each: "0 \<le> blocks_used l' ! i \<and> blocks_used l' ! i \<le> blocks_reserved l' ! i \<and> (clients l' ! i = 0 \<longrightarrow> blocks_reserved l' ! i = 0)"
    if "i < MAX_CONCURRENT_LOG_CLIENTS" for i
    unfolding e using I(9-11) [OF that] that C(1) I(1-3) v p by (cases "i = c") simp_all
  have "blocks_used_old_clients l' + sum_list (blocks_reserved l') \<le> int (l_size l')" using sums(1) v av e by simp
  moreover have "outstanding l' \<noteq> 0" unfolding e I(13) by simp
  ultimately show "log_inv l'" unfolding log_inv_def using I(1-5,7,8) f(2) each cnt sums(2) by (simp add: e)
  show "l_size l' = l_size l" "outstanding l' = outstanding l + 1" "c < MAX_CONCURRENT_LOG_CLIENTS" using e C by simp_all
  show "blocks_reserved l' ! c = min (int (l_size l) - blocks_used_old_clients l - sum_list (blocks_reserved l)) (int ideal)"
    unfolding e using C(1) I(3) v av by simp
  show "clients l' = (clients l)[c := pid]" "blocks_used l' ! c = 0" "lh_n l' = lh_n l" using e C(1) I(2) by simp_all
  show "\<not> committing l'" "blocks_used_old_clients l' = blocks_used_old_clients l"
    "sum_list (blocks_reserved l') = sum_list (blocks_reserved l) + blocks_reserved l' ! c" using e C(1) I(3) f(2) sums(1) by simp_all
qed

text \<open>A process goes to sleep only while a commit runs or another process is in a transaction.\<close>

lemma log_begin_sleeps:
  "log_begin_fs_transaction_explicit pid depth mn ideal l = Some (None, l') \<Longrightarrow> l' = l\<lparr>waiters := insert pid (waiters l)\<rparr>"
  by (auto simp: log_begin_fs_transaction_explicit_def log_sleep_def Let_def split: if_splits option.splits)

lemma log_write_inv:
  assumes i: "log_inv l" and w: "log_write pid p l s = Some (l', s')" and c: "log_client_from_pid l pid = Some c"
    and r: "blocks_used l ! c < blocks_reserved l ! c"
  shows "log_inv l'"
proof (cases "b_blockno (bufs s p) \<in> set (take (lh_n l) (lh_block l))")
  case True
  then show ?thesis using w i by (auto simp: log_write_def split: if_splits)
next
  case False
  note I = log_invD [OF i] and C = client_found [OF c]
  have e: "l' = l\<lparr>lh_block := (lh_block l)[lh_n l := b_blockno (bufs s p)], lh_n := lh_n l + 1,
      blocks_used := (blocks_used l)[c := blocks_used l ! c + 1]\<rparr>"
    using w c False by (auto simp: log_write_def split: if_splits)
  have each: "0 \<le> (blocks_used l)[c := blocks_used l ! c + 1] ! i \<and> (blocks_used l)[c := blocks_used l ! c + 1] ! i \<le> blocks_reserved l ! i"
    if "i < MAX_CONCURRENT_LOG_CLIENTS" for i
    using I(9,10) [OF that] r that C(1) I(2) by (cases "i = c") simp_all
  show ?thesis unfolding log_inv_def
    using I each sum_list_upd [of c "blocks_used l" "blocks_used l ! c + 1"] C(1) by (simp add: e)
qed

lemma log_write_accepts:
  assumes i: "log_inv l" and c: "log_client_from_pid l pid = Some c" and r: "blocks_used l ! c < blocks_reserved l ! c" and p: "pid \<noteq> 0"
  shows "\<exists>l' s'. log_write pid p l s = Some (l', s') \<and> lh_n l' \<le> l_size l \<and> b_blockno (bufs s p) \<in> set (take (lh_n l') (lh_block l'))"
proof -
  note I = log_invD [OF i] and C = client_found [OF c]
  have "sum_list (blocks_used l) < sum_list (blocks_reserved l)"
  proof -
    have "sum_list ((blocks_used l)[c := blocks_used l ! c + 1]) \<le> sum_list (blocks_reserved l)"
      by (rule sum_list_le) (use I(2,3,10) r C(1) in \<open>auto simp: nth_list_update\<close>)
    then show ?thesis using sum_list_upd [of c "blocks_used l" "blocks_used l ! c + 1"] C(1) I(2) by simp
  qed
  then have n: "lh_n l < l_size l" using I(7,12) by linarith
  have "pid \<in> set (clients l)" using C I(1) nth_mem by metis
  then have "0 < length (filter (\<lambda>c. c \<noteq> 0) (clients l))" using p by (auto simp: filter_empty_conv)
  then have o: "1 \<le> outstanding l" unfolding I(13) by linarith
  show ?thesis
  proof (cases "b_blockno (bufs s p) \<in> set (take (lh_n l) (lh_block l))")
    case True
    then show ?thesis using n o by (simp add: log_write_def)
  next
    case False
    have "take (lh_n l + 1) ((lh_block l)[lh_n l := b_blockno (bufs s p)]) = take (lh_n l) (lh_block l) @ [b_blockno (bufs s p)]"
      using n I(4) by (simp add: take_Suc_conv_app_nth)
    then show ?thesis using n o c I(4) False by (simp add: log_write_def)
  qed
qed

lemma commit_log:
  "commit ok l s = Some (l', s') \<Longrightarrow> l' = (if 0 < lh_n l then l\<lparr>lh_n := 0, blocks_used_old_clients := 0\<rparr> else l)"
  by (auto simp: commit_def Let_def split: if_splits bind_splits)

lemma log_release_inv:
  assumes i: "log_inv l" and w: "log_end_release pid l = Some (do_commit, l')" and p: "pid \<noteq> 0"
  shows "log_inv l'" "outstanding l' = outstanding l - 1" "l_size l' = l_size l" "committing l' = do_commit"
    "waiters l' = (if do_commit then waiters l else {})"
proof -
  note I = log_invD [OF i]
  obtain c where c: "log_client_from_pid l pid = Some c" using w by (auto simp: log_end_release_def split: option.splits)
  note C = client_found [OF c]
  have nc: "\<not> committing l" using I(6) idle_sums(3) [OF i _ C(1)] C(2) p by auto
  define l1 where "l1 = l\<lparr>outstanding := outstanding l - 1, clients := (clients l)[c := 0],
      blocks_used_old_clients := blocks_used_old_clients l + blocks_used l ! c, blocks_used := (blocks_used l)[c := 0],
      blocks_reserved := (blocks_reserved l)[c := 0]\<rparr>"
  have sums: "sum_list (blocks_used l1) = sum_list (blocks_used l) - blocks_used l ! c"
      "sum_list (blocks_reserved l1) = sum_list (blocks_reserved l) - blocks_reserved l ! c"
    using sum_list_upd [of c "blocks_used l" 0] sum_list_upd [of c "blocks_reserved l" 0] C(1) I(2,3) by (simp_all add: l1_def)
  have cnt: "outstanding l1 = int (length (filter (\<lambda>c. c \<noteq> 0) (clients l1)))"
    using count_list_upd [of c "clients l" "\<lambda>c. c \<noteq> 0" 0] C I(1,13) p by (simp add: l1_def)
  have each: "0 \<le> blocks_used l1 ! i \<and> blocks_used l1 ! i \<le> blocks_reserved l1 ! i \<and> (clients l1 ! i = 0 \<longrightarrow> blocks_reserved l1 ! i = 0)"
    if "i < MAX_CONCURRENT_LOG_CLIENTS" for i
    using I(9-11) [OF that] that C(1) I(1-3) by (cases "i = c") (simp_all add: l1_def)
  have n1: "int (lh_n l1) = blocks_used_old_clients l1 + sum_list (blocks_used l1)" unfolding sums using I(7) by (simp add: l1_def)
  have o1: "0 \<le> blocks_used_old_clients l1" using I(8) I(9) [OF C(1)] by (simp add: l1_def)
  have s1: "blocks_used_old_clients l1 + sum_list (blocks_reserved l1) \<le> int (l_size l1)"
    unfolding sums using I(12) I(10) [OF C(1)] by (simp add: l1_def)
  have f: "length (clients l1) = MAX_CONCURRENT_LOG_CLIENTS" "length (blocks_used l1) = MAX_CONCURRENT_LOG_CLIENTS"
      "length (blocks_reserved l1) = MAX_CONCURRENT_LOG_CLIENTS" "length (lh_block l1) = l_size l1" "l_size l1 < 2 ^ 31" "\<not> committing l1"
      "waiters l1 = waiters l"
    using I(1-5) nc by (simp_all add: l1_def)
  have l': "do_commit = (outstanding l1 = 0)" "l' = (if do_commit then l1\<lparr>committing := True\<rparr> else l1\<lparr>waiters := {}\<rparr>)"
    using w c unfolding log_end_release_def by (auto simp: Let_def l1_def log_wakeup_def split: if_splits)
  show "outstanding l' = outstanding l - 1" "l_size l' = l_size l" by (simp_all add: l'(2) l1_def)
  show "committing l' = do_commit" "waiters l' = (if do_commit then waiters l else {})" using f(6,7) by (simp_all add: l'(2))
  show "log_inv l'"
  proof (cases "outstanding l1 = 0")
    case True
    then show ?thesis unfolding log_inv_def using f each cnt n1 o1 s1 l' by simp
  next
    case False
    then have "log_inv l1" unfolding log_inv_def using f each cnt n1 o1 s1 by simp
    then show ?thesis using False l' by simp
  qed
qed

lemma log_commit_inv:
  assumes i: "log_inv l" "committing l" and w: "log_end_commit ok l s = Some (l', s')"
  shows "log_inv l'" "outstanding l' = outstanding l" "l_size l' = l_size l" "\<not> committing l'" "waiters l' = {}"
proof -
  note I = log_invD [OF i(1)]
  have o: "outstanding l = 0" using I(6) i(2) .
  note Z = idle_sums [OF i(1) o]
  obtain l1 where c: "commit ok l s = Some (l1, s')" "l' = log_wakeup (l1\<lparr>committing := False\<rparr>)"
    using w by (auto simp: log_end_commit_def split: bind_splits)
  have l': "l' = l\<lparr>lh_n := 0, blocks_used_old_clients := 0, committing := False, waiters := {}\<rparr>"
    using commit_log [OF c(1)] c(2) I(7) Z(1) by (auto simp: log_wakeup_def)
  show "outstanding l' = outstanding l" "l_size l' = l_size l" "\<not> committing l'" "waiters l' = {}" by (simp_all add: l')
  show "log_inv l'" unfolding log_inv_def using I(1-5,9-13) Z(1,2) by (simp add: l')
qed


lemma log_init_inv:
  assumes "log_init ok True mem dev sb s = Some (0, l, s')" "outstanding mem = 0" "nlog sb < 2 ^ 31"
  shows "log_inv l" "lh_n l = 0" "waiters l = waiters mem"
proof -
  obtain l2 where r: "recover_from_log ok (mem\<lparr>l_start := logstart sb, l_size := nlog sb, l_dev := dev, committing := False,
      blocks_used_old_clients := 0, lh_n := 0, lh_block := replicate (nlog sb) 0, clients := replicate MAX_CONCURRENT_LOG_CLIENTS 0,
      blocks_used := replicate MAX_CONCURRENT_LOG_CLIENTS 0, blocks_reserved := replicate MAX_CONCURRENT_LOG_CLIENTS 0\<rparr>) s = Some (l2, s')" "l = l2"
    using assms(1) by (auto simp: log_init_def Let_def split: bind_splits)
  then obtain xs where e: "l = mem\<lparr>l_start := logstart sb, l_size := nlog sb, l_dev := dev, committing := False,
      blocks_used_old_clients := 0, clients := replicate MAX_CONCURRENT_LOG_CLIENTS 0,
      blocks_used := replicate MAX_CONCURRENT_LOG_CLIENTS 0, blocks_reserved := replicate MAX_CONCURRENT_LOG_CLIENTS 0, lh_block := xs, lh_n := 0\<rparr>"
      "length xs = nlog sb"
    by (auto simp: recover_from_log_def read_head_def Let_def split: bind_splits if_splits)
  show "log_inv l" "lh_n l = 0" "waiters l = waiters mem" using e(2) assms(2,3) by (simp_all add: log_inv_def e(1) sum_list_replicate)
qed

text \<open>
  The use of the log by processes that stay within their reservations and ask for no more blocks
  than the log has; between the calls the cache changes in any way. A process that finds no room
  goes to sleep. While the last process of a transaction commits, others find the flag set. A
  signal wakes one process, which then goes through the loop again.
\<close>

inductive log_run :: "log \<Rightarrow> bio \<Rightarrow> bool" where
  lr_init: "log_init ok True mem dev sb s = Some (0, l, s') \<Longrightarrow> outstanding mem = 0 \<Longrightarrow> waiters mem = {} \<Longrightarrow> nlog sb < 2 ^ 31 \<Longrightarrow> log_run l s'"
| lr_cache: "log_run l s \<Longrightarrow> log_run l s'"
| lr_begin: "log_run l s \<Longrightarrow> pid \<noteq> 0 \<Longrightarrow> log_begin_fs_transaction_explicit pid 0 request_min request_ideal l = Some (Some c, l') \<Longrightarrow> log_run l' s"
| lr_sleep: "log_run l s \<Longrightarrow> request_min \<le> l_size l \<Longrightarrow>
    log_begin_fs_transaction_explicit pid 0 request_min request_ideal l = Some (None, l') \<Longrightarrow> log_run l' s"
| lr_write: "log_run l s \<Longrightarrow> pid \<noteq> 0 \<Longrightarrow> log_client_from_pid l pid = Some c \<Longrightarrow> blocks_used l ! c < blocks_reserved l ! c \<Longrightarrow>
    log_write pid p l s = Some (l', s') \<Longrightarrow> log_run l' s'"
| lr_release: "log_run l s \<Longrightarrow> pid \<noteq> 0 \<Longrightarrow> log_end_release pid l = Some (do_commit, l') \<Longrightarrow> log_run l' s"
| lr_commit: "log_run l s \<Longrightarrow> committing l \<Longrightarrow> log_end_commit ok l s = Some (l', s') \<Longrightarrow> log_run l' s'"
| lr_signal: "log_run l s \<Longrightarrow> log_run (l\<lparr>waiters := waiters l - {pid}\<rparr>) s"

lemma log_begin_idle:
  assumes i: "log_inv l" and o: "outstanding l = 0" "\<not> committing l" and m: "request_min \<le> l_size l"
  shows "\<exists>c l'. log_begin_fs_transaction_explicit pid 0 request_min request_ideal l = Some (Some c, l')"
proof -
  note I = log_invD [OF i] and Z = idle_sums [OF i o(1)]
  have av: "nat ((int (l_size l) - (blocks_used_old_clients l + sum_list (blocks_reserved l))) mod 2 ^ 64) = l_size l"
    using I(5) I(14) [OF o] Z(2) by simp
  have "log_client_from_pid l 0 \<noteq> None"
  proof
    assume "log_client_from_pid l 0 = None"
    then have "clients l ! 0 \<noteq> 0" by (rule client_not_found) (simp add: MAX_CONCURRENT_LOG_CLIENTS_def)
    then show False using Z(3) [of 0] by (simp add: MAX_CONCURRENT_LOG_CLIENTS_def)
  qed
  then obtain c where c: "log_client_from_pid l 0 = Some c" by blast
  show ?thesis using o(2) m c unfolding log_begin_fs_transaction_explicit_def Let_def av by simp
qed

lemma log_write_fields:
  "log_write pid p l s = Some (l', s') \<Longrightarrow> waiters l' = waiters l \<and> committing l' = committing l \<and> outstanding l' = outstanding l"
  by (auto simp: log_write_def split: if_splits option.splits)

definition sleepers_woken :: "log \<Rightarrow> bool" where
  "sleepers_woken l \<longleftrightarrow> (waiters l \<noteq> {} \<longrightarrow> committing l \<or> 0 < outstanding l)"

lemma log_run_inv: "log_run l s \<Longrightarrow> log_inv l \<and> sleepers_woken l"
proof (induction rule: log_run.induct)
  case (lr_init ok mem dev sb s l s')
  then show ?case using log_init_inv [OF lr_init(1,2,4)] by (simp add: sleepers_woken_def)
next
  case (lr_begin l s pid request_min request_ideal c l')
  then show ?case using log_begin_inv(1,3) [of l pid 0 request_min request_ideal c l'] log_invD(13) [of l]
    by (simp add: sleepers_woken_def)
next
  case (lr_sleep l s request_min pid request_ideal l')
  have "committing l \<or> outstanding l \<noteq> 0"
    using log_begin_idle [of l request_min pid request_ideal] lr_sleep by auto
  then have "committing l \<or> 0 < outstanding l" using log_invD(13) [of l] lr_sleep.IH by simp
  then show ?case using lr_sleep.IH log_begin_sleeps [OF lr_sleep.hyps(3)] by (simp add: sleepers_woken_def)
next
  case (lr_write l s pid c p l' s')
  then show ?case using log_write_inv [of l pid p s l' s' c] log_write_fields [of pid p l s l' s'] by (simp add: sleepers_woken_def)
next
  case (lr_release l s pid do_commit l')
  then show ?case using log_release_inv [of l pid do_commit l'] by (simp add: sleepers_woken_def)
next
  case (lr_commit l s ok l' s')
  then show ?case using log_commit_inv [of l ok s l' s'] by (simp add: sleepers_woken_def)
next
  case (lr_signal l s pid)
  then show ?case by (auto simp: sleepers_woken_def)
qed




section \<open>Properties\<close>

text \<open>
  C1: The log makes a transaction atomic with respect to crashes: when the system stops at any
  write of \<^verbatim>\<open>commit\<close>, or at any write of a later recovery, any number of times, then the next
  \<^verbatim>\<open>log_init\<close> succeeds, empties the log and leaves a device on which, outside of the log,
  either every block is as before the transaction or every block of the transaction has its new
  content and all others are as before. Without a crash the commit returns with all the new
  contents on the device and every changed block released once.
\<close>

theorem log_crash_atomic:
  assumes "transaction log s" "\<forall>n. ok n" "logstart sb = l_start log" "nlog sb = length (lh_block log)"
    "disk s (l_dev log) (l_start log) = (\<lambda>_. 0)"
    "crashed ok log sb s (disk s0)" "l_dev log \<in> block_devs s0" "bio_init ok s0 = Some s1"
  shows "(\<exists>log2 s2. log_init ok True mem (l_dev log) sb s1 = Some (0, log2, s2) \<and> lh_n log2 = 0 \<and>
      ((\<forall>b. b \<notin> {l_start log..l_start log + lh_n log} \<longrightarrow> disk s2 (l_dev log) b = disk s (l_dev log) b) \<or>
       (\<forall>b. b \<notin> {l_start log..l_start log + lh_n log} \<longrightarrow> disk s2 (l_dev log) b =
          (if b \<in> set (take (lh_n log) (lh_block log)) then view s (l_dev log) b else disk s (l_dev log) b)))) \<and>
    (\<exists>log' s'. commit ok log s = Some (log', s') \<and> lh_n log' = 0 \<and>
      (\<forall>b. b \<notin> {l_start log..l_start log + lh_n log} \<longrightarrow> disk s' (l_dev log) b =
         (if b \<in> set (take (lh_n log) (lh_block log)) then view s (l_dev log) b else disk s (l_dev log) b)) \<and>
      (\<forall>b\<in>set (take (lh_n log) (lh_block log)). refs s' (l_dev log) b = refs s (l_dev log) b - 1))"
  (is "?A \<and> ?B")
proof -
  let ?d = "l_dev log" and ?bl = "take (lh_n log) (lh_block log)"
  note t = assms(1)
  have c: "crash_ok ?d (l_start log) ?bl (\<lambda>i. view s ?d (lh_block log ! i)) (disk s) (disk s0)"
    by (rule crashed_ok [OF assms(1-6)])
  from boot_recovers [OF assms(1-4) c assms(7,8), of mem]
  obtain log2 s2 where r: "log_init ok True mem ?d sb s1 = Some (0, log2, s2)" "lh_n log2 = 0"
      "not_committed ?d (l_start log) ?bl (disk s) (disk s2) \<or>
       installed ?d (l_start log) ?bl (\<lambda>i. view s ?d (lh_block log ! i)) (disk s) (disk s2)" by blast
  have old: "disk s2 ?d b = disk s ?d b" if "not_committed ?d (l_start log) ?bl (disk s) (disk s2)" "b \<notin> {l_start log..l_start log + lh_n log}" for b
    using that take_facts(1) [OF t] by (simp add: not_committed_def)
  have ?A
    using r old installed_contents [OF t] by (intro exI [of _ log2] exI [of _ s2]) blast
  obtain log' s' where m: "commit ok log s = Some (log', s')" "lh_n log' = 0"
      "run_to s (commit_writes ?d (l_start log) ?bl (\<lambda>i. view s ?d (lh_block log ! i)))
        (\<lambda>d b. refs s d b - (if d = ?d \<and> b \<in> set ?bl then 1 else 0)) s'"
    using commit_ok [OF assms(1,2)] by blast
  have "installed ?d (l_start log) ?bl (\<lambda>i. view s ?d (lh_block log ! i)) (disk s) (disk s')"
    using commit_prefix(2) [OF take_facts(2,3) [OF t], of "disk s"] assms(5) run_toD(4) [OF m(3)] by (simp add: head_of_empty)
  note i = installed_contents [OF t this]
  have "refs s' ?d b = refs s ?d b - 1" if "b \<in> set ?bl" for b
    using run_toD(7) [OF m(3) quietD(2) [OF transactionD(1) [OF t]]] that by simp
  then have ?B
    using m(1,2) i by (intro exI [of _ log'] exI [of _ s']) blast
  with \<open>?A\<close> show ?thesis by (rule conjI)
qed

definition example_log :: "nat \<Rightarrow> log" where
  "example_log n = \<lparr>l_start = 2, l_size = n, outstanding = 0, committing = False, l_dev = 1, lh_n = 2, lh_block = [9, 10] @ replicate (n - 2) 0,
     clients = [0, 0, 0, 0], blocks_used = [0, 0, 0, 0], blocks_reserved = [0, 0, 0, 0], blocks_used_old_clients = 2, waiters = {}\<rparr>"

definition example_sb :: "nat \<Rightarrow> vimixfs_superblock" where
  "example_sb n = \<lparr>magic = 0x10203042, sb_size = 100, nblocks = 80, ninode_blocks = 2, nlog = n, logstart = 2, inodestart = 2 + n, bmapstart = 4 + n\<rparr>"

text \<open>Two changed blocks are pinned in the cache.\<close>

definition example_tx :: bio where
  "example_tx = example_bio\<lparr>bufs := (\<lambda>p. \<lparr>b_valid = True, b_dev = 1, b_blockno = 9 + p, b_locked = False, b_refcnt = 1, b_data = (\<lambda>_. 7)\<rparr>),
     buf_list := [0, 1], num_buffers := 2, next_buf := 2, disk := (\<lambda>_ _ _. 0)\<rparr>"

lemma example_transaction:
  assumes "2 \<le> n"
  shows "transaction (example_log n) example_tx"
proof -
  have "bio_inv example_tx" by (simp add: bio_inv_def example_tx_def example_bio_def)
  moreover have "\<not> held example_tx 1 b" "refs example_tx 1 b = (if b = 9 \<or> b = 10 then 1 else 0)" for b
    by (simp_all add: held_def refs_def example_tx_def)
  ultimately show ?thesis using assms
    by (simp add: transaction_def quiet_def example_log_def VIMIXFS_MAX_LOG_BLOCKS_def BLOCK_SIZE_def)
      (simp add: example_tx_def example_bio_def)
qed

lemma example_view: "view example_tx 1 9 = (\<lambda>_. 7)" "view example_tx 1 10 = (\<lambda>_. 7)"
  by (simp_all add: view_def example_tx_def)

text \<open>The system stops after the third write: the header of the log is written, nothing is installed.\<close>

lemma log_crash_atomic_witness:
  "\<exists>log' s' W s1 log2 s2. commit (\<lambda>_. True) (example_log 3) example_tx = Some (log', s') \<and> writes s' = W \<and>
     bio_init (\<lambda>_. True) (example_tx\<lparr>disk := apply_writes (take 3 W) (disk example_tx)\<rparr>) = Some s1 \<and>
     log_init (\<lambda>_. True) True (example_log 3) 1 (example_sb 3) s1 = Some (0, log2, s2) \<and>
     (disk s2 1 9 = (\<lambda>_. 0) \<and> disk s2 1 10 = (\<lambda>_. 0) \<or> disk s2 1 9 = (\<lambda>_. 7) \<and> disk s2 1 10 = (\<lambda>_. 7))"
proof -
  let ?l = "example_log 3" and ?ok = "\<lambda>_ :: nat. True" and ?sb = "example_sb 3"
  have t: "transaction ?l example_tx" by (rule example_transaction) simp
  obtain log' s' where c: "commit ?ok ?l example_tx = Some (log', s')" using commit_ok [OF t, of ?ok] by auto
  have w: "writes s' = writes example_tx @ writes s'" by (simp add: example_tx_def example_bio_def)
  let ?s0 = "example_tx\<lparr>disk := apply_writes (take 3 (writes s')) (disk example_tx)\<rparr>"
  have k: "crashed ?ok ?l ?sb example_tx (disk ?s0)" using in_commit [OF c w, of ?sb 3] by simp
  obtain s1 where b: "bio_init ?ok ?s0 = Some s1" using bio_init_ok [of ?ok ?s0] by auto
  have f: "l_dev ?l = 1" "l_start ?l = 2" "lh_n ?l = 2" "take 2 (lh_block ?l) = [9, 10]" "1 \<in> block_devs ?s0"
      "disk example_tx 1 b = (\<lambda>_. 0)" "logstart ?sb = l_start ?l" "nlog ?sb = length (lh_block ?l)" for b
    by (simp_all add: example_log_def example_tx_def example_bio_def example_sb_def)
  have "(\<exists>log2 s2. log_init ?ok True ?l (l_dev ?l) ?sb s1 = Some (0, log2, s2) \<and> lh_n log2 = 0 \<and>
      ((\<forall>b. b \<notin> {l_start ?l..l_start ?l + lh_n ?l} \<longrightarrow> disk s2 (l_dev ?l) b = disk example_tx (l_dev ?l) b) \<or>
       (\<forall>b. b \<notin> {l_start ?l..l_start ?l + lh_n ?l} \<longrightarrow> disk s2 (l_dev ?l) b =
          (if b \<in> set (take (lh_n ?l) (lh_block ?l)) then view example_tx (l_dev ?l) b else disk example_tx (l_dev ?l) b))))"
    by (rule conjunct1 [OF log_crash_atomic [OF t _ f(7,8) _ k _ b]]) (use f in simp_all)
  then obtain log2 s2 where r: "log_init ?ok True ?l (l_dev ?l) ?sb s1 = Some (0, log2, s2)"
    and a: "(\<forall>b. b \<notin> {l_start ?l..l_start ?l + lh_n ?l} \<longrightarrow> disk s2 (l_dev ?l) b = disk example_tx (l_dev ?l) b) \<or>
       (\<forall>b. b \<notin> {l_start ?l..l_start ?l + lh_n ?l} \<longrightarrow> disk s2 (l_dev ?l) b =
          (if b \<in> set (take (lh_n ?l) (lh_block ?l)) then view example_tx (l_dev ?l) b else disk example_tx (l_dev ?l) b))"
    by (elim exE conjE)
  from a have "disk s2 1 9 = (\<lambda>_. 0) \<and> disk s2 1 10 = (\<lambda>_. 0) \<or> disk s2 1 9 = (\<lambda>_. 7) \<and> disk s2 1 10 = (\<lambda>_. 7)"
  proof (elim disjE)
    assume A: "\<forall>b. b \<notin> {l_start ?l..l_start ?l + lh_n ?l} \<longrightarrow> disk s2 (l_dev ?l) b = disk example_tx (l_dev ?l) b"
    show ?thesis using spec [OF A, of 9] spec [OF A, of 10] by (simp add: f del: One_nat_def)
  next
    assume A: "\<forall>b. b \<notin> {l_start ?l..l_start ?l + lh_n ?l} \<longrightarrow> disk s2 (l_dev ?l) b =
          (if b \<in> set (take (lh_n ?l) (lh_block ?l)) then view example_tx (l_dev ?l) b else disk example_tx (l_dev ?l) b)"
    show ?thesis using spec [OF A, of 9] spec [OF A, of 10] by (simp add: f example_view del: One_nat_def)
  qed
  then show ?thesis using c b r unfolding f
    by (intro exI [of _ log'] exI [of _ s'] exI [of _ "writes s'"] exI [of _ s1] exI [of _ log2] exI [of _ s2]) (intro conjI; simp)
qed

lemma commit_log_block:
  assumes t: "transaction log s" and i: "i < lh_n log"
  shows "apply_writes (commit_writes (l_dev log) (l_start log) (take (lh_n log) (lh_block log)) N) D (l_dev log) (l_start log + i + 1) = N i"
proof -
  let ?d = "l_dev log" and ?st = "l_start log" and ?bl = "take (lh_n log) (lh_block log)"
  note T = take_facts [OF t]
  have n: "bl ! j \<noteq> ?st + i + 1" if "bl = ?bl" "j < length bl" for bl j
    using T(3) nth_mem [OF that(2)] that(1) i T(1) by auto
  have L: "apply_writes (log_data ?d ?st (length ?bl) N) D ?d (?st + i + 1) = N i"
    using apply_map_same [of "\<lambda>i. ?st + i + 1" "[0..<length ?bl]" i ?d N D] i T(1) by (simp add: log_data_def distinct_map inj_on_def)
  have H: "apply_writes (map (\<lambda>j. (?d, ?bl ! j, N j)) [0..<length ?bl]) f ?d (?st + i + 1) = f ?d (?st + i + 1)" for f
    by (rule apply_map_other) (use n [OF refl] in force)
  show ?thesis unfolding commit_writes_def home_data_def apply_writes_simps using L H by simp
qed

text \<open>
  C36: A transaction can overwrite the first inode block: \<^verbatim>\<open>log_write\<close> accepts blocks until as
  many blocks are recorded as the log has, though one block of the log is its header; a commit of
  that many blocks writes the last one behind the log, where the layout of \<^verbatim>\<open>mkfs\<close> has the
  first inode block.
\<close>

theorem log_overruns_into_inodes:
  assumes "transaction log s" "\<forall>n. ok n" "lh_n log = l_size log" "inodestart sb = l_start log + l_size log"
  shows "(\<exists>log' s'. commit ok log s = Some (log', s') \<and>
      disk s' (l_dev log) (inodestart sb) = view s (l_dev log) (lh_block log ! (l_size log - 1))) \<and>
    (\<forall>pid p l t. lh_n l = l_size l - 1 \<and> 0 < l_size l \<and> length (lh_block l) = l_size l \<and> 1 \<le> outstanding l \<and> log_client_from_pid l pid \<noteq> None \<longrightarrow>
       log_write pid p l t \<noteq> None)"
proof
  obtain log' s' where m: "commit ok log s = Some (log', s')"
      "run_to s (commit_writes (l_dev log) (l_start log) (take (lh_n log) (lh_block log)) (\<lambda>i. view s (l_dev log) (lh_block log ! i)))
        (\<lambda>d b. refs s d b - (if d = l_dev log \<and> b \<in> set (take (lh_n log) (lh_block log)) then 1 else 0)) s'"
    using commit_ok [OF assms(1,2)] by blast
  have n: "l_size log - 1 < lh_n log" using assms(3) transactionD(2) [OF assms(1)] by simp
  then have b: "inodestart sb = l_start log + (l_size log - 1) + 1" using assms(3,4) by simp
  show "\<exists>log' s'. commit ok log s = Some (log', s') \<and>
      disk s' (l_dev log) (inodestart sb) = view s (l_dev log) (lh_block log ! (l_size log - 1))"
    using m(1) commit_log_block [OF assms(1) n] run_toD(4) [OF m(2)] unfolding b by (intro exI [of _ log'] exI [of _ s']) simp
  show "\<forall>pid p l t. lh_n l = l_size l - 1 \<and> 0 < l_size l \<and> length (lh_block l) = l_size l \<and> 1 \<le> outstanding l \<and> log_client_from_pid l pid \<noteq> None \<longrightarrow>
       log_write pid p l t \<noteq> None"
    by (auto simp: log_write_def)
qed

lemma log_overruns_into_inodes_witness:
  "\<exists>log' s'. commit (\<lambda>_. True) (example_log 2) example_tx = Some (log', s') \<and> inodestart (example_sb 2) = 4 \<and>
     disk example_tx 1 4 = (\<lambda>_. 0) \<and> disk s' 1 4 = (\<lambda>_. 7)"
proof -
  have t: "transaction (example_log 2) example_tx" by (rule example_transaction) simp
  have f: "l_dev (example_log 2) = 1" "l_start (example_log 2) = 2" "lh_n (example_log 2) = 2" "l_size (example_log 2) = 2"
      "lh_block (example_log 2) ! 1 = 10" "inodestart (example_sb 2) = 4" "disk example_tx 1 4 = (\<lambda>_. 0)"
    by (simp_all add: example_log_def example_sb_def example_tx_def)
  have "\<exists>log' s'. commit (\<lambda>_. True) (example_log 2) example_tx = Some (log', s') \<and>
      disk s' (l_dev (example_log 2)) (inodestart (example_sb 2)) = view example_tx (l_dev (example_log 2)) (lh_block (example_log 2) ! (l_size (example_log 2) - 1))"
    by (rule conjunct1 [OF log_overruns_into_inodes [OF t]]) (simp_all add: f)
  moreover have "view example_tx (l_dev (example_log 2)) (lh_block (example_log 2) ! (l_size (example_log 2) - 1)) = (\<lambda>_. 7)"
    by (simp add: example_log_def example_tx_def view_def)
  ultimately show ?thesis using f(6,7) unfolding f(1) by simp
qed

text \<open>
  C37: A process that stays within its reservation never meets the panic of a transaction that is
  too big: in every use of the log by up to four processes at a time, with commits in between,
  \<^verbatim>\<open>log_write\<close> of a process that has used fewer blocks than it reserved succeeds, and the block
  is recorded within the bounds of the array.
\<close>

theorem log_write_within_reservation:
  assumes "log_run l s" "log_client_from_pid l pid = Some c" "blocks_used l ! c < blocks_reserved l ! c" "pid \<noteq> 0"
  shows "\<exists>l' s'. log_write pid p l s = Some (l', s') \<and> lh_n l' \<le> l_size l \<and> b_blockno (bufs s p) \<in> set (take (lh_n l') (lh_block l'))"
  by (rule log_write_accepts [OF conjunct1 [OF log_run_inv [OF assms(1)]] assms(2-4)])

lemma example_begun:
  obtains l s c where "log_run l s" "l_size l = 3" "outstanding l = 1" "lh_n l = 0" "log_client_from_pid l 17 = Some c"
    "blocks_used l ! c = 0" "blocks_reserved l ! c = 2" "\<not> committing l" "blocks_used_old_clients l = 0" "sum_list (blocks_reserved l) = 2"
proof -
  let ?ok = "\<lambda>_ :: nat. True" and ?mem = "(example_log 3)\<lparr>lh_n := 0\<rparr>"
  obtain s1 where b: "bio_init ?ok (example_tx) = Some s1" "bio_inv s1" "disk s1 = disk example_tx" "block_devs s1 = block_devs example_tx"
      "\<forall>d b. d \<noteq> 0 \<longrightarrow> view s1 d b = disk example_tx d b \<and> refs s1 d b = 0 \<and> \<not> held s1 d b"
    using bio_init_ok [of ?ok example_tx] by auto
  define l1 where "l1 = ?mem\<lparr>l_start := 2, l_size := 3, l_dev := 1, committing := False, blocks_used_old_clients := 0, lh_n := 0,
    lh_block := replicate 3 0, clients := replicate MAX_CONCURRENT_LOG_CLIENTS 0, blocks_used := replicate MAX_CONCURRENT_LOG_CLIENTS 0,
    blocks_reserved := replicate MAX_CONCURRENT_LOG_CLIENTS 0\<rparr>"
  have d: "l_dev l1 = 1" "l_start l1 = 2" "disk s1 1 2 = head_of []" "1 \<in> block_devs s1"
    using b(3,4) by (simp_all add: l1_def head_of_empty example_tx_def example_bio_def)
  have q: "quiet l1 s1" unfolding quiet_def d using b(2,5) d(4) by simp
  obtain l s where r: "recover_from_log ?ok l1 s1 = Some (l, s)"
    using recover_ok [OF q, of ?ok "[]"] b(5) d by auto
  have i: "log_init ?ok True ?mem 1 (example_sb 3) s1 = Some (0, l, s)"
    using r by (simp add: log_init_def example_sb_def l1_def Let_def)
  have run: "log_run l s" by (rule lr_init [OF i]) (simp_all add: example_log_def example_sb_def)
  have o: "outstanding l = 0" "l_size l = 3" "\<not> committing l"
    using r by (auto simp: recover_from_log_def read_head_def l1_def example_log_def Let_def split: bind_splits if_splits)
  have n: "lh_n l = 0" by (rule log_init_inv(2) [OF i]) (simp_all add: example_log_def example_sb_def)
  have inv: "log_inv l" using log_run_inv [OF run] by (rule conjunct1)
  note I = log_invD [OF inv]
  obtain c l' where g: "log_begin_fs_transaction_explicit 17 0 2 2 l = Some (Some c, l')"
    using log_begin_idle [OF inv o(1,3), of 2 17 2] o(2) by auto
  note B = log_begin_inv [OF inv g]
  have z: "clients l ! j = 0" "blocks_reserved l ! j = 0" if "j < MAX_CONCURRENT_LOG_CLIENTS" for j
    using I(1,11,13) that o(1) by (auto simp: filter_empty_conv)
  have "blocks_reserved l = replicate MAX_CONCURRENT_LOG_CLIENTS 0" by (rule nth_equalityI) (use I(3) z(2) in auto)
  then have "sum_list (blocks_reserved l) = 0" by (simp add: sum_list_replicate)
  then have res: "blocks_reserved l' ! c = 2" using B(5) o(2) I(14) [OF o(1,3)] by simp
  have c: "c < MAX_CONCURRENT_LOG_CLIENTS" "clients l' ! c = 17" using B(4,6) I(1) by simp_all
  have "log_client_from_pid l' 17 = Some c"
  proof (cases "log_client_from_pid l' 17")
    case None
    then show ?thesis using client_not_found [OF None c(1)] c(2) by simp
  next
    case (Some j)
    have "j = c" using client_found [OF Some] z(1) [of j] B(6) by (cases "j = c") simp_all
    then show ?thesis using Some by simp
  qed
  then show ?thesis using that [OF lr_begin [OF run _ g]] B(2,3,7-11) o n res I(14) [OF o(1,3)] \<open>sum_list (blocks_reserved l) = 0\<close> by simp
qed

lemma log_write_within_reservation_witness:
  "\<exists>l s l' s'. log_run l s \<and> log_write 17 0 l s = Some (l', s')"
proof -
  obtain l s c where b: "log_run l s" "log_client_from_pid l 17 = Some c" "blocks_used l ! c = 0" "blocks_reserved l ! c = 2"
    using example_begun by blast
  have "blocks_used l ! c < blocks_reserved l ! c" using b(3,4) by simp
  from log_write_within_reservation [OF b(1,2) this, of 0] b(1) show ?thesis by auto
qed



end
