(* ===== verification/Div64.thy ===== *)
theory Div64
  imports Vimix_Prelude "HOL-Library.Monad_Syntax" "HOL-Library.Signed_Division"
begin

text \<open>
  The 64-bit division that the compiler calls on 32-bit machines: \<^verbatim>\<open>kernel/lib/div64.c\<close>. A
  \<^verbatim>\<open>long long\<close> is a 64-bit word, read as a signed number where the code compares or negates
  it. The remainder that the functions return through a pointer is the second component of the
  result. In the signed division \<open>None\<close> is the division by zero and a recursion that does not end.
\<close>

unbundle bit_operations_syntax

section \<open>The code\<close>

text \<open>The loop of \<^verbatim>\<open>div_u64\<close>: \<open>Suc i\<close> bits are left, the next one is bit \<open>i\<close>.\<close>

primrec div_loop :: "nat \<Rightarrow> u64 \<Rightarrow> u64 \<Rightarrow> u64 \<Rightarrow> u64 \<Rightarrow> u64 \<times> u64" where
  "div_loop 0 n d quot rem = (quot, rem)"
| "div_loop (Suc i) n d quot rem =
     (let rem1 = push_bit 1 rem OR (drop_bit i n AND 1) in
      if rem1 \<ge> d then div_loop i n d (quot OR push_bit i 1) (rem1 - d)
      else div_loop i n d quot rem1)"

definition div_u64 :: "u64 \<Rightarrow> u64 \<Rightarrow> u64 \<times> u64" where
  "div_u64 n d = div_loop 64 n d 0 0"

partial_function (option) div_64 :: "u64 \<Rightarrow> u64 \<Rightarrow> (u64 \<times> u64) option" where
  "div_64 n d =
     (if d = 0 then None
      else if sint d < 0 then
        do { (quot, r) \<leftarrow> div_64 n (- d); Some (- quot, r) }
      else if sint n < 0 then
        do { (quot, r) \<leftarrow> div_64 (- n) d; if r = 0 then Some (- quot, r) else Some (- quot - 1, d - r) }
      else Some (div_u64 n d))"

definition divdi3 :: "u64 \<Rightarrow> u64 \<Rightarrow> u64 option" where
  "divdi3 n d = (case div_64 n d of None \<Rightarrow> None | Some (quot, r) \<Rightarrow> Some quot)"

definition moddi3 :: "u64 \<Rightarrow> u64 \<Rightarrow> u64 option" where
  "moddi3 n d = (case div_64 n d of None \<Rightarrow> None | Some (quot, r) \<Rightarrow> Some r)"

definition udivdi3 :: "u64 \<Rightarrow> u64 \<Rightarrow> u64" where
  "udivdi3 n d = fst (div_u64 n d)"

definition umoddi3 :: "u64 \<Rightarrow> u64 \<Rightarrow> u64" where
  "umoddi3 n d = snd (div_u64 n d)"

section \<open>The unsigned division\<close>

lemma u64_bound: "unat (n :: u64) < 2 ^ 64"
  using unsigned_less [of n, where 'a = nat] by simp

lemma next_bit: "unat (drop_bit i n AND 1 :: u64) = unat n div 2 ^ i mod 2"
proof -
  have "unat (drop_bit i n AND 1) = unat (drop_bit i n) mod 2" by (simp only: unsigned_and_eq) (simp add: and_one_eq)
  moreover have "take_bit 64 (unat n) = unat n" using u64_bound [of n] by (simp add: take_bit_eq_mod)
  ultimately show ?thesis by (simp only: unsigned_drop_bit_eq) (simp add: drop_bit_eq_div)
qed

lemma shift_in:
  assumes "unat rem < 2 ^ 63" "unat b \<le> 1"
  shows "unat (push_bit 1 rem OR b :: u64) = 2 * unat rem + unat b"
proof -
  have p: "unat (push_bit 1 rem) = 2 * unat rem" using assms(1) by (simp only: unsigned_push_bit_eq) (simp add: take_bit_eq_mod push_bit_eq_mult)
  have "unat (push_bit 1 rem OR b) = (2 * unat rem) OR unat b" by (simp only: unsigned_or_eq p)
  moreover have "unat b = 0 \<or> unat b = 1" using assms(2) by linarith
  ultimately show ?thesis using or_one_eq [of "2 * unat rem"] by auto
qed

lemma set_bit_i:
  assumes "unat quot = q * 2 ^ Suc i" "i < 64"
  shows "unat (quot OR push_bit i 1 :: u64) = (2 * q + 1) * 2 ^ i"
proof -
  have "(2 :: nat) ^ i < 2 ^ 64" using assms(2) by (intro power_strict_increasing) simp_all
  then have p: "unat (push_bit i 1 :: u64) = 2 ^ i" by (simp only: unsigned_push_bit_eq) (simp add: take_bit_eq_mod push_bit_eq_mult)
  have "\<not> bit (unat quot) i" using assms(1) by (simp add: bit_iff_odd)
  have "unat (quot OR push_bit i 1) = unat quot OR push_bit i 1" by (simp only: unsigned_or_eq p) (simp add: push_bit_eq_mult)
  also have "\<dots> = unat quot + 2 ^ i" using \<open>\<not> bit (unat quot) i\<close> unfolding set_bit_eq_or [symmetric] set_bit_eq by simp
  finally show ?thesis using assms(1) by (simp add: algebra_simps)
qed

lemma div_mod_eqI:
  assumes "x = q * d + r" "r < (d :: nat)"
  shows "x div d = q" "x mod d = r"
  using assms(2) by (simp_all add: assms(1))

lemma div_loop_ok:
  assumes "k \<le> 64" "0 < unat d" "unat rem = unat n div 2 ^ k mod unat d" "unat quot = unat n div 2 ^ k div unat d * 2 ^ k"
  shows "unat (fst (div_loop k n d quot rem)) = unat n div unat d \<and> unat (snd (div_loop k n d quot rem)) = unat n mod unat d"
  using assms
proof (induction k arbitrary: quot rem)
  case (Suc i)
  let ?N = "unat n" and ?d = "unat d"
  define p where "p = ?N div 2 ^ Suc i"
  define b where "b = ?N div 2 ^ i mod 2"
  have q0: "unat quot = p div ?d * 2 ^ Suc i" using Suc.prems(4) unfolding p_def .
  have p2: "?N div 2 ^ i = 2 * p + b" unfolding p_def b_def power_Suc2 div_mult2_eq by (rule mult_div_mod_eq [symmetric])
  have "?N < 2 ^ 64" by (rule u64_bound)
  then have "?N div 2 ^ i < 2 ^ (64 - i)" using Suc.prems(1) by (simp add: div_less_iff_less_mult flip: power_add)
  then have "p < 2 ^ 63"
  proof -
    have "p \<le> ?N div 2" unfolding p_def by (rule div_le_mono2) (simp_all)
    then show ?thesis using \<open>?N < 2 ^ 64\<close> by simp
  qed
  moreover have "p mod ?d \<le> p" by simp
  ultimately have r: "unat rem < 2 ^ 63" using Suc.prems(3) unfolding p_def [symmetric] by linarith
  define rem1 where "rem1 = (push_bit 1 rem OR (drop_bit i n AND 1))"
  have st: "div_loop (Suc i) n d quot rem =
      (if rem1 \<ge> d then div_loop i n d (quot OR push_bit i 1) (rem1 - d) else div_loop i n d quot rem1)"
    by (simp only: div_loop.simps Let_def rem1_def)
  have b1: "b \<le> 1" by (simp add: b_def)
  have r1: "unat rem1 = 2 * (p mod ?d) + b"
    unfolding rem1_def using shift_in [OF r, of "drop_bit i n AND 1"] Suc.prems(3) b1 by (simp add: next_bit b_def p_def)
  have lt: "p mod ?d < ?d" using Suc.prems(2) by simp
  have pe: "2 * p + b = 2 * (p div ?d) * ?d + (2 * (p mod ?d) + b)"
    using div_mult_mod_eq [of p ?d] by (metis add.assoc distrib_left mult.assoc)
  show ?case
  proof (cases "d \<le> rem1")
    case True
    then have le: "?d \<le> 2 * (p mod ?d) + b" using r1 by (simp add: word_le_nat_alt)
    then have e: "2 * p + b = (2 * (p div ?d) + 1) * ?d + (2 * (p mod ?d) + b - ?d)" using pe by (simp add: algebra_simps)
    have s: "2 * (p mod ?d) + b - ?d < ?d" using lt b1 by linarith
    have q: "(2 * p + b) div ?d = 2 * (p div ?d) + 1" "(2 * p + b) mod ?d = 2 * (p mod ?d) + b - ?d"
      using div_mod_eqI [OF e s] .
    have "unat (rem1 - d) = ?N div 2 ^ i mod ?d" using True r1 q(2) p2 by (simp add: unat_sub)
    moreover have "unat (quot OR push_bit i 1) = ?N div 2 ^ i div ?d * 2 ^ i"
      using set_bit_i [OF q0] Suc.prems(1) q(1) p2 by simp
    ultimately show ?thesis unfolding st using Suc.IH [of "rem1 - d" "quot OR push_bit i 1"] Suc.prems(1,2) True by simp
  next
    case False
    then have "2 * (p mod ?d) + b < ?d" using r1 by (simp add: word_le_nat_alt)
    note q = div_mod_eqI [OF pe this]
    have "unat rem1 = ?N div 2 ^ i mod ?d" using r1 q(2) p2 by simp
    moreover have "unat quot = ?N div 2 ^ i div ?d * 2 ^ i" using q0 q(1) p2 by simp
    ultimately show ?thesis unfolding st using Suc.IH [of rem1 quot] Suc.prems(1,2) False by simp
  qed
qed simp

lemma div_u64_ok:
  assumes "d \<noteq> 0"
  shows "unat (fst (div_u64 n d)) = unat n div unat d" "unat (snd (div_u64 n d)) = unat n mod unat d"
proof -
  have "0 < unat d" using assms by (simp add: unat_gt_0)
  moreover have "unat n div 2 ^ 64 = 0" using u64_bound [of n] by simp
  ultimately have "unat (fst (div_loop 64 n d 0 0)) = unat n div unat d \<and> unat (snd (div_loop 64 n d 0 0)) = unat n mod unat d"
    by (intro div_loop_ok) simp_all
  then show "unat (fst (div_u64 n d)) = unat n div unat d" "unat (snd (div_u64 n d)) = unat n mod unat d" by (simp_all add: div_u64_def)
qed

section \<open>The signed division\<close>

definition LLONG_MIN :: u64 where "LLONG_MIN = 0x8000000000000000"

lemma sint_of_int: "- (2 ^ 63) \<le> x \<Longrightarrow> x < 2 ^ 63 \<Longrightarrow> sint (word_of_int x :: u64) = x"
  by (simp add: sint_sbintrunc' signed_take_bit_int_eq_self)

lemma of_int_sint_u64: "word_of_int (sint w) = (w :: u64)"
  by (metis scast_eq scast_id)

lemma sint_bounds: "- (2 ^ 63) \<le> sint (w :: u64)" "sint (w :: u64) < 2 ^ 63"
  using sint_greater_eq [of w] sint_less [of w] by simp_all

lemma unat_int_bounds: "0 \<le> int (unat (w :: u64))" "int (unat (w :: u64)) < 2 ^ 64"
proof -
  show "0 \<le> int (unat w)" by (rule of_nat_0_le_iff)
  have "int (unat w) < int (2 ^ 64)" using u64_bound [of w] by (rule iffD2 [OF of_nat_less_iff])
  also have "int (2 ^ 64) = 2 ^ 64" by simp
  finally show "int (unat w) < 2 ^ 64" .
qed

lemma sint_small: "unat (w :: u64) < 2 ^ 63 \<Longrightarrow> sint w = int (unat w)"
proof -
  assume "unat w < 2 ^ 63"
  then have "int (unat w) < int (2 ^ 63)" by (rule iffD2 [OF of_nat_less_iff])
  also have "int (2 ^ 63) = 2 ^ 63" by simp
  finally have u: "int (unat w) < 2 ^ 63" .
  have "- (2 ^ 63) \<le> int (unat w)" by (rule order_trans [OF _ unat_int_bounds(1)]) simp
  from sint_of_int [OF this u] show ?thesis by simp
qed

lemma sint_nonneg: "0 \<le> sint (w :: u64) \<Longrightarrow> unat w < 2 ^ 63"
proof (rule ccontr)
  assume a: "0 \<le> sint w" "\<not> unat w < 2 ^ 63"
  define U where "U = int (unat w)"
  have "int (2 ^ 63) \<le> int (unat w)" using a(2) by (simp only: of_nat_le_iff not_less)
  then have b: "2 ^ 63 \<le> U" unfolding U_def by (simp only: of_nat_power of_nat_numeral)
  have c: "U < 2 ^ 64" unfolding U_def by (rule unat_int_bounds(2))
  have "sint (word_of_int (U - 2 ^ 64) :: u64) = U - 2 ^ 64" by (rule sint_of_int) (use b c in simp_all)
  moreover have "(word_of_int (U - 2 ^ 64) :: u64) = w" by (simp add: U_def)
  ultimately have "sint w = U - 2 ^ 64" by simp
  then show False using a(1) c by simp
qed

lemma sint_neg: "w \<noteq> LLONG_MIN \<Longrightarrow> sint (- w :: u64) = - sint w"
proof -
  assume w: "w \<noteq> LLONG_MIN"
  have "sint w \<noteq> - (2 ^ 63)"
  proof
    assume "sint w = - (2 ^ 63)"
    then have "w = word_of_int (- (2 ^ 63))" using of_int_sint_u64 [of w] by simp
    then show False using w by (simp add: LLONG_MIN_def)
  qed
  then have "- (2 ^ 63) \<le> - sint w" "- sint w < 2 ^ 63" using sint_bounds [of w] by simp_all
  from sint_of_int [OF this] show ?thesis using of_int_sint_u64 [of w] by (simp add: word_of_int_minus)
qed

text \<open>What the code computes: the division that rounds down, for the absolute value of the divisor.\<close>

lemma div_64_pos:
  assumes "0 \<le> sint n" "0 < sint d"
  shows "\<exists>q r. div_64 n d = Some (q, r) \<and> sint q = sint n div sint d \<and> sint r = sint n mod sint d"
proof -
  obtain q r where qr: "div_u64 n d = (q, r)" by fastforce
  have d: "d \<noteq> 0" using assms(2) by auto
  note U = div_u64_ok [OF d, of n, unfolded qr fst_conv snd_conv]
  have n: "unat n < 2 ^ 63" using sint_nonneg assms(1) by blast
  have nd: "sint n = int (unat n)" "sint d = int (unat d)" using sint_small sint_nonneg assms by simp_all
  note n
  moreover have "unat n div unat d \<le> unat n" "unat n mod unat d \<le> unat n" by simp_all
  ultimately have "unat q < 2 ^ 63" "unat r < 2 ^ 63" unfolding U by linarith+
  from sint_small [OF this(1)] sint_small [OF this(2)]
  have "sint q = int (unat n div unat d)" "sint r = int (unat n mod unat d)" unfolding U .
  moreover have "div_64 n d = Some (q, r)" using assms d qr by (subst div_64.simps) simp
  ultimately show ?thesis using nd by (simp add: zdiv_int zmod_int)
qed

lemma div_64_divisor_pos:
  assumes "n \<noteq> LLONG_MIN" "0 < sint d"
  shows "\<exists>q r. div_64 n d = Some (q, r) \<and> sint q = sint n div sint d \<and> sint r = sint n mod sint d"
proof (cases "0 \<le> sint n")
  case False
  then have nn: "sint (- n) = - sint n" "0 \<le> sint (- n)" using sint_neg [OF assms(1)] by simp_all
  obtain q r where q: "div_64 (- n) d = Some (q, r)" "sint q = - sint n div sint d" "sint r = - sint n mod sint d"
    using div_64_pos [OF nn(2) assms(2)] nn(1) by auto
  have d: "d \<noteq> 0" "\<not> sint d < 0" using assms(2) by auto
  have st: "div_64 n d = (if r = 0 then Some (- q, r) else Some (- q - 1, d - r))"
    by (subst div_64.simps) (use d False q(1) in simp)
  have b: "0 \<le> sint q" "0 \<le> sint r" "sint r < sint d" using q(2,3) assms(2) False by (simp_all add: pos_imp_zdiv_nonneg_iff)
  then have nm: "q \<noteq> LLONG_MIN" by (auto simp: LLONG_MIN_def)
  have nq: "sint (- q) = - sint q" by (rule sint_neg [OF nm])
  have q1: "sint (- q - 1) = - sint q - 1"
    using sint_of_int [of "- sint q - 1"] b(1) sint_bounds(2) [of q] of_int_sint_u64 [of q] by (simp add: word_of_int_minus)
  have dr: "sint (d - r) = sint d - sint r"
    using sint_of_int [of "sint d - sint r"] b(2,3) sint_bounds(2) [of d] of_int_sint_u64 by simp
  have r0: "r = 0 \<longleftrightarrow> - sint n mod sint d = 0" using q(3) by (metis signed_eq_0_iff)
  have "sint n div sint d = (if - sint n mod sint d = 0 then - (- sint n div sint d) else - (- sint n div sint d) - 1)"
    "sint n mod sint d = (if - sint n mod sint d = 0 then 0 else sint d - (- sint n mod sint d))"
    using zdiv_zminus1_eq_if [of "sint d" "- sint n"] zmod_zminus1_eq_if [of "- sint n" "sint d"] assms(2) by simp_all
  then show ?thesis unfolding st using r0 nq q1 dr q(2,3) by simp
qed (use div_64_pos assms in blast)

lemma div_64_ok:
  assumes "n \<noteq> LLONG_MIN" "d \<noteq> LLONG_MIN" "d \<noteq> 0"
  shows "\<exists>q r. div_64 n d = Some (q, r) \<and> sint q = sgn (sint d) * (sint n div \<bar>sint d\<bar>) \<and> sint r = sint n mod \<bar>sint d\<bar>"
proof (cases "0 < sint d")
  case True
  then show ?thesis using div_64_divisor_pos [OF assms(1) True] by simp
next
  case False
  have "sint d \<noteq> 0" using assms(3) by (simp add: signed_eq_0_iff)
  then have d: "sint d < 0" using False by simp
  have dd: "sint (- d) = - sint d" "0 < sint (- d)" using sint_neg [OF assms(2)] d by simp_all
  obtain q r where q: "div_64 n (- d) = Some (q, r)" "sint q = sint n div (- sint d)" "sint r = sint n mod (- sint d)"
    using div_64_divisor_pos [OF assms(1) dd(2)] dd(1) by auto
  have "q \<noteq> LLONG_MIN"
  proof
    assume m: "q = LLONG_MIN"
    have "sint LLONG_MIN = - (2 ^ 63)" using sint_of_int [of "- (2 ^ 63)"] by (simp add: LLONG_MIN_def)
    then have e: "sint n div (- sint d) = - (2 ^ 63)" using q(2) m by simp
    have "- (2 ^ 63) < sint n" using sint_neg [OF assms(1)] sint_bounds [of "- n"] by simp
    moreover have "sint n \<le> sint n div (- sint d) \<or> 0 \<le> sint n div (- sint d)"
    proof (cases "0 \<le> sint n")
      case True
      then show ?thesis using d by (simp add: pos_imp_zdiv_nonneg_iff)
    next
      case neg: False
      have "1 \<le> - sint d" using d by simp
      then show ?thesis using zdiv_mono2_neg [of "sint n" 1 "- sint d"] neg by simp
    qed
    ultimately show False unfolding e by simp
  qed
  then have "sint (- q) = - sint q" by (rule sint_neg)
  moreover have "div_64 n d = Some (- q, r)" by (subst div_64.simps) (use d assms(3) q(1) in simp)
  ultimately show ?thesis using q(2,3) d by simp
qed

text \<open>The smallest number is its own negation: the recursion does not end.\<close>

lemma sint_min: "sint LLONG_MIN < 0"
  by (simp add: LLONG_MIN_def)

lemma div_64_returns:
  assumes "div_64 n d = Some y"
  shows "n \<noteq> LLONG_MIN \<and> d \<noteq> LLONG_MIN"
proof (rule div_64.raw_induct [where P = "\<lambda>n d y. n \<noteq> LLONG_MIN \<and> d \<noteq> LLONG_MIN", OF _ assms])
  fix f n d y
  assume IH: "\<And>n d y. f n d = Some y \<Longrightarrow> n \<noteq> LLONG_MIN \<and> d \<noteq> LLONG_MIN"
    and r: "(if d = 0 then None
      else if sint d < 0 then do { (quot, r) \<leftarrow> f n (- d); Some (- quot, r) }
      else if sint n < 0 then do { (quot, r) \<leftarrow> f (- n) d; if r = 0 then Some (- quot, r) else Some (- quot - 1, d - r) }
      else Some (div_u64 n d)) = Some y"
  have m: "- LLONG_MIN = LLONG_MIN" by (simp add: LLONG_MIN_def)
  consider "sint d < 0" | "\<not> sint d < 0" "sint n < 0" | "\<not> sint d < 0" "\<not> sint n < 0" by blast
  then show "n \<noteq> LLONG_MIN \<and> d \<noteq> LLONG_MIN"
  proof cases
    case 1
    then obtain z where "f n (- d) = Some z" using r by (auto split: if_splits bind_splits)
    then show ?thesis using IH [of n "- d" z] m by auto
  next
    case 2
    then obtain z where "f (- n) d = Some z" using r by (auto split: if_splits bind_splits)
    then show ?thesis using IH [of "- n" d z] m by auto
  next
    case 3
    then show ?thesis using sint_min by auto
  qed
qed

text \<open>The division of C is \<open>sdiv\<close>, which rounds the quotient towards zero.\<close>

lemma floor_is_trunc:
  fixes a b :: int
  assumes "b \<noteq> 0"
  shows "sgn b * (a div \<bar>b\<bar>) = a sdiv b \<longleftrightarrow> 0 \<le> a \<or> b dvd a"
proof (cases "0 \<le> a")
  case True
  then show ?thesis by (cases "a = 0") (simp_all add: signed_divide_int_def)
next
  case False
  then have "a div \<bar>b\<bar> = (if - a mod \<bar>b\<bar> = 0 then - (- a div \<bar>b\<bar>) else - (- a div \<bar>b\<bar>) - 1)"
    using zdiv_zminus1_eq_if [of "\<bar>b\<bar>" "- a"] assms by simp
  moreover have "- a mod \<bar>b\<bar> = 0 \<longleftrightarrow> b dvd a" by (simp add: mod_eq_0_iff_dvd)
  moreover have "a sdiv b = sgn b * - (- a div \<bar>b\<bar>)" using False by (simp add: signed_divide_int_def)
  moreover have "sgn b \<noteq> 0" using assms by (simp add: sgn_eq_0_iff)
  ultimately show ?thesis using False by (simp add: right_diff_distrib)
qed

lemma floor_is_trunc_mod:
  fixes a b :: int
  assumes "b \<noteq> 0"
  shows "a mod \<bar>b\<bar> = a smod b \<longleftrightarrow> 0 \<le> a \<or> b dvd a"
proof -
  have "a = sgn b * (a div \<bar>b\<bar>) * b + a mod \<bar>b\<bar>"
    using div_mult_mod_eq [of a "\<bar>b\<bar>"] assms by (cases "0 < b") simp_all
  moreover have "a = a sdiv b * b + a smod b"
    using sdiv_mult_smod_eq [of a b] by simp
  ultimately have "a mod \<bar>b\<bar> = a smod b \<longleftrightarrow> sgn b * (a div \<bar>b\<bar>) * b = a sdiv b * b" by linarith
  then show ?thesis using floor_is_trunc [OF assms] assms by simp
qed

section \<open>Properties\<close>

text \<open>
  C39: the shift-and-subtract loop computes the quotient and the remainder of every pair of
  unsigned 64-bit numbers with a divisor that is not zero; no bit of the remainder is lost, also
  where the divisor has its highest bit set.
\<close>

theorem unsigned_division_correct:
  assumes "d \<noteq> 0"
  shows "udivdi3 n d = n div d \<and> umoddi3 n d = n mod d"
  using div_u64_ok [OF assms, of n]
  by (simp add: udivdi3_def umoddi3_def word_unat_eq_iff unat_div_distrib unat_mod_distrib)

lemma unsigned_division_correct_witness:
  "udivdi3 0xFFFFFFFFFFFFFFFF 0x8000000000000001 = 1 \<and> umoddi3 0xFFFFFFFFFFFFFFFF 0x8000000000000001 = 0x7FFFFFFFFFFFFFFE"
  using unsigned_division_correct [of "0x8000000000000001" "0xFFFFFFFFFFFFFFFF"] by simp

text \<open>
  C40: the signed division is not that of C. With the smallest \<^verbatim>\<open>long long\<close> as dividend or divisor
  it does not return. Otherwise the dividend is divided by the absolute value of the divisor,
  rounding down, and a quotient for a negative divisor is then negated; the remainder is that of
  the absolute value of the divisor and never negative. This is the truncated quotient of C
  exactly if the dividend is not negative or a multiple of the divisor, and the remainder of C
  in the same cases.
\<close>

theorem signed_division_not_truncating:
  assumes "d \<noteq> 0"
  shows "(divdi3 n d = None \<longleftrightarrow> n = LLONG_MIN \<or> d = LLONG_MIN) \<and>
    (moddi3 n d = None \<longleftrightarrow> n = LLONG_MIN \<or> d = LLONG_MIN) \<and>
    (\<forall>q. divdi3 n d = Some q \<longrightarrow> sint q = sgn (sint d) * (sint n div \<bar>sint d\<bar>) \<and>
      (sint q = sint n sdiv sint d \<longleftrightarrow> 0 \<le> sint n \<or> sint d dvd sint n)) \<and>
    (\<forall>r. moddi3 n d = Some r \<longrightarrow> sint r = sint n mod \<bar>sint d\<bar> \<and>
      (sint r = sint n smod sint d \<longleftrightarrow> 0 \<le> sint n \<or> sint d dvd sint n))"
proof (cases "n = LLONG_MIN \<or> d = LLONG_MIN")
  case True
  then have "div_64 n d = None" using div_64_returns [of n d] by (cases "div_64 n d") auto
  then show ?thesis using True by (simp add: divdi3_def moddi3_def)
next
  case False
  then obtain q r where "div_64 n d = Some (q, r)" "sint q = sgn (sint d) * (sint n div \<bar>sint d\<bar>)" "sint r = sint n mod \<bar>sint d\<bar>"
    using div_64_ok [OF _ _ assms] by blast
  moreover have "sint d \<noteq> 0" using assms by (simp add: signed_eq_0_iff)
  ultimately show ?thesis
    using False floor_is_trunc [of "sint d" "sint n"] floor_is_trunc_mod [of "sint d" "sint n"] by (simp add: divdi3_def moddi3_def)
qed

lemma signed_division_not_truncating_witness:
  "(\<exists>q r. divdi3 (- 7) 2 = Some q \<and> sint q = - 4 \<and> moddi3 (- 7) 2 = Some r \<and> sint r = 1) \<and>
   (\<exists>q r. divdi3 (- 7) (- 2) = Some q \<and> sint q = 4 \<and> moddi3 (- 7) (- 2) = Some r \<and> sint r = 1) \<and>
   (- 7 :: int) sdiv 2 = - 3 \<and> divdi3 LLONG_MIN 2 = None"
proof -
  have s: "sint (- 7 :: u64) = - 7" "sint (2 :: u64) = 2" "sint (- 2 :: u64) = - 2" by simp_all
  have t: "(- 7 :: int) sdiv 2 = - 3" by (simp add: signed_divide_int_def)
  have m: "- 7 \<noteq> LLONG_MIN" "2 \<noteq> LLONG_MIN" "- 2 \<noteq> LLONG_MIN" by (simp_all add: LLONG_MIN_def)
  have d: "(- 7 :: int) div 2 = - 4" "(- 7 :: int) mod 2 = 1" by simp_all
  have a: "\<exists>q r. divdi3 (- 7) 2 = Some q \<and> sint q = - 4 \<and> moddi3 (- 7) 2 = Some r \<and> sint r = 1"
    using signed_division_not_truncating [of 2 "- 7", unfolded s] m d by fastforce
  have b: "\<exists>q r. divdi3 (- 7) (- 2) = Some q \<and> sint q = 4 \<and> moddi3 (- 7) (- 2) = Some r \<and> sint r = 1"
    using signed_division_not_truncating [of "- 2" "- 7", unfolded s] m d by fastforce
  have "divdi3 LLONG_MIN 2 = None" using signed_division_not_truncating [of 2 LLONG_MIN] by simp
  then show ?thesis using a b t by blast
qed

end
