(* ===== verification/Spec2Isabelle.thy ===== *)
theory Spec2Isabelle
  imports Kstring Bitmap Permission Pipe Klist Slab Memory_Map Page_Table Proc_Memory Log Div64
begin

text \<open>
  A verification library for the VIMIX operating system, a small Unix for RISC-V. Paths are relative
  to the source tree. The theories model the 64-bit build; \<^theory_text>\<open>Div64\<close> models a file that is
  only linked on 32-bit machines.

  \<^bold>\<open>Parts and how they interact.\<close> Pages come from the buddy allocator (\<^verbatim>\<open>kernel/mm/kalloc.c\<close>);
  \<^verbatim>\<open>kmalloc\<close> cuts them into objects (\<^verbatim>\<open>slab.c\<close>, \<^verbatim>\<open>cache.c\<close>). A process has a page table,
  a tree of pages (\<^verbatim>\<open>vm.c\<close>), and a memory map, an ordered list of regions
  (\<^verbatim>\<open>memory_map.c\<close>), kept in step by \<^verbatim>\<open>page_table.c\<close>; \<^verbatim>\<open>proc.c\<close> grows its heap and stack
  with them, and the system calls reach its memory with the copy routines of \<^verbatim>\<open>vm.c\<close>. System
  calls check ids and modes (\<^verbatim>\<open>permission.c\<close>, \<^verbatim>\<open>sys_cred.c\<close>). Processes talk through pipes
  (\<^verbatim>\<open>ipc/pipe.c\<close>). The file system reads and writes blocks through the buffer cache
  (\<^verbatim>\<open>bio.c\<close>) and makes its changes atomic with a log (\<^verbatim>\<open>fs/vimixfs/log.c\<close>).

  \<^bold>\<open>Theories.\<close>
  \<^item> \<^theory_text>\<open>Vimix_Prelude\<close>: integer types, error numbers, memory, alignment lemmas.
  \<^item> \<^theory_text>\<open>Kstring\<close>: \<^verbatim>\<open>kernel/lib/string.c\<close>. An object is the list of its bytes, an access outside
    is \<open>None\<close>. Filling, copying and searching against plain list functions.
  \<^item> \<^theory_text>\<open>Bitmap\<close>: \<^verbatim>\<open>kernel/lib/bitmap.c\<close> and the kernel stack addresses of \<^verbatim>\<open>proc.c\<close>. The
    locales \<open>bit_store\<close> and \<open>bit_finder\<close> are the contract of a bitmap, interpreted on the code.
  \<^item> \<^theory_text>\<open>Permission\<close>: \<^verbatim>\<open>permission.c\<close>, \<^verbatim>\<open>sys_cred.c\<close>, \<^verbatim>\<open>sys_file_meta.c\<close>. The checks
    are those of the class of the process; sequences of calls never widen the ids of an
    unprivileged process that executes no set-user-id file of the superuser. Which open flags give
    only the rights that were checked is settled for every flag word.
  \<^item> \<^theory_text>\<open>Cbuffer\<close>, \<^theory_text>\<open>Pipe\<close>: \<^verbatim>\<open>lib/cbuffer.c\<close>, \<^verbatim>\<open>ipc/pipe.c\<close>. The locale \<open>bounded_queue\<close> is the
    contract of both rings. A step relation interleaves readers and writers of a pipe, killed
    processes and failing copies included, with counters that wrap around at 64 bits; it keeps the
    history of the bytes and of the wake-ups that were missed.
  \<^item> \<^theory_text>\<open>Buddy\<close>, \<^theory_text>\<open>Slab\<close>: \<^verbatim>\<open>kalloc.c\<close>, \<^verbatim>\<open>slab.c\<close>, \<^verbatim>\<open>cache.c\<close>. The locale \<open>allocator\<close> says what an
    allocator promises; both are interpretations. Runs from boot keep the live blocks disjoint and
    lose no memory.
  \<^item> \<^theory_text>\<open>Klist\<close>: \<^verbatim>\<open>include/kernel/list.h\<close> on a heap of pointers, refined to HOL lists by the
    locale \<open>linked_lists\<close>. The other theories use the HOL lists.
  \<^item> \<^theory_text>\<open>Pgtable\<close>, \<^theory_text>\<open>Memory_Map\<close>, \<^theory_text>\<open>Vm\<close>, \<^theory_text>\<open>Uvm\<close>, \<^theory_text>\<open>Page_Table\<close>, \<^theory_text>\<open>Proc_Memory\<close>: entries and indices, the list of
    regions, the tree of tables with the allocator below, the copies to and from user memory, the
    operations that change map and tree together, and the heap and stack of a process. A region
    list is read as the set of its pages, a tree as the function from page to entry; the
    operations are refinements of operations on these, and \<open>agrees\<close> relates the two.
  \<^item> \<^theory_text>\<open>Bio\<close>: \<^verbatim>\<open>kernel/kernel/bio.c\<close>, \<^verbatim>\<open>buf.c\<close>. A buffer is a number, the cache a record with
    the list of buffers, the counters, the devices and the writes in their order. \<open>view\<close> is the
    content of a block for the users; the operations change one block and leave the others
    (\<open>others_same\<close>), and the cache is transparent.
  \<^item> \<^theory_text>\<open>Log\<close>: \<^verbatim>\<open>kernel/fs/vimixfs/log.c\<close> on the cache. The effect of the code is a list of writes
    (\<open>run_to\<close>); a crash keeps a prefix of it. Every crash in a commit or a recovery leaves a device
    that recovers to all old or all new blocks. The reservations bound the size of a transaction,
    and the processes that sleep for the log are part of its state and are woken.
  \<^item> \<^theory_text>\<open>Div64\<close>: \<^verbatim>\<open>kernel/lib/div64.c\<close>.

  \<^bold>\<open>Conventions.\<close> A function that can panic, leave an object, use freed memory or not return gives an
  \<open>option\<close>, and \<open>None\<close> is that case; error numbers are negative integers as in the code. Whether
  \<^verbatim>\<open>kmalloc\<close> succeeds is an argument where the object allocator is not part of the state.
  Addresses and sizes are words where they can wrap, counts are natural numbers. What is done under
  one hold of a lock is one step; processes that sleep on a channel are a set in the state, which
  \<^verbatim>\<open>wakeup\<close> empties. Where a panic and the use of freed memory have to be told apart the result
  is a sum with the type \<open>fault\<close>. Function pointers are arguments.

  \<^bold>\<open>Bounds and fuel.\<close> Loops are structural or have a termination proof, or are partial functions whose
  return is proved. The recursion that frees a page table has fuel; three levels are enough, as a
  tree has three. Disk blocks have 1024 bytes, the header of the log 255 entries, and the log four
  clients, as in the code.

  \<^bold>\<open>Where the code is not right.\<close> Some theorems show what the code does instead: a region at the end of
  another one overlaps it (\<^theory_text>\<open>Memory_Map\<close>), the clean-up of a failed mapping uses a freed region
  (\<^theory_text>\<open>Page_Table\<close>), a full log overwrites the first inode block (\<^theory_text>\<open>Log\<close>), the signed division does
  not truncate and does not return for the smallest number (\<^theory_text>\<open>Div64\<close>), \<^verbatim>\<open>strstr\<close> reads behind its strings
  (\<^theory_text>\<open>Kstring\<close>), a failing copy loses a byte of a pipe and a killed
  writer does not wake the readers (\<^theory_text>\<open>Pipe\<close>), and some open flags give more rights
  than were checked (\<^theory_text>\<open>Permission\<close>).

  \<^bold>\<open>Not modelled.\<close> Assembler, traps, interrupts, timers, boot and the drivers, whose state is that of the
  hardware; the locks, which rest on atomic instructions; the scheduler and its context switches, of which
  the steps in any order take the place;
  the virtual file system, devfs and sysfs, which dispatch through tables; inodes, directories and
  block maps above the log; sorting; text output; the programs and libraries of user space, the
  external libraries libfdt and tomlc17, and the tools that build an image.
\<close>

end
